(* ===== verification/LOB_Prelude.thy ===== *)
theory LOB_Prelude
  imports Complex_Main "HOL-Library.Word" "HOL-Library.Finite_Map" "HOL-Library.Signed_Division"
begin

text \<open>
  Shared vocabulary of the development: the integer types of \<^verbatim>\<open>core/order.hpp\<close>, the faults
  that stand for undefined behaviour and failed assertions, the error-propagating sequencing
  of fallible code, saturating subtraction, and generic facts on words, lists and finite maps.

  \<^item> \<open>OrderId\<close>, \<open>Quantity\<close> and \<open>Timestamp\<close> are \<open>uint64_t\<close>: arithmetic wraps modulo \<open>2 ^ 64\<close>,
    so they are \<open>64 word\<close>.
  \<^item> \<open>Price\<close> is \<open>int64_t\<close>: the engine only compares and copies prices, so they are \<open>int\<close>; the two
    places that compute with prices (mid price and spread) check for signed overflow, which is
    undefined behaviour in C++, and return a fault.
\<close>

named_theorems lob_defs "definitions of the model that proofs unfold together"

type_synonym order_id = "64 word"
type_synonym price = int
type_synonym quantity = "64 word"
type_synonym timestamp = "64 word"

section \<open>Faults and fallible results\<close>

datatype fault =
    Null_order         \<comment> \<open>dereference of the null \<open>Order*\<close> that \<open>find_order_mut\<close> returned\<close>
  | Empty_queue        \<comment> \<open>\<open>front\<close> or \<open>pop_front\<close> of an empty \<open>std::deque\<close>\<close>
  | Signed_overflow    \<comment> \<open>overflow of \<open>int64_t\<close> arithmetic\<close>
  | Missing_key        \<comment> \<open>dereference of an end iterator\<close>
  | Out_of_fuel        \<comment> \<open>the step bound of a modelled loop was reached\<close>

fun bind_res :: "'e + 'a \<Rightarrow> ('a \<Rightarrow> 'e + 'b) \<Rightarrow> 'e + 'b" where
  "bind_res (Inl e) f = Inl e"
| "bind_res (Inr x) f = f x"

lemma bind_res_cong [fundef_cong]:
  "m = m' \<Longrightarrow> (\<And>x. m' = Inr x \<Longrightarrow> f x = g x) \<Longrightarrow> bind_res m f = bind_res m' g"
  by (cases m') auto

lemma bind_res_Inr_iff:
  "bind_res m f = Inr y \<longleftrightarrow> (\<exists>x. m = Inr x \<and> f x = Inr y)"
  by (cases m) auto

lemma bind_res_InrE:
  assumes "bind_res m f = Inr y"
  obtains x where "m = Inr x" and "f x = Inr y"
  using assms by (auto simp: bind_res_Inr_iff)

lemma bind_res_Inl_iff:
  "bind_res m f = Inl e \<longleftrightarrow> m = Inl e \<or> (\<exists>x. m = Inr x \<and> f x = Inl e)"
  by (cases m) auto

lemma bind_res_assoc: "bind_res (bind_res m f) g = bind_res m (\<lambda>x. bind_res (f x) g)"
  by (cases m) auto

section \<open>Bounded integers\<close>

definition int64_ok :: "int \<Rightarrow> bool" where
  "int64_ok x \<longleftrightarrow> - (2 ^ 63) \<le> x \<and> x < 2 ^ 63"

text \<open>The guarded subtraction \<open>(v >= d) ? v - d : 0\<close> of the level volumes.\<close>

definition sat_sub :: "quantity \<Rightarrow> quantity \<Rightarrow> quantity" where
  "sat_sub v d = (if d \<le> v then v - d else 0)"

lemma unat_sub_le: "(d :: 64 word) \<le> v \<Longrightarrow> unat (v - d) = unat v - unat d"
  by (simp add: unat_sub)

lemma unat_sat_sub: "unat (sat_sub v d) = unat v - unat d"
  by (auto simp: sat_sub_def unat_sub_le word_le_nat_alt)

lemma unat_min_word: "unat (min (a :: 64 word) b) = min (unat a) (unat b)"
  by (simp add: min_def word_le_nat_alt)

lemma unat_sub_min_left: "unat (a - min a (b :: 64 word)) = unat a - unat b"
  by (simp add: unat_sub_le unat_min_word)

lemma unat_sub_min_right: "unat (b - min a (b :: 64 word)) = unat b - unat a"
  by (simp add: unat_sub_le unat_min_word)

lemma word_gt_0_unat: "(0 :: 64 word) < w \<longleftrightarrow> 0 < unat w"
  by (simp add: word_less_nat_alt)

lemma unat_pos_iff: "0 < unat (w :: 64 word) \<longleftrightarrow> w \<noteq> 0"
  by (simp add: unat_gt_0)

section \<open>Lists\<close>

lemma remove1_hd: "xs \<noteq> [] \<Longrightarrow> remove1 (hd xs) xs = tl xs"
  by (cases xs) auto

lemma find_distinct: "distinct (map f xs) \<Longrightarrow> x \<in> set xs \<Longrightarrow> find (\<lambda>y. f y = f x) xs = Some x"
  by (induction xs) auto

section \<open>Sums over finite maps\<close>

definition fmsum :: "('v \<Rightarrow> nat) \<Rightarrow> ('k, 'v) fmap \<Rightarrow> nat" where
  "fmsum f m = (\<Sum>k\<in>fset (fmdom m). f (the (fmlookup m k)))"

lemma fmsum_empty [simp]: "fmsum f fmempty = 0"
  by (simp add: fmsum_def)

lemma fmsum_drop:
  assumes "fmlookup m k = Some v"
  shows "fmsum f m = fmsum f (fmdrop k m) + f v"
proof -
  have k: "k \<in> fset (fmdom m)" using assms by (simp add: fmdomI)
  have "fmsum f m = f v + (\<Sum>i\<in>fset (fmdom m) - {k}. f (the (fmlookup m i)))"
    using assms k by (simp add: fmsum_def sum.remove)
  moreover have "(\<Sum>i\<in>fset (fmdom m) - {k}. f (the (fmlookup m i))) = fmsum f (fmdrop k m)"
    unfolding fmsum_def by (intro sum.cong) (auto simp: fmdom_drop)
  ultimately show ?thesis by simp
qed

lemma fmdrop_absent: "fmlookup m k = None \<Longrightarrow> fmdrop k m = m"
  by (rule fmap_ext) auto

lemma fmsum_upd: "fmsum f (fmupd k v m) = fmsum f (fmdrop k m) + f v"
proof -
  have "fmdrop k (fmupd k v m) = fmdrop k m" by (rule fmap_ext) auto
  then show ?thesis using fmsum_drop [of "fmupd k v m" k v f] by simp
qed

lemma fmsum_upd_new: "fmlookup m k = None \<Longrightarrow> fmsum f (fmupd k v m) = fmsum f m + f v"
  by (simp add: fmsum_upd fmdrop_absent)

lemma fmsum_upd_le: "fmsum f (fmupd k v m) \<le> fmsum f m + f v"
  by (cases "fmlookup m k") (auto simp: fmsum_upd fmdrop_absent fmsum_drop)

lemma fmsum_upd_old:
  "fmlookup m k = Some w \<Longrightarrow> fmsum f (fmupd k v m) + f w = fmsum f m + f v"
  by (simp add: fmsum_upd fmsum_drop)

end
