(* ===== verification/Core_Types.thy ===== *)
theory Core_Types
  imports LOB_Prelude
begin

text \<open>
  The data of \<^verbatim>\<open>src/core\<close>: enumerations (\<^verbatim>\<open>enums.hpp\<close>), orders (\<^verbatim>\<open>order.hpp\<close>), trades,
  execution reports and rejections (\<^verbatim>\<open>trade.hpp\<close>), the input events (\<^verbatim>\<open>event.hpp\<close>), the engine
  configuration (\<^verbatim>\<open>config.hpp\<close>) and the result of a submission (\<^verbatim>\<open>engine/matching_engine.hpp\<close>).
  A C++ struct is a record whose field names carry a short prefix, because HOL record fields are
  global constants; the default member initialisers are the \<open>default_\<close> constants.
\<close>

section \<open>Enumerations\<close>

datatype side = Buy | Sell

datatype order_type = Limit | Market | Stop | StopLimit | Iceberg

datatype order_status = New | Resting | PartialFilled | Filled | Cancelled | Rejected | Triggered

datatype reject_reason =
    NoReason | InvalidPrice | InvalidQuantity | DuplicateOrderId | OrderNotFound
  | OrderNotCancellable | InvalidModify | StopPriceInconsistent | PriceBandViolation
  | MaxSizeViolation | MarketExhausted

datatype aggressor_side = AggBuy | AggSell | AggNone

section \<open>Orders\<close>

record order =
  ord_id :: order_id
  ord_side :: side
  ord_type :: order_type
  ord_price :: price
  ord_stop_price :: price
  ord_quantity :: quantity
  ord_orig_qty :: quantity
  ord_peak_qty :: quantity
  ord_reserve_qty :: quantity
  ord_timestamp :: timestamp
  ord_status :: order_status

definition default_order :: order where
  "default_order = \<lparr> ord_id = 0, ord_side = Buy, ord_type = Limit, ord_price = 0,
     ord_stop_price = 0, ord_quantity = 0, ord_orig_qty = 0, ord_peak_qty = 0,
     ord_reserve_qty = 0, ord_timestamp = 0, ord_status = New \<rparr>"

definition is_buy :: "order \<Rightarrow> bool" where
  "is_buy o1 \<longleftrightarrow> ord_side o1 = Buy"

definition is_sell :: "order \<Rightarrow> bool" where
  "is_sell o1 \<longleftrightarrow> ord_side o1 = Sell"

definition is_resting :: "order \<Rightarrow> bool" where
  "is_resting o1 \<longleftrightarrow> ord_status o1 = Resting \<or> ord_status o1 = PartialFilled"

definition is_iceberg :: "order \<Rightarrow> bool" where
  "is_iceberg o1 \<longleftrightarrow> 0 < ord_peak_qty o1"

definition visible_qty :: "order \<Rightarrow> quantity" where
  "visible_qty o1 = (if is_iceberg o1 then ord_peak_qty o1 else ord_quantity o1)"

lemma is_sell_not_buy: "is_sell o1 \<longleftrightarrow> \<not> is_buy o1"
  by (cases "ord_side o1") (simp_all add: is_sell_def is_buy_def)

section \<open>Trades, reports, rejections\<close>

record trade =
  tr_aggressor_id :: order_id
  tr_passive_id :: order_id
  tr_price :: price
  tr_quantity :: quantity
  tr_timestamp :: timestamp
  tr_aggressor_side :: aggressor_side

record partial_fill =
  pf_order_id :: order_id
  pf_filled_qty :: quantity
  pf_remaining_qty :: quantity
  pf_timestamp :: timestamp

record execution_report =
  rep_order_id :: order_id
  rep_status :: order_status
  rep_cumulative_qty :: quantity
  rep_remaining_qty :: quantity
  rep_avg_fill_price :: price
  rep_timestamp :: timestamp

definition default_report :: execution_report where
  "default_report = \<lparr> rep_order_id = 0, rep_status = New, rep_cumulative_qty = 0,
     rep_remaining_qty = 0, rep_avg_fill_price = 0, rep_timestamp = 0 \<rparr>"

record rejection =
  rej_order_id :: order_id
  rej_reason :: reject_reason
  rej_timestamp :: timestamp

definition default_rejection :: rejection where
  "default_rejection = \<lparr> rej_order_id = 0, rej_reason = NoReason, rej_timestamp = 0 \<rparr>"

section \<open>The result of a submission\<close>

record match_result =
  trades :: "trade list"
  reports :: "execution_report list"
  rejections :: "rejection list"

definition empty_result :: match_result where
  "empty_result = \<lparr> trades = [], reports = [], rejections = [] \<rparr>"

text \<open>The three \<open>vector::insert(end, ...)\<close> calls that merge a nested result.\<close>

definition append_result :: "match_result \<Rightarrow> match_result \<Rightarrow> match_result" where
  "append_result r sub = \<lparr> trades = trades r @ trades sub, reports = reports r @ reports sub,
     rejections = rejections r @ rejections sub \<rparr>"

lemma trades_append [simp]: "trades (append_result r q) = trades r @ trades q"
  and reports_append [simp]: "reports (append_result r q) = reports r @ reports q"
  and rejections_append [simp]: "rejections (append_result r q) = rejections r @ rejections q"
  by (simp_all add: append_result_def)

lemma trades_empty [simp]: "trades empty_result = []"
  and reports_empty [simp]: "reports empty_result = []"
  and rejections_empty [simp]: "rejections empty_result = []"
  by (simp_all add: empty_result_def)

lemma append_result_empty [simp]:
  "append_result empty_result r = r" "append_result r empty_result = r"
  by (simp_all add: append_result_def)

lemma append_result_assoc:
  "append_result (append_result a b) c = append_result a (append_result b c)"
  by (simp add: append_result_def)

section \<open>Events\<close>

record cancel_order_event =
  cancel_order_id :: order_id
  cancel_timestamp :: timestamp

record modify_order_event =
  mod_order_id :: order_id
  mod_new_price :: price
  mod_new_quantity :: quantity
  mod_timestamp :: timestamp

record replace_order_event =
  old_order_id :: order_id
  new_order :: order

datatype order_event =
    NewOrderEvent order
  | CancelOrderEvent cancel_order_event
  | ModifyOrderEvent modify_order_event
  | ReplaceOrderEvent replace_order_event

section \<open>Engine configuration\<close>

text \<open>
  The \<open>double\<close> members are kept as the decimal literals of the source; no modelled operation
  computes with them.
\<close>

record engine_config =
  max_price :: price
  max_order_size :: quantity
  price_band_bps :: price
  snapshot_interval :: "64 word"
  snapshot_path :: string
  log_path :: string
  log_queue_size :: "32 word"
  cfg_mid_price :: price
  arrival_rate :: rat
  price_std_dev :: rat
  cancel_probability :: rat
  burst_size :: "32 word"
  market_maker_mode :: bool

definition default_config :: engine_config where
  "default_config = \<lparr> max_price = 10000000, max_order_size = 1000000, price_band_bps = 500,
     snapshot_interval = 10000, snapshot_path = ''snapshots/'', log_path = ''logs/'',
     log_queue_size = 65536, cfg_mid_price = 10000, arrival_rate = 1000, price_std_dev = 20,
     cancel_probability = 3 / 10, burst_size = 0, market_maker_mode = False \<rparr>"

end
