(* ===== verification/Price_Level.thy ===== *)
theory Price_Level
  imports Core_Types
begin

text \<open>
  One price level of the book (\<^verbatim>\<open>src/book/price_level.hpp\<close>, \<^verbatim>\<open>price_level.cpp\<close>): a FIFO queue of
  order ids with lazy deletion. \<open>remove\<close> only records the id in the set \<open>cancelled_\<close>; the queue
  entry disappears when \<open>drain_cancelled\<close> meets it at the front. The \<open>mutable\<close> members mean that
  the accessors \<open>front\<close> and \<open>empty\<close> change the level, so they return the drained level here.

  The abstract view of a level is \<open>live\<close>: the ids still in the queue once every pending deletion
  has taken effect on the first entry of its id. The locale \<open>fifo_level\<close> states the contract of
  an abstract FIFO with deletion, and the code's level is an interpretation of it.
\<close>

record price_level =
  lvl_price :: price
  lvl_volume :: quantity
  lvl_queue :: "order_id list"
  lvl_cancelled :: "order_id set"

definition new_level :: "price \<Rightarrow> price_level" where
  "new_level p = \<lparr> lvl_price = p, lvl_volume = 0, lvl_queue = [], lvl_cancelled = {} \<rparr>"

section \<open>Operations\<close>

fun drain :: "order_id list \<Rightarrow> order_id set \<Rightarrow> order_id list \<times> order_id set" where
  "drain [] C = ([], C)"
| "drain (x # q) C = (if x \<in> C then drain q (C - {x}) else (x # q, C))"

definition drain_cancelled :: "price_level \<Rightarrow> price_level" where
  "drain_cancelled l = (case drain (lvl_queue l) (lvl_cancelled l) of
     (q, C) \<Rightarrow> l\<lparr> lvl_queue := q, lvl_cancelled := C \<rparr>)"

definition level_push_back :: "order_id \<Rightarrow> quantity \<Rightarrow> price_level \<Rightarrow> price_level" where
  "level_push_back i v l = l\<lparr> lvl_queue := lvl_queue l @ [i], lvl_volume := lvl_volume l + v \<rparr>"

definition level_pop_front :: "quantity \<Rightarrow> price_level \<Rightarrow> fault + price_level" where
  "level_pop_front filled l = (let l1 = drain_cancelled l in
     case lvl_queue l1 of
       [] \<Rightarrow> Inl Empty_queue
     | _ # q \<Rightarrow> Inr (l1\<lparr> lvl_queue := q, lvl_volume := sat_sub (lvl_volume l1) filled \<rparr>))"

definition reduce_front_volume :: "quantity \<Rightarrow> price_level \<Rightarrow> price_level" where
  "reduce_front_volume v l = l\<lparr> lvl_volume := sat_sub (lvl_volume l) v \<rparr>"

definition level_remove :: "order_id \<Rightarrow> quantity \<Rightarrow> price_level \<Rightarrow> price_level" where
  "level_remove i v l = l\<lparr> lvl_cancelled := insert i (lvl_cancelled l),
     lvl_volume := sat_sub (lvl_volume l) v \<rparr>"

definition level_front :: "price_level \<Rightarrow> fault + order_id \<times> price_level" where
  "level_front l = (let l1 = drain_cancelled l in
     case lvl_queue l1 of [] \<Rightarrow> Inl Empty_queue | i # _ \<Rightarrow> Inr (i, l1))"

definition level_empty :: "price_level \<Rightarrow> bool \<times> price_level" where
  "level_empty l = (let l1 = drain_cancelled l in (lvl_queue l1 = [], l1))"

definition level_size :: "price_level \<Rightarrow> 64 word" where
  "level_size l = of_nat (length (lvl_queue l)) - of_nat (card (lvl_cancelled l))"

definition level_order_ids :: "price_level \<Rightarrow> order_id list" where
  "level_order_ids l = filter (\<lambda>i. i \<notin> lvl_cancelled l) (lvl_queue l)"

section \<open>The live queue\<close>

fun live :: "order_id set \<Rightarrow> order_id list \<Rightarrow> order_id list" where
  "live C [] = []"
| "live C (x # q) = (if x \<in> C then live (C - {x}) q else x # live C q)"

definition live_ids :: "price_level \<Rightarrow> order_id list" where
  "live_ids l = live (lvl_cancelled l) (lvl_queue l)"

text \<open>Every pending deletion has an entry to delete.\<close>

definition level_ok :: "price_level \<Rightarrow> bool" where
  "level_ok l \<longleftrightarrow> lvl_cancelled l \<subseteq> set (lvl_queue l)"

lemma set_live_subset: "set (live C q) \<subseteq> set q"
  by (induction C q rule: live.induct) auto

lemma live_snoc: "C \<subseteq> set q \<Longrightarrow> live C (q @ [x]) = live C q @ [x]"
proof (induction C q rule: live.induct)
  case (1 C)
  then show ?case by simp
next
  case (2 C y q)
  then show ?case by (cases "y \<in> C") (auto simp: subset_insert_iff)
qed

lemma live_insert: "i \<notin> C \<Longrightarrow> live (insert i C) q = remove1 i (live C q)"
proof (induction C q rule: live.induct)
  case (2 C x q)
  show ?case
  proof (cases "x = i")
    case True
    with 2 show ?thesis by simp
  next
    case False
    with 2 show ?thesis by (simp add: insert_Diff_if)
  qed
qed simp

lemma live_distinct_eq: "distinct q \<Longrightarrow> live C q = filter (\<lambda>i. i \<notin> C) q"
proof (induction C q rule: live.induct)
  case (2 C x q)
  show ?case
  proof (cases "x \<in> C")
    case True
    with 2 have "live C (x # q) = filter (\<lambda>i. i \<notin> C - {x}) q" by simp
    also have "\<dots> = filter (\<lambda>i. i \<notin> C) q"
      using "2.prems" by (intro filter_cong) auto
    finally show ?thesis using True by simp
  qed (use 2 in simp)
qed simp

lemma live_drain: "drain q C = (q', C') \<Longrightarrow> live C' q' = live C q"
  by (induction q C rule: drain.induct) (auto split: if_splits)

lemma drain_subset: "drain q C = (q', C') \<Longrightarrow> C \<subseteq> set q \<Longrightarrow> C' \<subseteq> set q'"
  by (induction q C rule: drain.induct) (auto split: if_splits simp: subset_insert_iff)

lemma drain_hd: "drain q C = (q', C') \<Longrightarrow> q' \<noteq> [] \<Longrightarrow> hd q' \<notin> C'"
  by (induction q C rule: drain.induct) (auto split: if_splits)

lemma drain_nil_iff: "drain q C = (q', C') \<Longrightarrow> q' = [] \<longleftrightarrow> live C q = []"
  by (induction q C rule: drain.induct) (auto split: if_splits)

lemma drain_cancelled_anti: "drain q C = (q', C') \<Longrightarrow> C' \<subseteq> C"
  by (induction q C rule: drain.induct) (auto split: if_splits)

lemma drain_queue_subset: "drain q C = (q', C') \<Longrightarrow> set q' \<subseteq> set q"
  by (induction q C rule: drain.induct) (auto split: if_splits)

lemma drain_distinct: "drain q C = (q', C') \<Longrightarrow> distinct q \<Longrightarrow> distinct q'"
  by (induction q C rule: drain.induct) (auto split: if_splits)

text \<open>What draining does to a level, as one bundle.\<close>

lemma drain_cancelled_simps [simp]:
  "lvl_price (drain_cancelled l) = lvl_price l"
  "lvl_volume (drain_cancelled l) = lvl_volume l"
  "live_ids (drain_cancelled l) = live_ids l"
  by (auto simp: drain_cancelled_def live_ids_def split: prod.split dest: live_drain)

lemma level_ok_drain [simp]: "level_ok l \<Longrightarrow> level_ok (drain_cancelled l)"
  by (auto simp: drain_cancelled_def level_ok_def split: prod.split dest: drain_subset)

lemma drain_queue_nil [simp]: "lvl_queue (drain_cancelled l) = [] \<longleftrightarrow> live_ids l = []"
  by (auto simp: drain_cancelled_def live_ids_def split: prod.split dest: drain_nil_iff)

lemma drain_cancelled_subset: "lvl_cancelled (drain_cancelled l) \<subseteq> lvl_cancelled l"
  by (auto simp: drain_cancelled_def split: prod.split dest: drain_cancelled_anti)

lemma drain_cancelled_queue: "set (lvl_queue (drain_cancelled l)) \<subseteq> set (lvl_queue l)"
  by (cases "drain (lvl_queue l) (lvl_cancelled l)")
     (simp add: drain_cancelled_def drain_queue_subset)

lemma drain_queue_cons:
  assumes "lvl_queue (drain_cancelled l) = x # q"
  shows "x \<notin> lvl_cancelled (drain_cancelled l)"
    and "live_ids l = x # live (lvl_cancelled (drain_cancelled l)) q"
proof -
  obtain q' C' where d: "drain (lvl_queue l) (lvl_cancelled l) = (q', C')" by fastforce
  then have q': "q' = x # q" using assms by (simp add: drain_cancelled_def)
  from drain_hd [OF d] q' show x: "x \<notin> lvl_cancelled (drain_cancelled l)"
    by (simp add: drain_cancelled_def d)
  have "live_ids l = live C' q'" using live_drain [OF d] by (simp add: live_ids_def)
  with x q' show "live_ids l = x # live (lvl_cancelled (drain_cancelled l)) q"
    by (simp add: drain_cancelled_def d)
qed

section \<open>The contract of a level\<close>

text \<open>
  A FIFO of ids with lazy deletion. \<open>ids\<close> is the queue a client may rely on, \<open>stale\<close> the ids that
  are marked for deletion: removing an id that is already marked has no effect on the queue, so
  the law of \<open>remove\<close> asks that the id is not stale.
\<close>

locale lazy_fifo =
  fixes ids :: "'l \<Rightarrow> order_id list"
    and ok :: "'l \<Rightarrow> bool"
    and stale :: "'l \<Rightarrow> order_id set"
    and push :: "order_id \<Rightarrow> quantity \<Rightarrow> 'l \<Rightarrow> 'l"
    and remove :: "order_id \<Rightarrow> quantity \<Rightarrow> 'l \<Rightarrow> 'l"
    and pop :: "quantity \<Rightarrow> 'l \<Rightarrow> fault + 'l"
    and front :: "'l \<Rightarrow> fault + order_id \<times> 'l"
  assumes push_ids: "ok l \<Longrightarrow> ids (push i v l) = ids l @ [i]"
    and push_ok: "ok l \<Longrightarrow> ok (push i v l)"
    and push_stale: "stale (push i v l) = stale l"
    and remove_ids: "ok l \<Longrightarrow> i \<notin> stale l \<Longrightarrow> ids (remove i v l) = remove1 i (ids l)"
    and remove_ok: "ok l \<Longrightarrow> i \<in> set (ids l) \<Longrightarrow> ok (remove i v l)"
    and remove_stale: "stale (remove i v l) = insert i (stale l)"
    and pop_empty: "ok l \<Longrightarrow> ids l = [] \<Longrightarrow> pop v l = Inl Empty_queue"
    and pop_cons: "ok l \<Longrightarrow> ids l = x # xs \<Longrightarrow>
      \<exists>l'. pop v l = Inr l' \<and> ids l' = xs \<and> ok l' \<and> stale l' \<subseteq> stale l"
    and front_empty: "ok l \<Longrightarrow> ids l = [] \<Longrightarrow> front l = Inl Empty_queue"
    and front_cons: "ok l \<Longrightarrow> ids l = x # xs \<Longrightarrow>
      \<exists>l'. front l = Inr (x, l') \<and> ids l' = ids l \<and> ok l' \<and> stale l' \<subseteq> stale l \<and> x \<notin> stale l'"
begin

text \<open>Popping the front and pushing it again moves it behind every other id.\<close>

lemma rotate:
  assumes "ok l" and "ids l = x # xs"
  shows "\<exists>l'. pop v l = Inr l' \<and> ids (push x w l') = xs @ [x] \<and> ok (push x w l')"
  using pop_cons [OF assms, of v] by (auto simp: push_ids push_ok)

text \<open>The id that \<open>front\<close> returned can be removed at once, and the rest keep their order.\<close>

lemma front_remove:
  assumes "ok l" and "ids l = x # xs"
  shows "\<exists>l'. front l = Inr (x, l') \<and> ids (remove x v l') = xs \<and> ok (remove x v l')"
  using front_cons [OF assms] assms by (fastforce simp: remove_ids remove_ok)

text \<open>Popping \<open>length vs\<close> times serves exactly the first ids, in arrival order.\<close>

fun serve :: "quantity list \<Rightarrow> 'l \<Rightarrow> fault + order_id list \<times> 'l" where
  "serve [] l = Inr ([], l)"
| "serve (v # vs) l = bind_res (front l) (\<lambda>(x, l1). bind_res (pop v l1)
     (\<lambda>l2. bind_res (serve vs l2) (\<lambda>(xs, l3). Inr (x # xs, l3))))"

lemma serve_fifo:
  "ok l \<Longrightarrow> length vs \<le> length (ids l) \<Longrightarrow>
   \<exists>l'. serve vs l = Inr (take (length vs) (ids l), l') \<and> ids l' = drop (length vs) (ids l) \<and> ok l'"
proof (induction vs arbitrary: l)
  case (Cons v vs)
  then obtain x xs where l: "ids l = x # xs" by (cases "ids l") auto
  from front_cons [OF Cons.prems(1) l] obtain l1
    where l1: "front l = Inr (x, l1)" "ids l1 = x # xs" "ok l1" using l by auto
  from pop_cons [OF l1(3,2), of v] obtain l2
    where l2: "pop v l1 = Inr l2" "ids l2 = xs" "ok l2" by auto
  have "length vs \<le> length (ids l2)" using Cons.prems(2) l l2(2) by simp
  from Cons.IH [OF l2(3) this] show ?case using l l1 l2 by auto
qed simp

end

section \<open>The code's level keeps the contract\<close>

lemma live_push_back: "level_ok l \<Longrightarrow> live_ids (level_push_back i v l) = live_ids l @ [i]"
  by (simp add: level_push_back_def live_ids_def level_ok_def live_snoc)

lemma level_ok_push_back: "level_ok l \<Longrightarrow> level_ok (level_push_back i v l)"
  by (auto simp: level_push_back_def level_ok_def)

lemma live_remove: "i \<notin> lvl_cancelled l \<Longrightarrow> live_ids (level_remove i v l) = remove1 i (live_ids l)"
  by (simp add: level_remove_def live_ids_def live_insert)

lemma live_ids_subset: "set (live_ids l) \<subseteq> set (lvl_queue l)"
  by (simp add: live_ids_def set_live_subset)

lemma level_ok_remove: "level_ok l \<Longrightarrow> i \<in> set (live_ids l) \<Longrightarrow> level_ok (level_remove i v l)"
  using live_ids_subset [of l] by (auto simp: level_remove_def level_ok_def)

lemma level_front_cons:
  assumes "level_ok l" and "live_ids l = x # xs"
  shows "\<exists>q. level_front l = Inr (x, drain_cancelled l) \<and> lvl_queue (drain_cancelled l) = x # q
     \<and> x \<notin> lvl_cancelled (drain_cancelled l) \<and> live (lvl_cancelled (drain_cancelled l)) q = xs"
proof -
  have "lvl_queue (drain_cancelled l) \<noteq> []" using assms(2) by simp
  then obtain y q where q: "lvl_queue (drain_cancelled l) = y # q"
    by (cases "lvl_queue (drain_cancelled l)") auto
  from drain_queue_cons [OF q] assms(2) show ?thesis
    using q by (auto simp: level_front_def)
qed

lemma level_front_nil: "live_ids l = [] \<Longrightarrow> level_front l = Inl Empty_queue"
  by (simp add: level_front_def Let_def drain_queue_nil [THEN iffD2])

lemma level_pop_nil: "live_ids l = [] \<Longrightarrow> level_pop_front v l = Inl Empty_queue"
  by (simp add: level_pop_front_def Let_def drain_queue_nil [THEN iffD2])

lemma level_pop_cons:
  assumes "level_ok l" and "live_ids l = x # xs"
  shows "\<exists>l'. level_pop_front v l = Inr l' \<and> live_ids l' = xs \<and> level_ok l'
     \<and> lvl_cancelled l' \<subseteq> lvl_cancelled l \<and> lvl_price l' = lvl_price l
     \<and> set (lvl_queue l') \<subseteq> set (lvl_queue l)"
proof -
  let ?d = "drain_cancelled l"
  from level_front_cons [OF assms] obtain q
    where q: "lvl_queue ?d = x # q" "x \<notin> lvl_cancelled ?d" "live (lvl_cancelled ?d) q = xs" by auto
  let ?l' = "?d\<lparr> lvl_queue := q, lvl_volume := sat_sub (lvl_volume ?d) v \<rparr>"
  have "level_ok ?d" using assms(1) by simp
  then have "lvl_cancelled ?d \<subseteq> set q" using q(1,2) by (auto simp: level_ok_def)
  moreover have "set q \<subseteq> set (lvl_queue l)"
    using q(1) drain_cancelled_queue [of l] by auto
  ultimately have "live_ids ?l' = xs \<and> level_ok ?l' \<and> lvl_cancelled ?l' \<subseteq> lvl_cancelled l
      \<and> lvl_price ?l' = lvl_price l \<and> set (lvl_queue ?l') \<subseteq> set (lvl_queue l)"
    using q(3) drain_cancelled_subset [of l] by (simp add: live_ids_def level_ok_def)
  then show ?thesis using q(1) by (auto simp: level_pop_front_def)
qed

interpretation lvl: lazy_fifo live_ids level_ok lvl_cancelled level_push_back level_remove
    level_pop_front level_front
proof (unfold_locales, goal_cases)
  case (1 l i v)
  then show ?case by (rule live_push_back)
next
  case (2 l i v)
  then show ?case by (rule level_ok_push_back)
next
  case (3 i v l)
  show ?case by (simp add: level_push_back_def)
next
  case (4 l i v)
  then show ?case by (simp add: live_remove)
next
  case (5 l i v)
  then show ?case by (rule level_ok_remove)
next
  case (6 i v l)
  show ?case by (simp add: level_remove_def)
next
  case (7 l v)
  then show ?case by (simp add: level_pop_nil)
next
  case (8 l x xs v)
  from level_pop_cons [OF this] show ?case by blast
next
  case (9 l)
  then show ?case by (simp add: level_front_nil)
next
  case (10 l x xs)
  from level_front_cons [OF this] show ?case
    using 10 drain_cancelled_subset by auto
qed

lemma level_empty_eq: "level_empty l = (live_ids l = [], drain_cancelled l)"
  by (simp add: level_empty_def)

lemma level_update_frame [simp]:
  "lvl_price (level_push_back i v l) = lvl_price l"
  "lvl_price (level_remove i v l) = lvl_price l"
  "lvl_price (reduce_front_volume v l) = lvl_price l"
  "live_ids (reduce_front_volume v l) = live_ids l"
  "level_ok (reduce_front_volume v l) = level_ok l"
  "lvl_cancelled (level_push_back i v l) = lvl_cancelled l"
  "lvl_cancelled (reduce_front_volume v l) = lvl_cancelled l"
  "lvl_cancelled (level_remove i v l) = insert i (lvl_cancelled l)"
  by (simp_all add: level_push_back_def level_remove_def reduce_front_volume_def live_ids_def
      level_ok_def)

lemma new_level_simps [simp]:
  "live_ids (new_level p) = []" "level_ok (new_level p)" "lvl_price (new_level p) = p"
  "lvl_queue (new_level p) = []" "lvl_cancelled (new_level p) = {}"
  by (simp_all add: new_level_def live_ids_def level_ok_def)

lemma order_ids_live:
  "distinct (lvl_queue l) \<Longrightarrow> level_order_ids l = live_ids l"
  by (simp add: level_order_ids_def live_ids_def live_distinct_eq)

end
