(* ===== verification/Book_Side.thy ===== *)
theory Book_Side
  imports Price_Level
begin

text \<open>
  One side of the book: \<^verbatim>\<open>std::map<Price, PriceLevel, Compare>\<close>, kept as an association list in the
  order of the comparator, so that \<open>begin()\<close> is the head. The two sides differ only in the
  comparator (\<open>std::greater\<close> for bids, \<open>std::less\<close> for asks); the lemmas are proved once in the
  locale \<open>price_order\<close> over a strict total order and interpreted for both.

  The abstract view of a side is \<open>queue_at\<close>: the live FIFO of ids at each price.
\<close>

type_synonym levels = "(price \<times> price_level) list"

section \<open>The ordered map\<close>

fun map_emplace :: "('k \<Rightarrow> 'k \<Rightarrow> bool) \<Rightarrow> 'k \<Rightarrow> 'v \<Rightarrow> ('k \<times> 'v) list \<Rightarrow> ('k \<times> 'v) list" where
  "map_emplace lt k v [] = [(k, v)]"
| "map_emplace lt k v ((k1, v1) # m) =
     (if lt k k1 then (k, v) # (k1, v1) # m
      else if lt k1 k then (k1, v1) # map_emplace lt k v m
      else (k1, v1) # m)"

definition map_put :: "'k \<Rightarrow> 'v \<Rightarrow> ('k \<times> 'v) list \<Rightarrow> ('k \<times> 'v) list" where
  "map_put k v m = map (\<lambda>e. if fst e = k then (k, v) else e) m"

definition map_erase :: "'k \<Rightarrow> ('k \<times> 'v) list \<Rightarrow> ('k \<times> 'v) list" where
  "map_erase k m = filter (\<lambda>e. fst e \<noteq> k) m"

lemma keys_map_put [simp]: "map fst (map_put k v m) = map fst m"
  by (induction m) (auto simp: map_put_def)

lemma map_of_put: "map_of (map_put k v m) = (if k \<in> fst ` set m then (map_of m)(k \<mapsto> v) else map_of m)"
  by (induction m) (auto simp: map_put_def fun_eq_iff)

lemma map_of_erase: "map_of (map_erase k m) = (map_of m)(k := None)"
  by (induction m) (auto simp: map_erase_def fun_eq_iff)

lemma keys_map_erase: "map fst (map_erase k m) = filter (\<lambda>x. x \<noteq> k) (map fst m)"
  by (induction m) (auto simp: map_erase_def)

lemma set_map_put: "e \<in> set (map_put k v m) \<Longrightarrow> e = (k, v) \<or> e \<in> set m"
  by (auto simp: map_put_def)

lemma set_map_erase: "e \<in> set (map_erase k m) \<Longrightarrow> e \<in> set m"
  by (auto simp: map_erase_def)

section \<open>Operations on one side\<close>

text \<open>\<open>emplace\<close> then \<open>push_back\<close>, as both branches of \<open>OrderBook::insert_order\<close> do.\<close>

definition side_insert ::
  "(price \<Rightarrow> price \<Rightarrow> bool) \<Rightarrow> price \<Rightarrow> order_id \<Rightarrow> quantity \<Rightarrow> levels \<Rightarrow> levels" where
  "side_insert lt p i v m = (let m1 = map_emplace lt p (new_level p) m in
     case map_of m1 p of None \<Rightarrow> m1 | Some l \<Rightarrow> map_put p (level_push_back i v l) m1)"

text \<open>\<open>find\<close>, \<open>remove\<close> and \<open>erase\<close> of an empty level, as both branches of \<open>cancel_order\<close> do.\<close>

definition side_cancel :: "price \<Rightarrow> order_id \<Rightarrow> quantity \<Rightarrow> levels \<Rightarrow> levels" where
  "side_cancel p i v m = (case map_of m p of
     None \<Rightarrow> m
   | Some l \<Rightarrow> (case level_empty (level_remove i v l) of
       (e, l1) \<Rightarrow> if e then map_erase p m else map_put p l1 m))"

definition side_reduce :: "price \<Rightarrow> quantity \<Rightarrow> levels \<Rightarrow> levels" where
  "side_reduce p v m = (case map_of m p of
     None \<Rightarrow> m | Some l \<Rightarrow> map_put p (reduce_front_volume v l) m)"

section \<open>Abstract view and invariant\<close>

definition queue_at :: "levels \<Rightarrow> price \<Rightarrow> order_id list" where
  "queue_at m p = (case map_of m p of None \<Rightarrow> [] | Some l \<Rightarrow> live_ids l)"

definition stale_at :: "levels \<Rightarrow> price \<Rightarrow> order_id set" where
  "stale_at m p = (case map_of m p of None \<Rightarrow> {} | Some l \<Rightarrow> lvl_cancelled l)"

definition level_wf :: "price \<Rightarrow> price_level \<Rightarrow> bool" where
  "level_wf p l \<longleftrightarrow> level_ok l \<and> lvl_price l = p \<and> live_ids l \<noteq> [] \<and> distinct (live_ids l)"

definition levels_ok :: "(price \<Rightarrow> price \<Rightarrow> bool) \<Rightarrow> levels \<Rightarrow> bool" where
  "levels_ok lt m \<longleftrightarrow> sorted_wrt lt (map fst m) \<and> (\<forall>e\<in>set m. level_wf (fst e) (snd e))"

lemma levels_okD: "levels_ok lt m \<Longrightarrow> map_of m p = Some l \<Longrightarrow> level_wf p l"
  by (fastforce simp: levels_ok_def dest: map_of_SomeD)

lemma queue_at_None: "p \<notin> fst ` set m \<Longrightarrow> queue_at m p = []"
  unfolding queue_at_def by (simp add: map_of_eq_None_iff [THEN iffD2])

lemma queue_at_nonempty:
  assumes "levels_ok lt m"
  shows "queue_at m p \<noteq> [] \<longleftrightarrow> p \<in> fst ` set m"
proof (cases "map_of m p")
  case None
  then have "p \<notin> fst ` set m" by (simp add: map_of_eq_None_iff)
  then show ?thesis using queue_at_None by blast
next
  case (Some l)
  then have "p \<in> fst ` set m" by (metis map_of_eq_None_iff option.distinct(1))
  with levels_okD [OF assms Some] Some show ?thesis by (simp add: queue_at_def level_wf_def)
qed

locale price_order =
  fixes lt :: "price \<Rightarrow> price \<Rightarrow> bool"
  assumes irrefl: "\<not> lt p p"
    and trans: "lt p q \<Longrightarrow> lt q r \<Longrightarrow> lt p r"
    and total: "lt p q \<or> p = q \<or> lt q p"
begin

lemma sorted_distinct: "sorted_wrt lt ks \<Longrightarrow> distinct ks"
  by (induction ks) (auto simp: irrefl)

lemma keys_emplace [simp]: "fst ` set (map_emplace lt k v m) = insert k (fst ` set m)"
proof (induction m)
  case (Cons e m)
  then show ?case using total [of k "fst e"] by (cases e) auto
qed simp

lemma set_emplace: "set (map_emplace lt k v m) \<subseteq> insert (k, v) (set m)"
proof (induction m)
  case (Cons e m)
  then show ?case by (cases e) auto
qed simp

lemma sorted_emplace:
  "sorted_wrt lt (map fst m) \<Longrightarrow> sorted_wrt lt (map fst (map_emplace lt k v m))"
proof (induction m)
  case (Cons e m)
  then show ?case
    using keys_emplace [of k v m] total [of k "fst e"]
    by (cases e) (auto intro: trans)
qed simp

lemma map_of_emplace:
  "sorted_wrt lt (map fst m) \<Longrightarrow>
   map_of (map_emplace lt k v m) = (if k \<in> fst ` set m then map_of m else (map_of m)(k \<mapsto> v))"
proof (induction m)
  case (Cons e m)
  obtain k1 v1 where e: "e = (k1, v1)" by fastforce
  consider "lt k k1" | "lt k1 k" | "k = k1" using total by blast
  then show ?case
  proof cases
    case 1
    then have "k \<notin> fst ` set (e # m)"
      using Cons.prems e by (auto simp: irrefl dest: trans)
    then show ?thesis using 1 e by (auto simp: fun_eq_iff)
  next
    case 2
    then have "\<not> lt k k1" "k \<noteq> k1" using irrefl trans by blast+
    with 2 Cons e show ?thesis by (auto simp: fun_eq_iff)
  next
    case 3
    then show ?thesis using e by (simp add: irrefl)
  qed
qed simp

lemma levels_ok_put:
  assumes "levels_ok lt m" and "level_wf p l"
  shows "levels_ok lt (map_put p l m)"
proof -
  have "\<forall>e\<in>set (map_put p l m). level_wf (fst e) (snd e)"
    using assms by (auto simp: levels_ok_def dest!: set_map_put)
  then show ?thesis using assms(1) by (simp add: levels_ok_def)
qed

lemma levels_ok_erase:
  "levels_ok lt m \<Longrightarrow> levels_ok lt (map_erase p m)"
  by (auto simp: levels_ok_def keys_map_erase sorted_wrt_filter dest: set_map_erase)

lemma queue_at_put:
  "p \<in> fst ` set m \<Longrightarrow> queue_at (map_put p l m) = (queue_at m)(p := live_ids l)"
  by (rule ext) (simp add: queue_at_def map_of_put)

lemma queue_at_erase: "queue_at (map_erase p m) = (queue_at m)(p := [])"
  by (rule ext) (simp add: queue_at_def map_of_erase)

text \<open>The head of the map is the best price of the side.\<close>

lemma begin_best:
  assumes "levels_ok lt ((p, l) # m)"
  shows "queue_at ((p, l) # m) p = live_ids l" and "level_wf p l"
    and "queue_at ((p, l) # m) q \<noteq> [] \<Longrightarrow> q = p \<or> lt p q"
proof -
  show "queue_at ((p, l) # m) p = live_ids l" by (simp add: queue_at_def)
  show "level_wf p l" using assms by (simp add: levels_ok_def)
  assume "queue_at ((p, l) # m) q \<noteq> []"
  then show "q = p \<or> lt p q"
    using queue_at_nonempty [OF assms, of q] assms by (auto simp: levels_ok_def)
qed

lemma side_insert_found:
  assumes "levels_ok lt m"
  shows "\<exists>l. map_of (map_emplace lt p (new_level p) m) p = Some l \<and> level_ok l \<and> lvl_price l = p
    \<and> live_ids l = queue_at m p \<and> lvl_cancelled l = stale_at m p"
proof (cases "map_of m p")
  case None
  then have "p \<notin> fst ` set m" by (simp add: map_of_eq_None_iff)
  then show ?thesis
    using None assms by (simp add: map_of_emplace levels_ok_def queue_at_def stale_at_def)
next
  case (Some l)
  then have "p \<in> fst ` set m" by (metis map_of_eq_None_iff option.distinct(1))
  then show ?thesis using Some assms levels_okD [OF assms Some]
    by (simp add: map_of_emplace levels_ok_def queue_at_def stale_at_def level_wf_def)
qed

lemma side_insert_wf:
  assumes ok: "levels_ok lt m" and fresh: "i \<notin> set (queue_at m p)"
  shows "levels_ok lt (side_insert lt p i v m)"
    and "queue_at (side_insert lt p i v m) = (queue_at m)(p := queue_at m p @ [i])"
    and "stale_at (side_insert lt p i v m) = stale_at m"
proof -
  let ?m1 = "map_emplace lt p (new_level p) m"
  obtain l where l: "map_of ?m1 p = Some l" "level_ok l" "lvl_price l = p"
    "live_ids l = queue_at m p" "lvl_cancelled l = stale_at m p"
    using side_insert_found [OF ok] by blast
  have dq: "distinct (queue_at m p)"
    using ok levels_okD [OF ok, of p] by (auto simp: queue_at_def level_wf_def split: option.split)
  have eq: "side_insert lt p i v m = map_put p (level_push_back i v l) ?m1"
    using l(1) by (simp add: side_insert_def)
  have wf: "level_wf p (level_push_back i v l)"
    using l fresh dq by (simp add: level_wf_def live_push_back level_ok_push_back)
  have "\<forall>e\<in>set (map_put p (level_push_back i v l) ?m1). level_wf (fst e) (snd e)"
  proof
    fix e assume e: "e \<in> set (map_put p (level_push_back i v l) ?m1)"
    have "e \<in> set m \<or> fst e = p \<and> snd e = level_push_back i v l"
      using e set_emplace [of p "new_level p" m] by (auto simp: map_put_def split: if_splits)
    then show "level_wf (fst e) (snd e)" using wf ok by (auto simp: levels_ok_def)
  qed
  then show "levels_ok lt (side_insert lt p i v m)"
    using ok by (simp add: eq levels_ok_def sorted_emplace)
  have q: "map_of (map_put p (level_push_back i v l) ?m1) = (map_of m)(p \<mapsto> level_push_back i v l)"
    using ok by (auto simp: map_of_put map_of_emplace levels_ok_def)
  show "queue_at (side_insert lt p i v m) = (queue_at m)(p := queue_at m p @ [i])"
    by (rule ext) (simp add: eq queue_at_def q live_push_back l)
  show "stale_at (side_insert lt p i v m) = stale_at m"
  proof
    fix x
    show "stale_at (side_insert lt p i v m) x = stale_at m x"
      using l(5) by (simp add: eq stale_at_def q)
  qed
qed

lemma side_cancel_wf:
  assumes ok: "levels_ok lt m" and mem: "i \<in> set (queue_at m p)" and st: "i \<notin> stale_at m p"
  shows "levels_ok lt (side_cancel p i v m)"
    and "queue_at (side_cancel p i v m) = (queue_at m)(p := remove1 i (queue_at m p))"
proof -
  obtain l where l: "map_of m p = Some l" "queue_at m p = live_ids l" "stale_at m p = lvl_cancelled l"
    using mem by (cases "map_of m p") (auto simp: queue_at_def stale_at_def)
  let ?r = "level_remove i v l"
  have wl: "level_wf p l" using levels_okD [OF ok l(1)] .
  have live: "live_ids ?r = remove1 i (live_ids l)" using st l(3) by (simp add: live_remove)
  have okr: "level_ok ?r" using wl mem l(2) by (simp add: level_wf_def level_ok_remove)
  have pk: "p \<in> fst ` set m" using l(1) by (metis map_of_eq_None_iff option.distinct(1))
  have eq: "side_cancel p i v m =
      (if live_ids ?r = [] then map_erase p m else map_put p (drain_cancelled ?r) m)"
    using l(1) by (simp add: side_cancel_def level_empty_eq)
  have "live_ids ?r \<noteq> [] \<Longrightarrow> level_wf p (drain_cancelled ?r)"
    using wl okr live by (simp add: level_wf_def distinct_remove1)
  then show "levels_ok lt (side_cancel p i v m)"
    using ok by (simp add: eq levels_ok_put levels_ok_erase)
  show "queue_at (side_cancel p i v m) = (queue_at m)(p := remove1 i (queue_at m p))"
    using live l(2) by (simp add: eq queue_at_erase queue_at_put [OF pk])
qed

lemma side_reduce_wf:
  assumes "levels_ok lt m"
  shows "levels_ok lt (side_reduce p v m)" and "queue_at (side_reduce p v m) = queue_at m"
    and "stale_at (side_reduce p v m) = stale_at m"
proof -
  show "levels_ok lt (side_reduce p v m)"
    using assms levels_okD [OF assms, of p]
    by (auto simp: side_reduce_def level_wf_def intro!: levels_ok_put split: option.split)
  show "queue_at (side_reduce p v m) = queue_at m"
    by (rule ext) (auto simp: side_reduce_def queue_at_def map_of_put split: option.split)
  show "stale_at (side_reduce p v m) = stale_at m"
    by (rule ext) (auto simp: side_reduce_def stale_at_def map_of_put reduce_front_volume_def
        split: option.split)
qed

end

interpretation ask_side: price_order "(<)"
  by unfold_locales auto

interpretation bid_side: price_order "(>)"
  by unfold_locales auto

end
