(* ===== verification/Order_Book.thy ===== *)
theory Order_Book
  imports Book_Side
begin

text \<open>
  The order book (\<^verbatim>\<open>src/book/order_book.hpp\<close>, \<^verbatim>\<open>order_book.cpp\<close>): two sides of price levels, the
  map from order ids to orders (\<open>id_map_\<close>, a finite map), and the last trade price. A pointer
  \<open>PriceLevel*\<close> is modelled as the side and the price that select the level, a pointer \<open>Order*\<close> as
  the id that selects the entry of \<open>id_map_\<close>; writing through a pointer is \<open>set_level\<close> and
  \<open>set_order\<close>.

  The invariant \<open>book_ok\<close> says that the live queues and the id map describe the same orders; every
  operation keeps it under the conditions stated with it.
\<close>

record order_book =
  bids :: levels
  asks :: levels
  id_map :: "(order_id, order) fmap"
  last_trade_price :: price

definition empty_book :: order_book where
  "empty_book = \<lparr> bids = [], asks = [], id_map = fmempty, last_trade_price = 0 \<rparr>"

fun better :: "side \<Rightarrow> price \<Rightarrow> price \<Rightarrow> bool" where
  "better Buy p q \<longleftrightarrow> q < p"
| "better Sell p q \<longleftrightarrow> p < q"

fun side_levels :: "side \<Rightarrow> order_book \<Rightarrow> levels" where
  "side_levels Buy b = bids b"
| "side_levels Sell b = asks b"

fun set_side :: "side \<Rightarrow> levels \<Rightarrow> order_book \<Rightarrow> order_book" where
  "set_side Buy m b = b\<lparr> bids := m \<rparr>"
| "set_side Sell m b = b\<lparr> asks := m \<rparr>"

section \<open>Operations\<close>

definition insert_order :: "order \<Rightarrow> order_book \<Rightarrow> order_book" where
  "insert_order o1 b = (let b1 = b\<lparr> id_map := fmupd (ord_id o1) o1 (id_map b) \<rparr> in
     if is_buy o1
     then b1\<lparr> bids := side_insert (>) (ord_price o1) (ord_id o1) (visible_qty o1) (bids b1) \<rparr>
     else b1\<lparr> asks := side_insert (<) (ord_price o1) (ord_id o1) (visible_qty o1) (asks b1) \<rparr>)"

definition cancel_order :: "order_id \<Rightarrow> order_book \<Rightarrow> bool \<times> order_book" where
  "cancel_order i b = (case fmlookup (id_map b) i of
     None \<Rightarrow> (False, b)
   | Some o1 \<Rightarrow>
       let b1 = (if is_buy o1
                 then b\<lparr> bids := side_cancel (ord_price o1) i (visible_qty o1) (bids b) \<rparr>
                 else b\<lparr> asks := side_cancel (ord_price o1) i (visible_qty o1) (asks b) \<rparr>)
       in (True, b1\<lparr> id_map := fmdrop i (id_map b1) \<rparr>))"

definition find_order :: "order_id \<Rightarrow> order_book \<Rightarrow> order option" where
  "find_order i b = fmlookup (id_map b) i"

definition has_order :: "order_id \<Rightarrow> order_book \<Rightarrow> bool" where
  "has_order i b \<longleftrightarrow> fmlookup (id_map b) i \<noteq> None"

definition set_order :: "order_id \<Rightarrow> order \<Rightarrow> order_book \<Rightarrow> order_book" where
  "set_order i o1 b = b\<lparr> id_map := fmupd i o1 (id_map b) \<rparr>"

definition best_bid :: "order_book \<Rightarrow> price option" where
  "best_bid b = (case bids b of [] \<Rightarrow> None | (p, _) # _ \<Rightarrow> Some p)"

definition best_ask :: "order_book \<Rightarrow> price option" where
  "best_ask b = (case asks b of [] \<Rightarrow> None | (p, _) # _ \<Rightarrow> Some p)"

text \<open>\<open>(bid + ask) / 2\<close> truncates towards zero; the sum may leave the range of \<open>int64_t\<close>.\<close>

definition mid_price :: "order_book \<Rightarrow> fault + price option" where
  "mid_price b = (case (best_bid b, best_ask b) of
     (Some bb, Some ba) \<Rightarrow>
       (if int64_ok (bb + ba) then Inr (Some ((bb + ba) sdiv 2)) else Inl Signed_overflow)
   | _ \<Rightarrow> Inr None)"

definition spread :: "order_book \<Rightarrow> fault + price option" where
  "spread b = (case (best_bid b, best_ask b) of
     (Some bb, Some ba) \<Rightarrow>
       (if int64_ok (ba - bb) then Inr (Some (ba - bb)) else Inl Signed_overflow)
   | _ \<Rightarrow> Inr None)"

definition best_bid_level :: "order_book \<Rightarrow> (price \<times> price_level) option" where
  "best_bid_level b = (case bids b of [] \<Rightarrow> None | e # _ \<Rightarrow> Some e)"

definition best_ask_level :: "order_book \<Rightarrow> (price \<times> price_level) option" where
  "best_ask_level b = (case asks b of [] \<Rightarrow> None | e # _ \<Rightarrow> Some e)"

definition remove_best_ask_level :: "order_book \<Rightarrow> order_book" where
  "remove_best_ask_level b = (case asks b of [] \<Rightarrow> b | _ # m \<Rightarrow> b\<lparr> asks := m \<rparr>)"

definition remove_best_bid_level :: "order_book \<Rightarrow> order_book" where
  "remove_best_bid_level b = (case bids b of [] \<Rightarrow> b | _ # m \<Rightarrow> b\<lparr> bids := m \<rparr>)"

definition update_order_quantity :: "order_id \<Rightarrow> quantity \<Rightarrow> order_book \<Rightarrow> order_book" where
  "update_order_quantity i q b = (case fmlookup (id_map b) i of
     None \<Rightarrow> b | Some o1 \<Rightarrow> set_order i (o1\<lparr> ord_quantity := q \<rparr>) b)"

definition reduce_level_volume :: "side \<Rightarrow> price \<Rightarrow> quantity \<Rightarrow> order_book \<Rightarrow> order_book" where
  "reduce_level_volume sd p v b = set_side sd (side_reduce p v (side_levels sd b)) b"

definition get_level :: "side \<Rightarrow> price \<Rightarrow> order_book \<Rightarrow> price_level option" where
  "get_level sd p b = map_of (side_levels sd b) p"

definition set_level :: "side \<Rightarrow> price \<Rightarrow> price_level \<Rightarrow> order_book \<Rightarrow> order_book" where
  "set_level sd p l b = set_side sd (map_put p l (side_levels sd b)) b"

definition order_count :: "order_book \<Rightarrow> nat" where
  "order_count b = fcard (fmdom (id_map b))"

definition bid_level_count :: "order_book \<Rightarrow> nat" where
  "bid_level_count b = length (bids b)"

definition ask_level_count :: "order_book \<Rightarrow> nat" where
  "ask_level_count b = length (asks b)"

section \<open>Side-generic form of the operations\<close>

lemma is_buy_side: "is_buy o1 \<longleftrightarrow> ord_side o1 = Buy"
  by (simp add: is_buy_def)

lemma better_Buy: "better Buy = (>)" and better_Sell: "better Sell = (<)"
  by (auto simp: fun_eq_iff)

lemma side_levels_set_side [simp]:
  "side_levels sd (set_side sd' m b) = (if sd = sd' then m else side_levels sd b)"
  "id_map (set_side sd m b) = id_map b"
  "last_trade_price (set_side sd m b) = last_trade_price b"
  by (cases sd; cases sd'; simp) (cases sd; simp)+

lemma side_levels_other [simp]:
  "side_levels sd (b\<lparr> id_map := m \<rparr>) = side_levels sd b"
  "side_levels sd (b\<lparr> last_trade_price := p \<rparr>) = side_levels sd b"
  by (cases sd; simp)+

lemma insert_order_sd:
  "insert_order o1 b = set_side (ord_side o1)
     (side_insert (better (ord_side o1)) (ord_price o1) (ord_id o1) (visible_qty o1)
        (side_levels (ord_side o1) b))
     (b\<lparr> id_map := fmupd (ord_id o1) o1 (id_map b) \<rparr>)"
  by (cases "ord_side o1") (simp_all add: insert_order_def is_buy_side better_Buy better_Sell)

lemma cancel_order_sd:
  "fmlookup (id_map b) i = Some o1 \<Longrightarrow> cancel_order i b = (True,
     set_side (ord_side o1)
       (side_cancel (ord_price o1) i (visible_qty o1) (side_levels (ord_side o1) b))
       (b\<lparr> id_map := fmdrop i (id_map b) \<rparr>))"
  by (cases "ord_side o1") (simp_all add: cancel_order_def is_buy_side)

lemma sd_insert:
  assumes "levels_ok (better sd) m" and "i \<notin> set (queue_at m p)"
  shows "levels_ok (better sd) (side_insert (better sd) p i v m)"
    and "queue_at (side_insert (better sd) p i v m) = (queue_at m)(p := queue_at m p @ [i])"
    and "stale_at (side_insert (better sd) p i v m) = stale_at m"
  using assms by (cases sd; simp add: better_Buy better_Sell bid_side.side_insert_wf
      ask_side.side_insert_wf)+

lemma sd_cancel:
  assumes "levels_ok (better sd) m" and "i \<in> set (queue_at m p)" and "i \<notin> stale_at m p"
  shows "levels_ok (better sd) (side_cancel p i v m)"
    and "queue_at (side_cancel p i v m) = (queue_at m)(p := remove1 i (queue_at m p))"
  using assms by (cases sd; simp add: better_Buy better_Sell bid_side.side_cancel_wf
      ask_side.side_cancel_wf)+

lemma sd_reduce:
  assumes "levels_ok (better sd) m"
  shows "levels_ok (better sd) (side_reduce p v m)" and "queue_at (side_reduce p v m) = queue_at m"
    and "stale_at (side_reduce p v m) = stale_at m"
  using assms by (cases sd; simp add: better_Buy better_Sell bid_side.side_reduce_wf
      ask_side.side_reduce_wf)+

lemma sd_put:
  assumes "levels_ok (better sd) m" and "level_wf p l" and "p \<in> fst ` set m"
  shows "levels_ok (better sd) (map_put p l m)"
    and "queue_at (map_put p l m) = (queue_at m)(p := live_ids l)"
  using assms by (cases sd; simp add: better_Buy better_Sell bid_side.levels_ok_put
      ask_side.levels_ok_put bid_side.queue_at_put ask_side.queue_at_put)+

lemma sd_best:
  assumes "levels_ok (better sd) ((p, l) # m)" and "queue_at ((p, l) # m) q \<noteq> []"
  shows "q = p \<or> better sd p q"
  using assms bid_side.begin_best(3) [of p l m q] ask_side.begin_best(3) [of p l m q]
  by (cases sd) (simp_all add: better_Buy better_Sell)

section \<open>The invariant of the book\<close>

definition queue_of :: "order_book \<Rightarrow> side \<Rightarrow> price \<Rightarrow> order_id list" where
  "queue_of b sd p = queue_at (side_levels sd b) p"

definition stale_of :: "order_book \<Rightarrow> side \<Rightarrow> price \<Rightarrow> order_id set" where
  "stale_of b sd p = stale_at (side_levels sd b) p"

text \<open>
  Each side is sorted by its comparator, has no empty level and no id twice in a live queue; each
  order is stored under its own id; and the live queue at a price of a side holds exactly the
  orders of the id map with this side and price.
\<close>

definition book_ok :: "order_book \<Rightarrow> bool" where
  "book_ok b \<longleftrightarrow> (\<forall>sd. levels_ok (better sd) (side_levels sd b)) \<and>
     (\<forall>i o1. fmlookup (id_map b) i = Some o1 \<longrightarrow> ord_id o1 = i) \<and>
     (\<forall>sd p i. i \<in> set (queue_of b sd p) \<longleftrightarrow>
        (\<exists>o1. fmlookup (id_map b) i = Some o1 \<and> ord_side o1 = sd \<and> ord_price o1 = p))"

lemma book_okI:
  assumes "\<And>sd. levels_ok (better sd) (side_levels sd b)"
    and "\<And>i o1. fmlookup (id_map b) i = Some o1 \<Longrightarrow> ord_id o1 = i"
    and "\<And>sd p i. i \<in> set (queue_of b sd p) \<longleftrightarrow>
        (\<exists>o1. fmlookup (id_map b) i = Some o1 \<and> ord_side o1 = sd \<and> ord_price o1 = p)"
  shows "book_ok b"
  using assms by (simp add: book_ok_def)

lemma book_ok_levels: "book_ok b \<Longrightarrow> levels_ok (better sd) (side_levels sd b)"
  and book_ok_id: "book_ok b \<Longrightarrow> fmlookup (id_map b) i = Some o1 \<Longrightarrow> ord_id o1 = i"
  and book_ok_queue: "book_ok b \<Longrightarrow> i \<in> set (queue_of b sd p) \<longleftrightarrow>
        (\<exists>o1. fmlookup (id_map b) i = Some o1 \<and> ord_side o1 = sd \<and> ord_price o1 = p)"
  by (simp_all add: book_ok_def)

lemma book_ok_queued:
  "book_ok b \<Longrightarrow> fmlookup (id_map b) i = Some o1 \<Longrightarrow> i \<in> set (queue_of b (ord_side o1) (ord_price o1))"
  by (simp add: book_ok_queue)

lemma book_ok_unqueued: "book_ok b \<Longrightarrow> fmlookup (id_map b) i = None \<Longrightarrow> i \<notin> set (queue_of b sd p)"
  by (simp add: book_ok_queue)

lemma queue_distinct: "book_ok b \<Longrightarrow> distinct (queue_of b sd p)"
  using book_ok_levels [of b sd] levels_okD [of "better sd" "side_levels sd b" p]
  by (auto simp: queue_of_def queue_at_def level_wf_def split: option.split)

lemma queue_of_other [simp]:
  "queue_of (b\<lparr> last_trade_price := lp \<rparr>) = queue_of b"
  "queue_of (b\<lparr> id_map := m \<rparr>) = queue_of b"
  "queue_of (set_order i o1 b) = queue_of b"
  "stale_of (b\<lparr> last_trade_price := lp \<rparr>) = stale_of b"
  "stale_of (b\<lparr> id_map := m \<rparr>) = stale_of b"
  "stale_of (set_order i o1 b) = stale_of b"
  by (simp_all add: queue_of_def stale_of_def fun_eq_iff set_order_def)

lemma set_order_simps [simp]:
  "id_map (set_order i o1 b) = fmupd i o1 (id_map b)"
  "side_levels sd (set_order i o1 b) = side_levels sd b"
  "last_trade_price (set_order i o1 b) = last_trade_price b"
  by (simp_all add: set_order_def)

lemma book_ok_last_trade [simp]: "book_ok (b\<lparr> last_trade_price := lp \<rparr>) = book_ok b"
  by (simp add: book_ok_def)

lemma book_ok_empty: "book_ok empty_book"
proof (rule book_okI)
  fix sd
  show "levels_ok (better sd) (side_levels sd empty_book)"
    by (cases sd) (simp_all add: empty_book_def levels_ok_def)
next
  fix sd p i
  show "i \<in> set (queue_of empty_book sd p) \<longleftrightarrow>
     (\<exists>o1. fmlookup (id_map empty_book) i = Some o1 \<and> ord_side o1 = sd \<and> ord_price o1 = p)"
    by (cases sd) (simp_all add: empty_book_def queue_of_def queue_at_def)
qed (simp add: empty_book_def)

section \<open>Every operation keeps the invariant\<close>

lemma insert_order_fields [simp]:
  "id_map (insert_order o1 b) = fmupd (ord_id o1) o1 (id_map b)"
  "last_trade_price (insert_order o1 b) = last_trade_price b"
  by (simp_all add: insert_order_sd)

lemma insert_order_queue:
  assumes "book_ok b" and "fmlookup (id_map b) (ord_id o1) = None"
  shows "queue_of (insert_order o1 b) sd p =
     (if sd = ord_side o1 \<and> p = ord_price o1 then queue_of b sd p @ [ord_id o1]
      else queue_of b sd p)"
    and "stale_of (insert_order o1 b) = stale_of b"
proof -
  have lv: "levels_ok (better (ord_side o1)) (side_levels (ord_side o1) b)"
    using assms(1) by (rule book_ok_levels)
  have nq: "ord_id o1 \<notin> set (queue_at (side_levels (ord_side o1) b) (ord_price o1))"
    using book_ok_unqueued [OF assms] by (simp add: queue_of_def)
  show "queue_of (insert_order o1 b) sd p =
     (if sd = ord_side o1 \<and> p = ord_price o1 then queue_of b sd p @ [ord_id o1]
      else queue_of b sd p)"
    using sd_insert(2) [OF lv nq] by (simp add: queue_of_def insert_order_sd)
  show "stale_of (insert_order o1 b) = stale_of b"
    using sd_insert(3) [OF lv nq] by (auto simp: stale_of_def insert_order_sd fun_eq_iff)
qed

lemma insert_order_ok:
  assumes "book_ok b" and "fmlookup (id_map b) (ord_id o1) = None"
  shows "book_ok (insert_order o1 b)"
proof (rule book_okI)
  fix sd
  have "ord_id o1 \<notin> set (queue_at (side_levels (ord_side o1) b) (ord_price o1))"
    using book_ok_unqueued [OF assms] by (simp add: queue_of_def)
  then show "levels_ok (better sd) (side_levels sd (insert_order o1 b))"
    using book_ok_levels [OF assms(1), of sd] by (auto simp: insert_order_sd sd_insert)
next
  fix i o2
  assume "fmlookup (id_map (insert_order o1 b)) i = Some o2"
  then show "ord_id o2 = i" using book_ok_id [OF assms(1)] by (auto split: if_splits)
next
  fix sd p i
  show "i \<in> set (queue_of (insert_order o1 b) sd p) \<longleftrightarrow>
     (\<exists>o2. fmlookup (id_map (insert_order o1 b)) i = Some o2 \<and> ord_side o2 = sd \<and> ord_price o2 = p)"
    using book_ok_queue [OF assms(1)] book_ok_unqueued [OF assms] assms(2)
    by (auto simp: insert_order_queue [OF assms])
qed

lemma cancel_order_None: "fmlookup (id_map b) i = None \<Longrightarrow> cancel_order i b = (False, b)"
  by (simp add: cancel_order_def)

lemma cancel_order_fields:
  "fmlookup (id_map b) i = Some o1 \<Longrightarrow> id_map (snd (cancel_order i b)) = fmdrop i (id_map b)"
  "last_trade_price (snd (cancel_order i b)) = last_trade_price b"
  by (simp add: cancel_order_sd)
     (cases "fmlookup (id_map b) i"; simp add: cancel_order_sd cancel_order_None)

lemma cancel_order_queue:
  assumes "book_ok b" and "fmlookup (id_map b) i = Some o1"
    and "i \<notin> stale_of b (ord_side o1) (ord_price o1)"
  shows "queue_of (snd (cancel_order i b)) sd p =
     (if sd = ord_side o1 \<and> p = ord_price o1 then remove1 i (queue_of b sd p) else queue_of b sd p)"
proof -
  have lv: "levels_ok (better (ord_side o1)) (side_levels (ord_side o1) b)"
    using assms(1) by (rule book_ok_levels)
  have q: "i \<in> set (queue_at (side_levels (ord_side o1) b) (ord_price o1))"
    using book_ok_queued [OF assms(1,2)] by (simp add: queue_of_def)
  have st: "i \<notin> stale_at (side_levels (ord_side o1) b) (ord_price o1)"
    using assms(3) by (simp add: stale_of_def)
  from sd_cancel(2) [OF lv q st] show ?thesis
    by (simp add: queue_of_def cancel_order_sd [OF assms(2)])
qed

lemma cancel_order_ok:
  assumes "book_ok b" and "fmlookup (id_map b) i = Some o1"
    and "i \<notin> stale_of b (ord_side o1) (ord_price o1)"
  shows "book_ok (snd (cancel_order i b))"
proof (rule book_okI)
  fix sd
  have "i \<in> set (queue_at (side_levels (ord_side o1) b) (ord_price o1))"
    using book_ok_queued [OF assms(1,2)] by (simp add: queue_of_def)
  then show "levels_ok (better sd) (side_levels sd (snd (cancel_order i b)))"
    using book_ok_levels [OF assms(1), of sd] assms(3)
    by (auto simp: cancel_order_sd [OF assms(2)] sd_cancel stale_of_def)
next
  fix j o2
  assume "fmlookup (id_map (snd (cancel_order i b))) j = Some o2"
  then show "ord_id o2 = j" using book_ok_id [OF assms(1)]
    by (auto simp: cancel_order_fields(1) [OF assms(2)] split: if_splits)
next
  fix sd p j
  show "j \<in> set (queue_of (snd (cancel_order i b)) sd p) \<longleftrightarrow>
     (\<exists>o2. fmlookup (id_map (snd (cancel_order i b))) j = Some o2 \<and> ord_side o2 = sd \<and> ord_price o2 = p)"
    using book_ok_queue [OF assms(1)] queue_distinct [OF assms(1)] assms(2)
    by (auto simp: cancel_order_queue [OF assms] cancel_order_fields(1) [OF assms(2)])
qed

lemma set_order_ok:
  assumes "book_ok b" and "fmlookup (id_map b) i = Some o1"
    and "ord_id o2 = ord_id o1" "ord_side o2 = ord_side o1" "ord_price o2 = ord_price o1"
  shows "book_ok (set_order i o2 b)"
  using assms by (auto simp: book_ok_def)

lemma update_order_quantity_ok: "book_ok b \<Longrightarrow> book_ok (update_order_quantity i q b)"
  by (auto simp: update_order_quantity_def intro: set_order_ok split: option.split)

lemma reduce_level_volume_fields [simp]:
  "id_map (reduce_level_volume sd p v b) = id_map b"
  "last_trade_price (reduce_level_volume sd p v b) = last_trade_price b"
  by (simp_all add: reduce_level_volume_def)

lemma reduce_level_volume_queue:
  "book_ok b \<Longrightarrow> queue_of (reduce_level_volume sd p v b) = queue_of b"
  "book_ok b \<Longrightarrow> stale_of (reduce_level_volume sd p v b) = stale_of b"
  using book_ok_levels [of b sd]
  by (auto simp: fun_eq_iff queue_of_def stale_of_def reduce_level_volume_def sd_reduce)

lemma reduce_level_volume_ok:
  assumes "book_ok b"
  shows "book_ok (reduce_level_volume sd p v b)"
proof (rule book_okI)
  fix sd'
  show "levels_ok (better sd') (side_levels sd' (reduce_level_volume sd p v b))"
    using book_ok_levels [OF assms] by (simp add: reduce_level_volume_def sd_reduce)
qed (simp_all add: book_ok_id [OF assms] book_ok_queue [OF assms] reduce_level_volume_queue assms)

lemma set_level_fields [simp]:
  "id_map (set_level sd p l b) = id_map b"
  "last_trade_price (set_level sd p l b) = last_trade_price b"
  by (simp_all add: set_level_def)

lemma set_level_queue:
  assumes "book_ok b" and "get_level sd p b = Some l" and "level_wf p l'"
  shows "queue_of (set_level sd p l' b) sd' p' =
     (if sd' = sd \<and> p' = p then live_ids l' else queue_of b sd' p')"
proof -
  have "p \<in> fst ` set (side_levels sd b)"
    using assms(2) by (metis get_level_def map_of_eq_None_iff option.distinct(1))
  then show ?thesis
    using sd_put(2) [OF book_ok_levels [OF assms(1)] assms(3)]
    by (simp add: queue_of_def set_level_def)
qed

lemma set_level_ok:
  assumes "book_ok b" and "get_level sd p b = Some l" and "level_wf p l'"
    and "set (live_ids l') = set (live_ids l)"
  shows "book_ok (set_level sd p l' b)"
proof (rule book_okI)
  fix sd'
  have "p \<in> fst ` set (side_levels sd b)"
    using assms(2) by (metis get_level_def map_of_eq_None_iff option.distinct(1))
  then show "levels_ok (better sd') (side_levels sd' (set_level sd p l' b))"
    using sd_put(1) [OF book_ok_levels [OF assms(1)] assms(3)] book_ok_levels [OF assms(1)]
    by (simp add: set_level_def)
next
  fix i o1
  assume "fmlookup (id_map (set_level sd p l' b)) i = Some o1"
  then show "ord_id o1 = i" using book_ok_id [OF assms(1)] by simp
next
  fix sd' p' i
  have "queue_of b sd p = live_ids l"
    using assms(2) by (simp add: queue_of_def queue_at_def get_level_def)
  then have "set (queue_of (set_level sd p l' b) sd' p') = set (queue_of b sd' p')"
    by (simp add: set_level_queue [OF assms(1-3)] assms(4))
  then show "i \<in> set (queue_of (set_level sd p l' b) sd' p') \<longleftrightarrow>
     (\<exists>o1. fmlookup (id_map (set_level sd p l' b)) i = Some o1 \<and> ord_side o1 = sd' \<and> ord_price o1 = p')"
    using book_ok_queue [OF assms(1)] by simp
qed

end
