(* ===== verification/Matching_Engine.thy ===== *)
theory Matching_Engine
  imports Order_Book
begin

text \<open>
  The matching engine (\<^verbatim>\<open>src/engine/matching_engine.hpp\<close>, \<^verbatim>\<open>matching_engine.cpp\<close>): its state, the
  matching loops, fills, iceberg replenishment, stop orders, and the four event handlers.

  The loops and the recursion through triggered stops are bounded by a fuel argument: one unit per
  iteration of a match loop and per call of \<open>process_new_order\<close>. Running out is the fault
  \<open>Out_of_fuel\<close>; \<^verbatim>\<open>Engine_Safety\<close> proves that \<open>event_fuel\<close> is enough in every well-formed state.

  A \<open>passive\<close> order is a reference into \<open>id_map_\<close>: it is passed as the id that selects the entry.
\<close>

record engine =
  book :: order_book
  config :: engine_config
  sequence :: "64 word"
  pending_stops :: "order list"

definition new_engine :: "engine_config \<Rightarrow> engine" where
  "new_engine cfg = \<lparr> book = empty_book, config = cfg, sequence = 0, pending_stops = [] \<rparr>"

fun opp :: "side \<Rightarrow> side" where
  "opp Buy = Sell"
| "opp Sell = Buy"

section \<open>Fills\<close>

definition fill_trade :: "order \<Rightarrow> order \<Rightarrow> quantity \<Rightarrow> trade" where
  "fill_trade aggr passive q = \<lparr> tr_aggressor_id = ord_id aggr, tr_passive_id = ord_id passive,
     tr_price = ord_price passive, tr_quantity = q, tr_timestamp = 0,
     tr_aggressor_side = (if is_buy aggr then AggBuy else AggSell) \<rparr>"

definition push_trade :: "trade \<Rightarrow> match_result \<Rightarrow> match_result" where
  "push_trade t r = r\<lparr> trades := trades r @ [t] \<rparr>"

definition push_rejection :: "rejection \<Rightarrow> match_result \<Rightarrow> match_result" where
  "push_rejection rj r = r\<lparr> rejections := rejections r @ [rj] \<rparr>"

definition push_report :: "execution_report \<Rightarrow> match_result \<Rightarrow> match_result" where
  "push_report rp r = r\<lparr> reports := reports r @ [rp] \<rparr>"

definition replenish_iceberg :: "order_id \<Rightarrow> quantity \<Rightarrow> order_book \<Rightarrow> fault + order_book" where
  "replenish_iceberg i filled b = (case find_order i b of
     None \<Rightarrow> Inl Null_order
   | Some passive \<Rightarrow> (case get_level (ord_side passive) (ord_price passive) b of
       None \<Rightarrow> Inr b
     | Some l \<Rightarrow> bind_res (level_pop_front filled l) (\<lambda>l1.
         let new_peak = min (ord_peak_qty passive) (ord_reserve_qty passive);
             passive1 = passive\<lparr> ord_reserve_qty := ord_reserve_qty passive - new_peak,
                                 ord_quantity := new_peak \<rparr>;
             b1 = set_order i passive1 b;
             b2 = set_level (ord_side passive) (ord_price passive)
                    (level_push_back (ord_id passive) new_peak l1) b1
         in Inr (update_order_quantity (ord_id passive) new_peak b2))))"

text \<open>The three-way branch of \<open>execute_fill\<close> after both quantities have been reduced.\<close>

definition settle_passive :: "order_id \<Rightarrow> quantity \<Rightarrow> order_book \<Rightarrow> fault + order_book" where
  "settle_passive i q b = (case find_order i b of
     None \<Rightarrow> Inl Null_order
   | Some passive \<Rightarrow>
       if ord_quantity passive = 0 \<and> is_iceberg passive \<and> 0 < ord_reserve_qty passive
       then replenish_iceberg i q b
       else if ord_quantity passive = 0
       then Inr (snd (cancel_order (ord_id passive)
              (set_order i (passive\<lparr> ord_status := Filled \<rparr>) b)))
       else let b1 = (case get_level (ord_side passive) (ord_price passive) b of
                  None \<Rightarrow> b
                | Some l \<Rightarrow> set_level (ord_side passive) (ord_price passive)
                    (reduce_front_volume q l) b)
            in Inr (update_order_quantity (ord_id passive) (ord_quantity passive) b1))"

definition apply_fill ::
  "order \<Rightarrow> order_id \<Rightarrow> quantity \<Rightarrow> engine \<Rightarrow> fault + order \<times> trade \<times> engine" where
  "apply_fill aggr i q s = (case find_order i (book s) of
     None \<Rightarrow> Inl Null_order
   | Some passive \<Rightarrow>
       let aggr1 = aggr\<lparr> ord_quantity := ord_quantity aggr - q \<rparr>;
           passive1 = passive\<lparr> ord_quantity := ord_quantity passive - q \<rparr>;
           b1 = (set_order i passive1 (book s))\<lparr> last_trade_price := ord_price passive \<rparr>
       in bind_res (settle_passive i q b1) (\<lambda>b2.
            Inr (aggr1, fill_trade aggr passive q, s\<lparr> book := b2 \<rparr>)))"

section \<open>Choosing the passive order\<close>

definition passive_level :: "order \<Rightarrow> order_book \<Rightarrow> (price \<times> price_level) option" where
  "passive_level aggr b = (if is_buy aggr then best_ask_level b else best_bid_level b)"

definition beyond_limit :: "order \<Rightarrow> price_level \<Rightarrow> bool" where
  "beyond_limit aggr l \<longleftrightarrow>
     is_buy aggr \<and> ord_price aggr < lvl_price l \<or> is_sell aggr \<and> lvl_price l < ord_price aggr"

text \<open>\<open>front\<close> drains the level through its mutable members, so the level is written back.\<close>

definition passive_front ::
  "order \<Rightarrow> price \<times> price_level \<Rightarrow> engine \<Rightarrow> fault + order_id \<times> order \<times> engine" where
  "passive_front aggr e s = bind_res (level_front (snd e)) (\<lambda>(i, l1).
     let s1 = s\<lparr> book := set_level (opp (ord_side aggr)) (fst e) l1 (book s) \<rparr>
     in case find_order i (book s1) of
          None \<Rightarrow> Inl Null_order
        | Some passive \<Rightarrow> Inr (i, passive, s1))"

section \<open>Stop orders\<close>

definition stop_triggered :: "price \<Rightarrow> order \<Rightarrow> bool" where
  "stop_triggered lp st \<longleftrightarrow>
     is_buy st \<and> ord_stop_price st \<le> lp \<or> is_sell st \<and> lp \<le> ord_stop_price st"

definition immediately_triggered :: "order \<Rightarrow> engine \<Rightarrow> bool" where
  "immediately_triggered st s \<longleftrightarrow>
     is_buy st \<and> last_trade_price (book s) \<noteq> 0 \<and> ord_stop_price st \<le> last_trade_price (book s) \<or>
     is_sell st \<and> last_trade_price (book s) \<noteq> 0 \<and> last_trade_price (book s) \<le> ord_stop_price st"

definition convert_stop :: "order \<Rightarrow> order" where
  "convert_stop st = (let st1 = st\<lparr> ord_status := Triggered \<rparr> in
     if ord_type st = Stop then st1\<lparr> ord_type := Market, ord_price := 0 \<rparr>
     else st1\<lparr> ord_type := Limit \<rparr>)"

definition split_iceberg :: "order \<Rightarrow> order" where
  "split_iceberg o1 = o1\<lparr> ord_reserve_qty := ord_quantity o1 - ord_peak_qty o1,
     ord_quantity := ord_peak_qty o1 \<rparr>"

definition market_exhausted :: "order \<Rightarrow> rejection" where
  "market_exhausted aggr = default_rejection\<lparr> rej_order_id := ord_id aggr,
     rej_reason := MarketExhausted \<rparr>"

definition rest_order :: "order \<Rightarrow> engine \<Rightarrow> engine" where
  "rest_order o1 s = s\<lparr> book := insert_order o1 (book s) \<rparr>"

section \<open>Matching\<close>

function (sequential)
      match_limit :: "nat \<Rightarrow> order \<Rightarrow> match_result \<Rightarrow> engine \<Rightarrow> fault + order \<times> match_result \<times> engine"
  and match_market :: "nat \<Rightarrow> order \<Rightarrow> match_result \<Rightarrow> engine \<Rightarrow> fault + order \<times> match_result \<times> engine"
  and execute_fill :: "nat \<Rightarrow> order \<Rightarrow> order_id \<Rightarrow> quantity \<Rightarrow> match_result \<Rightarrow> engine \<Rightarrow>
        fault + order \<times> match_result \<times> engine"
  and evaluate_stop_triggers :: "nat \<Rightarrow> match_result \<Rightarrow> engine \<Rightarrow> fault + match_result \<times> engine"
  and stop_loop :: "nat \<Rightarrow> price \<Rightarrow> order list \<Rightarrow> match_result \<Rightarrow> engine \<Rightarrow> fault + match_result \<times> engine"
  and process_triggered_stop :: "nat \<Rightarrow> order \<Rightarrow> match_result \<Rightarrow> engine \<Rightarrow> fault + match_result \<times> engine"
  and process_new_order :: "nat \<Rightarrow> order \<Rightarrow> engine \<Rightarrow> fault + match_result \<times> engine"
where
  "match_limit 0 aggr r s = Inl Out_of_fuel"
| "match_limit (Suc n) aggr r s =
     (if ord_quantity aggr = 0 then Inr (aggr\<lparr> ord_status := Filled \<rparr>, r, s)
      else case passive_level aggr (book s) of
        None \<Rightarrow> Inr (aggr, r, s)
      | Some e \<Rightarrow>
          if beyond_limit aggr (snd e) then Inr (aggr, r, s)
          else bind_res (passive_front aggr e s) (\<lambda>(i, passive, s1).
                 bind_res (execute_fill n aggr i (min (ord_quantity aggr) (ord_quantity passive)) r s1)
                   (\<lambda>(aggr1, r1, s2). match_limit n aggr1 r1 s2)))"
| "match_market 0 aggr r s = Inl Out_of_fuel"
| "match_market (Suc n) aggr r s =
     (if ord_quantity aggr = 0 then Inr (aggr\<lparr> ord_status := Filled \<rparr>, r, s)
      else case passive_level aggr (book s) of
        None \<Rightarrow> Inr (aggr\<lparr> ord_status := Cancelled \<rparr>, push_rejection (market_exhausted aggr) r, s)
      | Some e \<Rightarrow> bind_res (passive_front aggr e s) (\<lambda>(i, passive, s1).
          bind_res (execute_fill n aggr i (min (ord_quantity aggr) (ord_quantity passive)) r s1)
            (\<lambda>(aggr1, r1, s2). match_market n aggr1 r1 s2)))"
| "execute_fill n aggr i q r s =
     bind_res (apply_fill aggr i q s) (\<lambda>(aggr1, t, s1).
       bind_res (evaluate_stop_triggers n (push_trade t r) s1) (\<lambda>(r1, s2). Inr (aggr1, r1, s2)))"
| "evaluate_stop_triggers n r s =
     (if pending_stops s = [] then Inr (r, s)
      else if last_trade_price (book s) = 0 then Inr (r, s)
      else stop_loop n (last_trade_price (book s)) (pending_stops s) r (s\<lparr> pending_stops := [] \<rparr>))"
| "stop_loop n lp [] r s = Inr (r, s)"
| "stop_loop n lp (st # working) r s =
     (if stop_triggered lp st
      then bind_res (process_triggered_stop n st r s) (\<lambda>(r1, s1). stop_loop n lp working r1 s1)
      else stop_loop n lp working r (s\<lparr> pending_stops := pending_stops s @ [st] \<rparr>))"
| "process_triggered_stop n st r s =
     bind_res (process_new_order n (convert_stop st) s) (\<lambda>(sub, s1). Inr (append_result r sub, s1))"
| "process_new_order 0 o1 s = Inl Out_of_fuel"
| "process_new_order (Suc n) o1 s =
     (let ord = o1\<lparr> ord_status := Resting \<rparr> in
      case ord_type ord of
        Limit \<Rightarrow> bind_res (match_limit n ord empty_result s) (\<lambda>(aggr, r, s1).
          Inr (r, if 0 < ord_quantity aggr then rest_order aggr s1 else s1))
      | Market \<Rightarrow> bind_res (match_market n ord empty_result s) (\<lambda>(aggr, r, s1). Inr (r, s1))
      | Iceberg \<Rightarrow> bind_res (match_limit n (split_iceberg ord) empty_result s) (\<lambda>(aggr, r, s1).
          Inr (r, if 0 < ord_quantity aggr \<or> 0 < ord_reserve_qty aggr
                  then rest_order aggr s1 else s1))
      | _ \<Rightarrow>
          if immediately_triggered ord s then process_triggered_stop n ord empty_result s
          else Inr (empty_result, s\<lparr> pending_stops := pending_stops s @ [ord] \<rparr>))"
  by pat_completeness auto

termination
  by size_change

section \<open>Cancel, modify, replace\<close>

text \<open>The scan of \<open>pending_stops_\<close>: the first stop with the id, and the list without it.\<close>

fun take_stop :: "order_id \<Rightarrow> order list \<Rightarrow> (order \<times> order list) option" where
  "take_stop i [] = None"
| "take_stop i (st # stops) =
     (if ord_id st = i then Some (st, stops)
      else map_option (\<lambda>(x, rest). (x, st # rest)) (take_stop i stops))"

definition cancel_report :: "cancel_order_event \<Rightarrow> quantity \<Rightarrow> execution_report" where
  "cancel_report e q = default_report\<lparr> rep_order_id := cancel_order_id e, rep_status := Cancelled,
     rep_remaining_qty := q, rep_timestamp := cancel_timestamp e \<rparr>"

definition cancel_rejection :: "cancel_order_event \<Rightarrow> reject_reason \<Rightarrow> rejection" where
  "cancel_rejection e why = default_rejection\<lparr> rej_order_id := cancel_order_id e,
     rej_reason := why, rej_timestamp := cancel_timestamp e \<rparr>"

definition process_cancel :: "cancel_order_event \<Rightarrow> engine \<Rightarrow> match_result \<times> engine" where
  "process_cancel e s = (case take_stop (cancel_order_id e) (pending_stops s) of
     Some (st, rest) \<Rightarrow>
       (push_report (cancel_report e (ord_quantity st)) empty_result, s\<lparr> pending_stops := rest \<rparr>)
   | None \<Rightarrow> (case find_order (cancel_order_id e) (book s) of
       None \<Rightarrow> (push_rejection (cancel_rejection e OrderNotFound) empty_result, s)
     | Some o1 \<Rightarrow>
         if \<not> is_resting o1
         then (push_rejection (cancel_rejection e OrderNotCancellable) empty_result, s)
         else (push_report (cancel_report e (ord_quantity o1)) empty_result,
               s\<lparr> book := snd (cancel_order (cancel_order_id e) (book s)) \<rparr>)))"

definition modify_rejection :: "order_id \<Rightarrow> reject_reason \<Rightarrow> rejection" where
  "modify_rejection i why = default_rejection\<lparr> rej_order_id := i, rej_reason := why \<rparr>"

definition modified_order :: "modify_order_event \<Rightarrow> order \<Rightarrow> order" where
  "modified_order e o1 = (let
     o2 = (if mod_new_price e \<noteq> 0 then o1\<lparr> ord_price := mod_new_price e \<rparr> else o1);
     o3 = (if mod_new_quantity e \<noteq> 0 then o2\<lparr> ord_quantity := mod_new_quantity e \<rparr> else o2)
     in o3\<lparr> ord_timestamp := mod_timestamp e \<rparr>)"

definition process_modify :: "modify_order_event \<Rightarrow> engine \<Rightarrow> match_result \<times> engine" where
  "process_modify e s = (case find_order (mod_order_id e) (book s) of
     None \<Rightarrow> (push_rejection (modify_rejection (mod_order_id e) OrderNotFound) empty_result, s)
   | Some o1 \<Rightarrow>
       if \<not> is_resting o1
       then (push_rejection (modify_rejection (mod_order_id e) OrderNotCancellable) empty_result, s)
       else
         let price_changed = (mod_new_price e \<noteq> 0 \<and> mod_new_price e \<noteq> ord_price o1);
             qty_increased = (mod_new_quantity e \<noteq> 0 \<and> ord_quantity o1 < mod_new_quantity e)
         in if price_changed \<or> qty_increased
            then (empty_result, s\<lparr> book := insert_order (modified_order e o1)
                    (snd (cancel_order (mod_order_id e) (book s))) \<rparr>)
            else if mod_new_quantity e \<noteq> 0 \<and> mod_new_quantity e < ord_quantity o1
            then (empty_result, s\<lparr> book := reduce_level_volume (ord_side o1) (ord_price o1)
                    (ord_quantity o1 - mod_new_quantity e)
                    (update_order_quantity (mod_order_id e) (mod_new_quantity e) (book s)) \<rparr>)
            else (empty_result, s))"

definition process_replace :: "nat \<Rightarrow> replace_order_event \<Rightarrow> engine \<Rightarrow> fault + match_result \<times> engine" where
  "process_replace n e s =
     (if \<not> has_order (old_order_id e) (book s)
      then Inr (push_rejection (modify_rejection (old_order_id e) OrderNotFound) empty_result, s)
      else bind_res (process_new_order n (new_order e)
             (s\<lparr> book := snd (cancel_order (old_order_id e) (book s)) \<rparr>))
           (\<lambda>(sub, s1). Inr (append_result empty_result sub, s1)))"

section \<open>Submission\<close>

definition submit_fuel :: "nat \<Rightarrow> order_event \<Rightarrow> engine \<Rightarrow> fault + match_result \<times> engine" where
  "submit_fuel n ev s = (let s1 = s\<lparr> sequence := sequence s + 1 \<rparr> in
     case ev of
       NewOrderEvent o1 \<Rightarrow> process_new_order n o1 s1
     | CancelOrderEvent e \<Rightarrow> Inr (process_cancel e s1)
     | ModifyOrderEvent e \<Rightarrow> Inr (process_modify e s1)
     | ReplaceOrderEvent e \<Rightarrow> process_replace n e s1)"

text \<open>
  The work an order can cause: its open quantity, the hidden reserve counted twice (it is moved to
  the visible quantity before it can fill), and one for its removal. A pending stop counts two more
  for its conversion. Every fill lowers the sum, so it bounds the number of loop iterations.
\<close>

definition order_weight :: "order \<Rightarrow> nat" where
  "order_weight o1 = unat (ord_quantity o1) + 2 * unat (ord_reserve_qty o1) + 1"

definition engine_weight :: "engine \<Rightarrow> nat" where
  "engine_weight s = fmsum order_weight (id_map (book s))
     + sum_list (map (\<lambda>st. order_weight st + 2) (pending_stops s))"

definition prepare_order :: "order \<Rightarrow> order" where
  "prepare_order o1 = (let ord = o1\<lparr> ord_status := Resting \<rparr> in
     if ord_type ord = Iceberg then split_iceberg ord else ord)"

definition event_fuel :: "order_event \<Rightarrow> engine \<Rightarrow> nat" where
  "event_fuel ev s = (case ev of
     NewOrderEvent o1 \<Rightarrow> order_weight (prepare_order o1) + engine_weight s + 5
   | ReplaceOrderEvent e \<Rightarrow> order_weight (prepare_order (new_order e)) + engine_weight s + 5
   | _ \<Rightarrow> 0)"

definition submit :: "order_event \<Rightarrow> engine \<Rightarrow> fault + match_result \<times> engine" where
  "submit ev s = submit_fuel (event_fuel ev s) ev s"

text \<open>A run of the engine over a list of events: the results in order, or the first fault.\<close>

fun run_events :: "order_event list \<Rightarrow> engine \<Rightarrow> fault + match_result list \<times> engine" where
  "run_events [] s = Inr ([], s)"
| "run_events (ev # evs) s = bind_res (submit ev s) (\<lambda>(r, s1).
     bind_res (run_events evs s1) (\<lambda>(rs, s2). Inr (r # rs, s2)))"

end
