(* ===== verification/Engine_Steps.thy ===== *)
theory Engine_Steps
  imports Matching_Engine
begin

text \<open>
  The engine as a state machine. A configuration is the stack of orders in flight (the aggressor
  being matched on top, below it the stops that still wait for their turn in \<open>evaluate_stop_triggers\<close>
  and the aggressors whose fills triggered them), the engine and the result so far. One step of
  \<open>mstep\<close> is one fill, one stop moved, or the end of one order. The guards record why the code left
  its loop, so an invariant of \<open>mstep\<close> may use them.

  The main result: every run of the recursive functions of \<^verbatim>\<open>Matching_Engine\<close> is a run of \<open>mstep\<close>, so a
  property of single steps is a property of the engine. The locale \<open>step_invariant\<close> packages this.
\<close>

type_synonym mconfig = "order list \<times> engine \<times> match_result"

definition match_done :: "order \<Rightarrow> order_book \<Rightarrow> bool" where
  "match_done a b \<longleftrightarrow> ord_quantity a = 0 \<or>
     (case passive_level a b of None \<Rightarrow> True | Some e \<Rightarrow> beyond_limit a (snd e))"

definition must_rest :: "order \<Rightarrow> bool" where
  "must_rest a \<longleftrightarrow> 0 < ord_quantity a \<or> ord_type a = Iceberg \<and> 0 < ord_reserve_qty a"

definition is_stop :: "order \<Rightarrow> bool" where
  "is_stop o1 \<longleftrightarrow> ord_type o1 = Stop \<or> ord_type o1 = StopLimit"

definition stops_only :: "engine \<Rightarrow> bool" where
  "stops_only s \<longleftrightarrow> (\<forall>st\<in>set (pending_stops s). is_stop st)"

inductive mstep :: "mconfig \<Rightarrow> mconfig \<Rightarrow> bool" where
  fill: "ord_quantity a \<noteq> 0 \<Longrightarrow> passive_level a (book s) = Some e \<Longrightarrow>
     ord_type a = Market \<or> \<not> beyond_limit a (snd e) \<Longrightarrow>
     passive_front a e s = Inr (i, p, s1) \<Longrightarrow>
     apply_fill a i (min (ord_quantity a) (ord_quantity p)) s1 = Inr (a1, t, s2) \<Longrightarrow>
     mstep (a # X, s, r) (a1 # X, s2, push_trade t r)"
| wake: "pending_stops s \<noteq> [] \<Longrightarrow>
     mstep (X, s, r) (pending_stops s @ X, s\<lparr> pending_stops := [] \<rparr>, r)"
| sleep: "is_stop st \<Longrightarrow> mstep (st # X, s, r) (X, s\<lparr> pending_stops := pending_stops s @ [st] \<rparr>, r)"
| convert: "is_stop st \<Longrightarrow> mstep (st # X, s, r) (prepare_order (convert_stop st) # X, s, r)"
| mark: "mstep (a # X, s, r) (a\<lparr> ord_status := z \<rparr> # X, s, r)"
| rest: "ord_type a = Limit \<or> ord_type a = Iceberg \<Longrightarrow> match_done a (book s) \<Longrightarrow> must_rest a \<Longrightarrow>
     mstep (a # X, s, r) (X, rest_order a s, r)"
| finish: "ord_quantity a = 0 \<Longrightarrow> \<not> must_rest a \<Longrightarrow> mstep (a # X, s, r) (X, s, r)"
| exhaust: "ord_type a = Market \<Longrightarrow> ord_quantity a \<noteq> 0 \<Longrightarrow> passive_level a (book s) = None \<Longrightarrow>
     mstep (a # X, s, r) (X, s, push_rejection (market_exhausted a) r)"

inductive_cases mstep_emptyE: "mstep ([], s, r) c"

abbreviation msteps :: "mconfig \<Rightarrow> mconfig \<Rightarrow> bool" where
  "msteps \<equiv> mstep\<^sup>*\<^sup>*"

lemmas engine_simps =
  match_limit.simps match_market.simps execute_fill.simps evaluate_stop_triggers.simps
  stop_loop.simps process_triggered_stop.simps process_new_order.simps

lemmas engine_induct =
  match_limit_match_market_execute_fill_evaluate_stop_triggers_stop_loop_process_triggered_stop_process_new_order.induct

declare engine_simps [simp del]

lemma push_append:
  "push_trade t (append_result r q) = append_result r (push_trade t q)"
  "push_rejection rj (append_result r q) = append_result r (push_rejection rj q)"
  by (simp_all add: push_trade_def push_rejection_def append_result_def)

section \<open>Fields that matching never changes\<close>

lemma apply_fill_aggr:
  "apply_fill a i q s = Inr (a1, t, s1) \<Longrightarrow> a1 = a\<lparr> ord_quantity := ord_quantity a - q \<rparr>"
  by (auto simp: apply_fill_def Let_def bind_res_Inr_iff split: option.splits)

lemma apply_fill_frame: "apply_fill a i q s = Inr (a1, t, s1) \<Longrightarrow>
    pending_stops s1 = pending_stops s \<and> config s1 = config s \<and> sequence s1 = sequence s"
  by (auto simp: apply_fill_def Let_def bind_res_Inr_iff split: option.splits)

lemma passive_front_frame: "passive_front a e s = Inr (i, p, s1) \<Longrightarrow>
    pending_stops s1 = pending_stops s \<and> config s1 = config s \<and> sequence s1 = sequence s"
  by (auto simp: passive_front_def Let_def bind_res_Inr_iff split: option.splits)

lemma match_static:
  "match_limit n a r s = Inr (a', r', s') \<Longrightarrow>
     ord_id a' = ord_id a \<and> ord_type a' = ord_type a \<and> ord_side a' = ord_side a \<and>
     ord_price a' = ord_price a \<and> ord_reserve_qty a' = ord_reserve_qty a \<and>
     ord_peak_qty a' = ord_peak_qty a"
proof (induction n arbitrary: a r s)
  case 0
  then show ?case by (simp add: engine_simps)
next
  case (Suc n)
  from Suc.prems show ?case
    by (fastforce simp: match_limit.simps(2) execute_fill.simps bind_res_Inr_iff
        split: if_splits option.splits dest!: apply_fill_aggr Suc.IH)
qed

lemma mstep_stops_only:
  assumes "mstep (X, s, r) (X1, s1, r1)" and "stops_only s"
  shows "stops_only s1"
  using assms(1)
proof (cases "(X, s, r)" "(X1, s1, r1)" rule: mstep.cases)
  case (fill a e i p s2 a1 t X)
  then show ?thesis using assms(2) passive_front_frame [OF fill(7)] apply_fill_frame [OF fill(8)]
    by (simp add: stops_only_def)
qed (use assms(2) in \<open>auto simp: stops_only_def rest_order_def\<close>)

lemma msteps_stops_only:
  assumes "msteps (X, s, r) (X1, s1, r1)" and "stops_only s"
  shows "stops_only s1"
proof -
  have "msteps c d \<Longrightarrow> stops_only (fst (snd c)) \<Longrightarrow> stops_only (fst (snd d))" for c d
  proof (induction rule: rtranclp_induct)
    case (step y z)
    then show ?case
      using mstep_stops_only [of "fst y" "fst (snd y)" "snd (snd y)" "fst z" "fst (snd z)" "snd (snd z)"] by simp
  qed simp
  from this [OF assms(1)] assms(2) show ?thesis by simp
qed

section \<open>The recursive functions are runs of the step relation\<close>

text \<open>One iteration of each loop, as an elimination rule for runs that return.\<close>

lemma match_limit_SucE:
  assumes "match_limit (Suc n) a r s = Inr (a', r', s')"
  obtains (zero) "ord_quantity a = 0" "a' = a\<lparr> ord_status := Filled \<rparr>" "r' = r" "s' = s"
  | (stop) "ord_quantity a \<noteq> 0" "match_done a (book s)" "a' = a" "r' = r" "s' = s"
  | (iterate) e i p s1 a1 r1 s2 where "ord_quantity a \<noteq> 0" "passive_level a (book s) = Some e"
      "\<not> beyond_limit a (snd e)" "passive_front a e s = Inr (i, p, s1)"
      "execute_fill n a i (min (ord_quantity a) (ord_quantity p)) r s1 = Inr (a1, r1, s2)"
      "match_limit n a1 r1 s2 = Inr (a', r', s')"
proof (cases "ord_quantity a = 0")
  case True
  with assms have "a' = a\<lparr> ord_status := Filled \<rparr>" "r' = r" "s' = s"
    by (simp_all add: match_limit.simps)
  with True show ?thesis by (rule zero)
next
  case nz: False
  show ?thesis
  proof (cases "match_done a (book s)")
    case True
    with nz assms have "a' = a" "r' = r" "s' = s"
      by (auto simp: match_limit.simps match_done_def split: option.splits)
    with nz True show ?thesis by (rule stop)
  next
    case False
    with nz obtain e where e: "passive_level a (book s) = Some e" and nb: "\<not> beyond_limit a (snd e)"
      by (auto simp: match_done_def split: option.splits)
    with nz assms obtain i p s1 a1 r1 s2 where "passive_front a e s = Inr (i, p, s1)"
      "execute_fill n a i (min (ord_quantity a) (ord_quantity p)) r s1 = Inr (a1, r1, s2)"
      "match_limit n a1 r1 s2 = Inr (a', r', s')"
      by (auto simp: match_limit.simps bind_res_Inr_iff)
    then show ?thesis by (rule iterate [OF nz e nb])
  qed
qed

lemma match_market_SucE:
  assumes "match_market (Suc n) a r s = Inr (a', r', s')"
  obtains (zero) "ord_quantity a = 0" "a' = a\<lparr> ord_status := Filled \<rparr>" "r' = r" "s' = s"
  | (empty) "ord_quantity a \<noteq> 0" "passive_level a (book s) = None"
      "a' = a\<lparr> ord_status := Cancelled \<rparr>" "r' = push_rejection (market_exhausted a) r" "s' = s"
  | (iterate) e i p s1 a1 r1 s2 where "ord_quantity a \<noteq> 0" "passive_level a (book s) = Some e"
      "passive_front a e s = Inr (i, p, s1)"
      "execute_fill n a i (min (ord_quantity a) (ord_quantity p)) r s1 = Inr (a1, r1, s2)"
      "match_market n a1 r1 s2 = Inr (a', r', s')"
proof (cases "ord_quantity a = 0")
  case True
  with assms have "a' = a\<lparr> ord_status := Filled \<rparr>" "r' = r" "s' = s"
    by (simp_all add: match_market.simps)
  with True show ?thesis by (rule zero)
next
  case nz: False
  show ?thesis
  proof (cases "passive_level a (book s)")
    case None
    with nz assms have "a' = a\<lparr> ord_status := Cancelled \<rparr>"
        "r' = push_rejection (market_exhausted a) r" "s' = s"
      by (simp_all add: match_market.simps)
    with nz None show ?thesis by (rule empty)
  next
    case e: (Some e)
    with nz assms obtain i p s1 a1 r1 s2 where "passive_front a e s = Inr (i, p, s1)"
      "execute_fill n a i (min (ord_quantity a) (ord_quantity p)) r s1 = Inr (a1, r1, s2)"
      "match_market n a1 r1 s2 = Inr (a', r', s')"
      by (auto simp: match_market.simps bind_res_Inr_iff)
    then show ?thesis by (rule iterate [OF nz e])
  qed
qed

lemma msteps_first: "mstep c d \<Longrightarrow> msteps d f \<Longrightarrow> msteps c f"
  by (rule converse_rtranclp_into_rtranclp)

text \<open>A fill of the loop, then whatever the stops do, is a run of \<open>mstep\<close>.\<close>

lemma fill_then_stops:
  assumes "ord_quantity a \<noteq> 0" and "passive_level a (book s) = Some e"
    and "ord_type a = Market \<or> \<not> beyond_limit a (snd e)"
    and "passive_front a e s = Inr (i, p, s1)"
    and "apply_fill a i (min (ord_quantity a) (ord_quantity p)) s1 = Inr (a1, t, s2)"
    and "msteps (a1 # X, s2, append_result r0 (push_trade t r)) c"
  shows "msteps (a # X, s, append_result r0 r) c"
  using mstep.fill [OF assms(1-5), of X "append_result r0 r"] assms(6)
  by (simp add: push_append msteps_first)

lemma apply_fill_type: "apply_fill a i q s = Inr (a1, t, s1) \<Longrightarrow> ord_type a1 = ord_type a"
  using apply_fill_aggr by force

lemma prepare_order_simps:
  "ord_type (prepare_order o1) = ord_type o1"
  "ord_type o1 \<noteq> Iceberg \<Longrightarrow> prepare_order o1 = o1\<lparr> ord_status := Resting \<rparr>"
  "ord_type o1 = Iceberg \<Longrightarrow> prepare_order o1 = split_iceberg (o1\<lparr> ord_status := Resting \<rparr>)"
  by (simp_all add: prepare_order_def Let_def split_iceberg_def)

lemma end_of_limit:
  assumes "match_done a (book s)" and "ord_type a = Limit \<or> ord_type a = Iceberg"
    and "\<not> must_rest a \<Longrightarrow> s' = s" and "must_rest a \<Longrightarrow> s' = rest_order a s"
  shows "mstep (a # X, s, r) (X, s', r)"
proof (cases "must_rest a")
  case True
  then show ?thesis using assms mstep.rest [of a s X r] by simp
next
  case False
  then have "ord_quantity a = 0" by (simp add: must_rest_def word_gt_0_unat unat_pos_iff)
  then show ?thesis using assms(3) False mstep.finish [of a X s r] by simp
qed

lemma process_new_eqs:
  "ord_type o1 = Limit \<Longrightarrow> process_new_order (Suc n) o1 s =
     bind_res (match_limit n (prepare_order o1) empty_result s) (\<lambda>(a, r, s1).
       Inr (r, if 0 < ord_quantity a then rest_order a s1 else s1))"
  "ord_type o1 = Iceberg \<Longrightarrow> process_new_order (Suc n) o1 s =
     bind_res (match_limit n (prepare_order o1) empty_result s) (\<lambda>(a, r, s1).
       Inr (r, if 0 < ord_quantity a \<or> 0 < ord_reserve_qty a then rest_order a s1 else s1))"
  "ord_type o1 = Market \<Longrightarrow> process_new_order (Suc n) o1 s =
     bind_res (match_market n (prepare_order o1) empty_result s) (\<lambda>(a, r, s1). Inr (r, s1))"
  by (simp_all add: process_new_order.simps prepare_order_simps)

lemma process_new_limit:
  assumes run: "process_new_order (Suc n) o1 s = Inr (r', s')"
    and ty: "ord_type o1 = Limit \<or> ord_type o1 = Iceberg"
  shows "\<exists>a s1. match_limit n (prepare_order o1) empty_result s = Inr (a, r', s1) \<and>
     s' = (if must_rest a then rest_order a s1 else s1)"
proof -
  from ty run obtain x where x: "match_limit n (prepare_order o1) empty_result s = Inr x"
    by (auto simp: process_new_eqs bind_res_Inr_iff)
  obtain a r1 s1 where eq: "x = (a, r1, s1)" by (cases x)
  have "ord_type a = ord_type o1"
    using match_static [OF x [unfolded eq]] by (simp add: prepare_order_simps)
  with ty run x eq show ?thesis
    by (auto simp: process_new_eqs must_rest_def)
qed

lemma engine_runs_msteps:
  "\<forall>X r0 a' r' s'. match_limit n a r s = Inr (a', r', s') \<longrightarrow> stops_only s \<longrightarrow> ord_type a \<noteq> Market \<longrightarrow>
     msteps (a # X, s, append_result r0 r) (a' # X, s', append_result r0 r') \<and> match_done a' (book s')"
  "\<forall>X r0 a' r' s'. match_market n a r s = Inr (a', r', s') \<longrightarrow> stops_only s \<longrightarrow> ord_type a = Market \<longrightarrow>
     msteps (a # X, s, append_result r0 r) (X, s', append_result r0 r')"
  "\<forall>X r0 a' r' s'. execute_fill n a i q r s = Inr (a', r', s') \<longrightarrow> stops_only s \<longrightarrow>
     (\<exists>t s1. apply_fill a i q s = Inr (a', t, s1) \<and>
       msteps (X, s1, append_result r0 (push_trade t r)) (X, s', append_result r0 r'))"
  "\<forall>X r0 r' s'. evaluate_stop_triggers n r s = Inr (r', s') \<longrightarrow> stops_only s \<longrightarrow>
     msteps (X, s, append_result r0 r) (X, s', append_result r0 r')"
  "\<forall>X r0 r' s'. stop_loop n lp ws r s = Inr (r', s') \<longrightarrow> stops_only s \<longrightarrow> (\<forall>st\<in>set ws. is_stop st) \<longrightarrow>
     msteps (ws @ X, s, append_result r0 r) (X, s', append_result r0 r')"
  "\<forall>X r0 r' s'. process_triggered_stop n st r s = Inr (r', s') \<longrightarrow> stops_only s \<longrightarrow> is_stop st \<longrightarrow>
     msteps (st # X, s, append_result r0 r) (X, s', append_result r0 r')"
  "\<forall>X r0 r' s'. process_new_order n o1 s = Inr (r', s') \<longrightarrow> stops_only s \<longrightarrow>
     msteps (prepare_order o1 # X, s, r0) (X, s', append_result r0 r')"
proof (induction n a r s and n a r s and n a i q r s and n r s and n lp ws r s and n st r s
    and n o1 s rule: engine_induct)
  case (1 aggr r s)
  then show ?case by (simp add: engine_simps)
next
  case (2 n aggr r s)
  show ?case
  proof (intro allI impI)
    fix X r0 a' r' s'
    assume run: "match_limit (Suc n) aggr r s = Inr (a', r', s')" and so: "stops_only s"
      and ty: "ord_type aggr \<noteq> Market"
    from run show "msteps (aggr # X, s, append_result r0 r) (a' # X, s', append_result r0 r')
        \<and> match_done a' (book s')"
    proof (cases rule: match_limit_SucE)
      case zero
      then show ?thesis using mstep.mark by (auto simp: match_done_def)
    next
      case (iterate e i p s1 a1 r1 s2)
      then have so1: "stops_only s1" using so passive_front_frame by (fastforce simp: stops_only_def)
      obtain t s3 where f: "apply_fill aggr i (min (ord_quantity aggr) (ord_quantity p)) s1 = Inr (a1, t, s3)"
        and m: "msteps (a1 # X, s3, append_result r0 (push_trade t r)) (a1 # X, s2, append_result r0 r1)"
        using "2.IH"(1) [OF iterate(1-4) refl refl] iterate(5) so1 by blast
      have so2: "stops_only s2"
        using msteps_stops_only [OF m] so1 apply_fill_frame [OF f] by (simp add: stops_only_def)
      have "msteps (a1 # X, s2, append_result r0 r1) (a' # X, s', append_result r0 r')
          \<and> match_done a' (book s')"
        using "2.IH"(2) [OF iterate(1-4) refl refl iterate(5) refl refl] iterate(6)
          apply_fill_type [OF f] ty so2 by simp
      then show ?thesis
        using fill_then_stops [OF iterate(1,2) _ iterate(4) f rtranclp_trans [OF m]] iterate(3) by blast
    qed simp
  qed
next
  case (3 aggr r s)
  then show ?case by (simp add: engine_simps)
next
  case (4 n aggr r s)
  show ?case
  proof (intro allI impI)
    fix X r0 a' r' s'
    assume run: "match_market (Suc n) aggr r s = Inr (a', r', s')" and so: "stops_only s"
      and ty: "ord_type aggr = Market"
    from run show "msteps (aggr # X, s, append_result r0 r) (X, s', append_result r0 r')"
    proof (cases rule: match_market_SucE)
      case zero
      then have "\<not> must_rest aggr" using ty by (simp add: must_rest_def)
      with zero show ?thesis using mstep.finish by blast
    next
      case empty
      then show ?thesis
        using mstep.exhaust [OF ty empty(1,2), of X "append_result r0 r"] by (simp add: push_append r_into_rtranclp)
    next
      case (iterate e i p s1 a1 r1 s2)
      then have so1: "stops_only s1" using so passive_front_frame by (fastforce simp: stops_only_def)
      obtain t s3 where f: "apply_fill aggr i (min (ord_quantity aggr) (ord_quantity p)) s1 = Inr (a1, t, s3)"
        and m: "msteps (a1 # X, s3, append_result r0 (push_trade t r)) (a1 # X, s2, append_result r0 r1)"
        using "4.IH"(1) [OF iterate(1-3) refl refl] iterate(4) so1 by blast
      have so2: "stops_only s2"
        using msteps_stops_only [OF m] so1 apply_fill_frame [OF f] by (simp add: stops_only_def)
      have "msteps (a1 # X, s2, append_result r0 r1) (X, s', append_result r0 r')"
        using "4.IH"(2) [OF iterate(1-3) refl refl iterate(4) refl refl] iterate(5)
          apply_fill_type [OF f] ty so2 by simp
      then show ?thesis
        using fill_then_stops [OF iterate(1,2) _ iterate(3) f rtranclp_trans [OF m]] ty by blast
    qed
  qed
next
  case (5 n aggr i q r s)
  show ?case
  proof (intro allI impI)
    fix X r0 a' r' s'
    assume run: "execute_fill n aggr i q r s = Inr (a', r', s')" and so: "stops_only s"
    then obtain t s1 where f: "apply_fill aggr i q s = Inr (a', t, s1)"
      and ev: "evaluate_stop_triggers n (push_trade t r) s1 = Inr (r', s')"
      by (auto simp: execute_fill.simps bind_res_Inr_iff)
    have "stops_only s1" using so apply_fill_frame [OF f] by (simp add: stops_only_def)
    with 5 [OF f refl refl] ev f show "\<exists>t s1. apply_fill aggr i q s = Inr (a', t, s1) \<and>
       msteps (X, s1, append_result r0 (push_trade t r)) (X, s', append_result r0 r')" by blast
  qed
next
  case (6 n r s)
  show ?case
  proof (intro allI impI)
    fix X r0 r' s'
    assume run: "evaluate_stop_triggers n r s = Inr (r', s')" and so: "stops_only s"
    show "msteps (X, s, append_result r0 r) (X, s', append_result r0 r')"
    proof (cases "pending_stops s = [] \<or> last_trade_price (book s) = 0")
      case True
      then show ?thesis using run by (auto simp: evaluate_stop_triggers.simps split: if_splits)
    next
      case False
      then show ?thesis
        using run "6.IH" so msteps_first [OF mstep.wake [of s]]
        by (simp add: evaluate_stop_triggers.simps stops_only_def)
    qed
  qed
next
  case (7 n lp r s)
  then show ?case by (simp add: engine_simps)
next
  case (8 n lp st working r s)
  show ?case
  proof (intro allI impI)
    fix X r0 r' s'
    assume run: "stop_loop n lp (st # working) r s = Inr (r', s')" and so: "stops_only s"
      and ws: "\<forall>x\<in>set (st # working). is_stop x"
    show "msteps ((st # working) @ X, s, append_result r0 r) (X, s', append_result r0 r')"
    proof (cases "stop_triggered lp st")
      case True
      with run obtain r1 s1 where p: "process_triggered_stop n st r s = Inr (r1, s1)"
        and l: "stop_loop n lp working r1 s1 = Inr (r', s')"
        by (auto simp: stop_loop.simps bind_res_Inr_iff)
      have m: "msteps (st # working @ X, s, append_result r0 r) (working @ X, s1, append_result r0 r1)"
        using "8.IH"(1) [OF True] p so ws by simp
      also have "msteps \<dots> (X, s', append_result r0 r')"
        using "8.IH"(2) [OF True p refl] l ws msteps_stops_only [OF m so] by simp
      finally show ?thesis by simp
    next
      case False
      then show ?thesis
        using run "8.IH"(3) so ws msteps_first [OF mstep.sleep]
        by (simp add: stop_loop.simps stops_only_def)
    qed
  qed
next
  case (9 n st r s)
  show ?case
  proof (intro allI impI)
    fix X r0 r' s'
    assume so: "stops_only s" "is_stop st" and "process_triggered_stop n st r s = Inr (r', s')"
    then obtain sub where p: "process_new_order n (convert_stop st) s = Inr (sub, s')"
      and r': "r' = append_result r sub"
      by (auto simp: process_triggered_stop.simps bind_res_Inr_iff)
    have "msteps (prepare_order (convert_stop st) # X, s, append_result r0 r)
        (X, s', append_result (append_result r0 r) sub)"
      using 9 p so by blast
    then show "msteps (st # X, s, append_result r0 r) (X, s', append_result r0 r')"
      using msteps_first [OF mstep.convert [OF so(2)]] by (simp add: r' append_result_assoc)
  qed
next
  case (10 o1 s)
  then show ?case by (simp add: engine_simps)
next
  case (11 n o1 s)
  let ?o = "o1\<lparr> ord_status := Resting \<rparr>"
  show ?case
  proof (intro allI impI)
    fix X r0 r' s'
    assume run: "process_new_order (Suc n) o1 s = Inr (r', s')" and so: "stops_only s"
    show "msteps (prepare_order o1 # X, s, r0) (X, s', append_result r0 r')"
    proof (cases "ord_type o1 = Limit \<or> ord_type o1 = Iceberg")
      case True
      from process_new_limit [OF run True] obtain a s1
        where m: "match_limit n (prepare_order o1) empty_result s = Inr (a, r', s1)"
        and s': "s' = (if must_rest a then rest_order a s1 else s1)" by blast
      have "msteps (prepare_order o1 # X, s, append_result r0 empty_result) (a # X, s1, append_result r0 r')
          \<and> match_done a (book s1)"
        using "11.IH"(1,5) m True so by (auto simp: prepare_order_simps split_iceberg_def)
      moreover have "ord_type a = Limit \<or> ord_type a = Iceberg"
        using match_static [OF m] True by (auto simp: prepare_order_simps)
      ultimately show ?thesis using end_of_limit [of a s1 s' X "append_result r0 r'"] s' by auto
    next
      case False
      then have prep: "prepare_order o1 = ?o" by (simp add: prepare_order_simps)
      show ?thesis
      proof (cases "ord_type o1 = Market")
        case True
        then obtain a where "match_market n ?o empty_result s = Inr (a, r', s')"
          using run by (auto simp: process_new_order.simps bind_res_Inr_iff)
        then have "msteps (?o # X, s, append_result r0 empty_result) (X, s', append_result r0 r')"
          using "11.IH"(2) True so by simp
        then show ?thesis by (simp add: prep)
      next
        case nm: False
        with False have st: "ord_type o1 = Stop \<or> ord_type o1 = StopLimit" by (cases "ord_type o1") auto
        show ?thesis
        proof (cases "immediately_triggered ?o s")
          case True
          then have "process_triggered_stop n ?o empty_result s = Inr (r', s')"
            using run st by (auto simp: process_new_order.simps)
          then have "msteps (?o # X, s, append_result r0 empty_result) (X, s', append_result r0 r')"
            using "11.IH"(3,4) st True so by (auto simp: is_stop_def)
          then show ?thesis by (simp add: prep)
        next
          case False
          then show ?thesis using run st mstep.sleep [of ?o X s r0]
            by (auto simp: process_new_order.simps prep is_stop_def)
        qed
      qed
    qed
  qed
qed

section \<open>Invariants\<close>

text \<open>
  A predicate of configurations that every step keeps holds after every run of the engine. The
  client of the interface is the engine; the providers are the invariants of the theories that
  import this one.
\<close>

locale step_invariant =
  fixes I :: "order list \<Rightarrow> engine \<Rightarrow> match_result \<Rightarrow> bool"
  assumes preserved: "mstep (X, s, r) (X1, s1, r1) \<Longrightarrow> I X s r \<Longrightarrow> I X1 s1 r1"
begin

lemma run:
  assumes "msteps (X, s, r) (X1, s1, r1)" and "I X s r"
  shows "I X1 s1 r1"
proof -
  have "msteps c d \<Longrightarrow> I (fst c) (fst (snd c)) (snd (snd c)) \<Longrightarrow> I (fst d) (fst (snd d)) (snd (snd d))" for c d
  proof (induction rule: rtranclp_induct)
    case (step y z)
    then show ?case using preserved [of "fst y" "fst (snd y)" "snd (snd y)"] by simp
  qed simp
  from this [OF assms(1)] assms(2) show ?thesis by simp
qed

lemma new_order:
  "process_new_order n o1 s = Inr (r, s1) \<Longrightarrow> stops_only s \<Longrightarrow> I (prepare_order o1 # X) s r0 \<Longrightarrow>
   I X s1 (append_result r0 r)"
  using engine_runs_msteps(7) run by blast

lemma triggered_stop:
  "process_triggered_stop n st r s = Inr (r1, s1) \<Longrightarrow> stops_only s \<Longrightarrow> is_stop st \<Longrightarrow> I (st # X) s (append_result r0 r) \<Longrightarrow>
   I X s1 (append_result r0 r1)"
  using engine_runs_msteps(6) run by blast

lemma evaluated:
  "evaluate_stop_triggers n r s = Inr (r1, s1) \<Longrightarrow> stops_only s \<Longrightarrow> I X s (append_result r0 r) \<Longrightarrow>
   I X s1 (append_result r0 r1)"
  using engine_runs_msteps(4) run by blast

lemma limit_matched:
  "match_limit n a r s = Inr (a1, r1, s1) \<Longrightarrow> stops_only s \<Longrightarrow> ord_type a \<noteq> Market \<Longrightarrow>
   I (a # X) s (append_result r0 r) \<Longrightarrow> I (a1 # X) s1 (append_result r0 r1)"
  using engine_runs_msteps(1) run by blast

lemma market_matched:
  "match_market n a r s = Inr (a1, r1, s1) \<Longrightarrow> stops_only s \<Longrightarrow> ord_type a = Market \<Longrightarrow>
   I (a # X) s (append_result r0 r) \<Longrightarrow> I X s1 (append_result r0 r1)"
  using engine_runs_msteps(2) run by blast

end

end
