(* ===== verification/Fill_Effect.thy ===== *)
theory Fill_Effect
  imports Engine_Steps
begin

text \<open>
  What one fill does to a well-formed book: the passive order is the head of the live queue at the
  best opposite price, and the fill leaves it partially filled in place, replenished at the back of
  its queue, or gone. The functions \<open>passive_after\<close> and \<open>queue_after\<close> are the specification that
  \<open>passive_front\<close> and \<open>apply_fill\<close> implement.
\<close>

definition replenished :: "order \<Rightarrow> order" where
  "replenished p = p\<lparr>
     ord_reserve_qty := ord_reserve_qty p - min (ord_peak_qty p) (ord_reserve_qty p),
     ord_quantity := min (ord_peak_qty p) (ord_reserve_qty p) \<rparr>"

definition replenishes :: "order \<Rightarrow> quantity \<Rightarrow> bool" where
  "replenishes p q \<longleftrightarrow> ord_quantity p - q = 0 \<and> is_iceberg p \<and> 0 < ord_reserve_qty p"

definition passive_after :: "order \<Rightarrow> quantity \<Rightarrow> order option" where
  "passive_after p q =
     (if replenishes p q then Some (replenished p)
      else if ord_quantity p - q = 0 then None
      else Some (p\<lparr> ord_quantity := ord_quantity p - q \<rparr>))"

definition queue_after :: "order \<Rightarrow> quantity \<Rightarrow> order_id list \<Rightarrow> order_id list" where
  "queue_after p q ids =
     (if replenishes p q then tl ids @ [hd ids]
      else if ord_quantity p - q = 0 then tl ids
      else ids)"

definition fill_map :: "order_id \<Rightarrow> order \<Rightarrow> quantity \<Rightarrow> (order_id, order) fmap \<Rightarrow> (order_id, order) fmap" where
  "fill_map i p q m = (case passive_after p q of None \<Rightarrow> fmdrop i m | Some p1 \<Rightarrow> fmupd i p1 m)"

lemma passive_level_sd:
  "passive_level a b = (case side_levels (opp (ord_side a)) b of [] \<Rightarrow> None | e # _ \<Rightarrow> Some e)"
  by (cases "ord_side a")
     (simp_all add: passive_level_def is_buy_side best_ask_level_def best_bid_level_def)

lemma fmupd_upd [simp]: "fmupd i v (fmupd i w m) = fmupd i v m"
  by (rule fmap_ext) simp

lemma fmdrop_upd [simp]: "fmdrop i (fmupd i w m) = fmdrop i m"
  by (rule fmap_ext) simp

section \<open>The passive order\<close>

definition is_passive :: "order \<Rightarrow> order_book \<Rightarrow> order_id \<Rightarrow> order \<Rightarrow> bool" where
  "is_passive a b i p \<longleftrightarrow> fmlookup (id_map b) i = Some p \<and> ord_side p = opp (ord_side a) \<and>
     (\<exists>ids. queue_of b (ord_side p) (ord_price p) = i # ids) \<and>
     (\<forall>pr. queue_of b (ord_side p) pr \<noteq> [] \<longrightarrow>
        pr = ord_price p \<or> better (ord_side p) (ord_price p) pr)"

text \<open>\<open>same_book\<close>: the two books differ only in lazily deleted entries.\<close>

definition same_book :: "order_book \<Rightarrow> order_book \<Rightarrow> bool" where
  "same_book b b1 \<longleftrightarrow> book_ok b1 \<and> queue_of b1 = queue_of b \<and> id_map b1 = id_map b \<and>
     last_trade_price b1 = last_trade_price b"

lemma passive_front_ok:
  assumes ok: "book_ok (book s)" and lev: "passive_level a (book s) = Some e"
  shows "\<exists>i p b1. passive_front a e s = Inr (i, p, s\<lparr> book := b1 \<rparr>) \<and> same_book (book s) b1
     \<and> is_passive a (book s) i p \<and> fst e = ord_price p \<and> lvl_price (snd e) = ord_price p
     \<and> i \<notin> stale_of b1 (ord_side p) (ord_price p)"
proof -
  let ?b = "book s" let ?sd = "opp (ord_side a)"
  obtain pr l where e: "e = (pr, l)" by fastforce
  then obtain m where m: "side_levels ?sd ?b = (pr, l) # m"
    using lev by (auto simp: passive_level_sd split: list.splits)
  have lok: "levels_ok (better ?sd) ((pr, l) # m)" using book_ok_levels [OF ok, of ?sd] m by simp
  then have wf: "level_wf pr l" by (simp add: levels_ok_def)
  then obtain i ids where ids: "live_ids l = i # ids" by (cases "live_ids l") (auto simp: level_wf_def)
  let ?l1 = "drain_cancelled l" let ?b1 = "set_level ?sd pr ?l1 ?b"
  have front: "level_front l = Inr (i, ?l1)" and ns: "i \<notin> lvl_cancelled ?l1"
    using level_front_cons [OF _ ids] wf by (auto simp: level_wf_def)
  have get: "get_level ?sd pr ?b = Some l" by (simp add: get_level_def m)
  have wf1: "level_wf pr ?l1" using wf by (simp add: level_wf_def)
  have q: "queue_of ?b ?sd pr = i # ids" by (simp add: queue_of_def queue_at_def m ids)
  obtain p where p: "fmlookup (id_map ?b) i = Some p" "ord_side p = ?sd" "ord_price p = pr"
    using book_ok_queue [OF ok, of i ?sd pr] q by auto
  have "queue_of ?b1 = queue_of ?b"
    using set_level_queue [OF ok get wf1] q ids by (auto simp: fun_eq_iff)
  then have same: "same_book ?b ?b1"
    using set_level_ok [OF ok get wf1] by (simp add: same_book_def)
  have best: "\<forall>pr1. queue_of ?b ?sd pr1 \<noteq> [] \<longrightarrow> pr1 = pr \<or> better ?sd pr pr1"
    using sd_best [OF lok] by (simp add: queue_of_def m)
  have "stale_of ?b1 ?sd pr = lvl_cancelled ?l1"
    by (simp add: stale_of_def stale_at_def set_level_def map_of_put m)
  then show ?thesis
    using front p q same best ns wf e
    by (auto simp: passive_front_def find_order_def is_passive_def level_wf_def)
qed

lemma queued_level:
  "i \<in> set (queue_of b sd pr) \<Longrightarrow> \<exists>l. get_level sd pr b = Some l \<and> live_ids l = queue_of b sd pr"
  by (cases "map_of (side_levels sd b) pr") (auto simp: queue_of_def queue_at_def get_level_def)

section \<open>The fill\<close>

lemma settle_partial:
  assumes ok: "book_ok b" and p: "fmlookup (id_map b) i = Some p" and nz: "ord_quantity p \<noteq> 0"
  shows "\<exists>b2. settle_passive i q b = Inr b2 \<and> book_ok b2 \<and> id_map b2 = id_map b
     \<and> queue_of b2 = queue_of b \<and> last_trade_price b2 = last_trade_price b"
proof -
  have "i \<in> set (queue_of b (ord_side p) (ord_price p))" using book_ok_queued [OF ok p] .
  then obtain l where l: "get_level (ord_side p) (ord_price p) b = Some l"
    using queued_level by blast
  let ?b1 = "set_level (ord_side p) (ord_price p) (reduce_front_volume q l) b"
  have wl: "level_wf (ord_price p) l"
    using levels_okD [OF book_ok_levels [OF ok]] l by (simp add: get_level_def)
  then have wl1: "level_wf (ord_price p) (reduce_front_volume q l)" by (simp add: level_wf_def)
  have ok1: "book_ok ?b1" using set_level_ok [OF ok l wl1] by simp
  have "live_ids l = queue_of b (ord_side p) (ord_price p)"
    using l by (simp add: queue_of_def queue_at_def get_level_def)
  then have q1: "queue_of ?b1 = queue_of b"
    using set_level_queue [OF ok l wl1] by (auto simp: fun_eq_iff)
  have id: "ord_id p = i" using book_ok_id [OF ok p] .
  have "update_order_quantity i (ord_quantity p) ?b1 = set_order i p ?b1"
    using p by (simp add: update_order_quantity_def)
  moreover have "id_map (set_order i p ?b1) = id_map b"
    using p by (intro fmap_ext) auto
  ultimately show ?thesis
    using p nz l id ok1 q1 set_order_ok [OF ok1, of i p p]
    by (simp add: settle_passive_def find_order_def)
qed

lemma settle_gone:
  assumes ok: "book_ok b" and p: "fmlookup (id_map b) i = Some p" and z: "ord_quantity p = 0"
    and nr: "\<not> (is_iceberg p \<and> 0 < ord_reserve_qty p)"
    and q: "queue_of b (ord_side p) (ord_price p) = i # ids"
    and ns: "i \<notin> stale_of b (ord_side p) (ord_price p)"
  shows "\<exists>b2. settle_passive i v b = Inr b2 \<and> book_ok b2 \<and> id_map b2 = fmdrop i (id_map b)
     \<and> queue_of b2 = (\<lambda>sd pr. if sd = ord_side p \<and> pr = ord_price p then ids else queue_of b sd pr)
     \<and> last_trade_price b2 = last_trade_price b"
proof -
  let ?b1 = "set_order i (p\<lparr> ord_status := Filled \<rparr>) b"
  have ok1: "book_ok ?b1" using set_order_ok [OF ok p] by simp
  have p1: "fmlookup (id_map ?b1) i = Some (p\<lparr> ord_status := Filled \<rparr>)" by simp
  have ns1: "i \<notin> stale_of ?b1 (ord_side (p\<lparr> ord_status := Filled \<rparr>)) (ord_price (p\<lparr> ord_status := Filled \<rparr>))"
    using ns by simp
  have id: "ord_id p = i" using book_ok_id [OF ok p] .
  have "settle_passive i v b = Inr (snd (cancel_order i ?b1))"
    using p z nr id by (auto simp: settle_passive_def find_order_def)
  moreover have "queue_of (snd (cancel_order i ?b1)) =
      (\<lambda>sd pr. if sd = ord_side p \<and> pr = ord_price p then ids else queue_of b sd pr)"
    using cancel_order_queue [OF ok1 p1 ns1] q by (auto simp: fun_eq_iff)
  ultimately show ?thesis
    using cancel_order_ok [OF ok1 p1 ns1] cancel_order_fields(1) [OF p1] cancel_order_fields(2) [of i ?b1]
    by simp
qed

lemma settle_replenish:
  assumes ok: "book_ok b" and p: "fmlookup (id_map b) i = Some p" and z: "ord_quantity p = 0"
    and r: "is_iceberg p" "0 < ord_reserve_qty p"
    and q: "queue_of b (ord_side p) (ord_price p) = i # ids"
  shows "\<exists>b2. settle_passive i v b = Inr b2 \<and> book_ok b2 \<and> id_map b2 = fmupd i (replenished p) (id_map b)
     \<and> queue_of b2 = (\<lambda>sd pr. if sd = ord_side p \<and> pr = ord_price p then ids @ [i] else queue_of b sd pr)
     \<and> last_trade_price b2 = last_trade_price b"
proof -
  let ?sd = "ord_side p" let ?pr = "ord_price p" let ?np = "min (ord_peak_qty p) (ord_reserve_qty p)"
  obtain l where l: "get_level ?sd ?pr b = Some l" "live_ids l = i # ids"
    using q queued_level [of i b ?sd ?pr] by auto
  have wl: "level_wf ?pr l"
    using levels_okD [OF book_ok_levels [OF ok]] l(1) by (simp add: get_level_def)
  then have "level_ok l" by (simp add: level_wf_def)
  from level_pop_cons [OF this l(2), of v] obtain l1 where l1: "level_pop_front v l = Inr l1"
    "live_ids l1 = ids" "level_ok l1" "lvl_price l1 = lvl_price l" by blast
  let ?l2 = "level_push_back i ?np l1" let ?b1 = "set_order i (replenished p) b"
  let ?b2 = "set_level ?sd ?pr ?l2 ?b1"
  have id: "ord_id p = i" using book_ok_id [OF ok p] .
  have wl2: "level_wf ?pr ?l2"
    using wl l(2) l1 by (auto simp: level_wf_def live_push_back level_ok_push_back)
  have ok1: "book_ok ?b1" using set_order_ok [OF ok p] by (simp add: replenished_def)
  have get1: "get_level ?sd ?pr ?b1 = Some l" using l(1) by (simp add: get_level_def)
  have lv2: "live_ids ?l2 = ids @ [i]" using l1 by (simp add: live_push_back)
  have ok2: "book_ok ?b2" using set_level_ok [OF ok1 get1 wl2] lv2 l(2) by simp
  have q2: "queue_of ?b2 = (\<lambda>sd pr. if sd = ?sd \<and> pr = ?pr then ids @ [i] else queue_of b sd pr)"
    using set_level_queue [OF ok1 get1 wl2] lv2 by (auto simp: fun_eq_iff)
  have upd: "update_order_quantity i ?np ?b2 = set_order i (replenished p) ?b2"
    by (simp add: update_order_quantity_def replenished_def)
  have run: "settle_passive i v b = Inr (set_order i (replenished p) ?b2)"
    using p z r l(1) l1(1) id upd
    by (simp add: settle_passive_def replenish_iceberg_def find_order_def Let_def replenished_def)
  have "book_ok (set_order i (replenished p) ?b2)"
    using set_order_ok [OF ok2, of i "replenished p" "replenished p"] by simp
  then show ?thesis using run q2 by simp
qed

lemma apply_fill_ok:
  assumes same: "same_book b (book s)" and ps: "is_passive a b i p"
    and ns: "i \<notin> stale_of (book s) (ord_side p) (ord_price p)"
  shows "\<exists>b2. apply_fill a i q s =
       Inr (a\<lparr> ord_quantity := ord_quantity a - q \<rparr>, fill_trade a p q, s\<lparr> book := b2 \<rparr>)
     \<and> book_ok b2 \<and> id_map b2 = fill_map i p q (id_map b)
     \<and> queue_of b2 = (\<lambda>sd pr. if sd = ord_side p \<and> pr = ord_price p
                              then queue_after p q (queue_of b sd pr) else queue_of b sd pr)
     \<and> last_trade_price b2 = ord_price p"
proof -
  let ?p1 = "p\<lparr> ord_quantity := ord_quantity p - q \<rparr>"
  let ?b1 = "(set_order i ?p1 (book s))\<lparr> last_trade_price := ord_price p \<rparr>"
  have ok: "book_ok (book s)" and qu: "queue_of (book s) = queue_of b" and mp: "id_map (book s) = id_map b"
    using same by (simp_all add: same_book_def)
  obtain ids where ids: "queue_of b (ord_side p) (ord_price p) = i # ids"
    using ps by (auto simp: is_passive_def)
  have p: "fmlookup (id_map (book s)) i = Some p" using ps mp by (simp add: is_passive_def)
  have ok1: "book_ok ?b1" using set_order_ok [OF ok p, of ?p1] by simp
  have qb: "queue_of ?b1 = queue_of b" using qu by simp
  have p1: "fmlookup (id_map ?b1) i = Some ?p1" by simp
  have q1: "queue_of ?b1 (ord_side ?p1) (ord_price ?p1) = i # ids" using ids qu by simp
  have ns1: "i \<notin> stale_of ?b1 (ord_side ?p1) (ord_price ?p1)" using ns by simp
  have eq: "apply_fill a i q s = bind_res (settle_passive i q ?b1) (\<lambda>b2.
      Inr (a\<lparr> ord_quantity := ord_quantity a - q \<rparr>, fill_trade a p q, s\<lparr> book := b2 \<rparr>))"
    using p by (simp add: apply_fill_def find_order_def Let_def)
  consider (rep) "replenishes p q" | (gone) "\<not> replenishes p q" "ord_quantity p - q = 0"
    | (part) "ord_quantity p - q \<noteq> 0" by blast
  then show ?thesis
  proof cases
    case rep
    then have "ord_quantity ?p1 = 0" "is_iceberg ?p1" "0 < ord_reserve_qty ?p1"
      by (simp_all add: replenishes_def is_iceberg_def)
    from settle_replenish [OF ok1 p1 this q1, of q, unfolded qb] obtain b2
      where b2: "settle_passive i q ?b1 = Inr b2" "book_ok b2" "id_map b2 = fmupd i (replenished p) (id_map b)"
        "queue_of b2 = (\<lambda>sd pr. if sd = ord_side p \<and> pr = ord_price p then ids @ [i] else queue_of b sd pr)"
        "last_trade_price b2 = ord_price p"
      using mp qu by (auto simp: replenished_def)
    show ?thesis using rep ids b2
      by (intro exI [of _ b2]) (auto simp: eq fill_map_def passive_after_def queue_after_def fun_eq_iff)
  next
    case gone
    then have "ord_quantity ?p1 = 0" "\<not> (is_iceberg ?p1 \<and> 0 < ord_reserve_qty ?p1)"
      by (simp_all add: replenishes_def is_iceberg_def)
    from settle_gone [OF ok1 p1 this q1 ns1, of q, unfolded qb] obtain b2
      where b2: "settle_passive i q ?b1 = Inr b2" "book_ok b2" "id_map b2 = fmdrop i (id_map b)"
        "queue_of b2 = (\<lambda>sd pr. if sd = ord_side p \<and> pr = ord_price p then ids else queue_of b sd pr)"
        "last_trade_price b2 = ord_price p"
      using mp qu by auto
    show ?thesis using gone ids b2
      by (intro exI [of _ b2]) (auto simp: eq fill_map_def passive_after_def queue_after_def fun_eq_iff)
  next
    case part
    then have "ord_quantity ?p1 \<noteq> 0" by simp
    from settle_partial [OF ok1 p1 this, of q, unfolded qb] obtain b2
      where b2: "settle_passive i q ?b1 = Inr b2" "book_ok b2" "id_map b2 = fmupd i ?p1 (id_map b)"
        "queue_of b2 = queue_of b" "last_trade_price b2 = ord_price p"
      using mp qu by auto
    show ?thesis using part ids b2
      by (intro exI [of _ b2])
         (auto simp: eq fill_map_def passive_after_def queue_after_def replenishes_def fun_eq_iff)
  qed
qed

end
