(* ===== verification/Engine_Safety.thy ===== *)
theory Engine_Safety
  imports Fill_Effect
begin

text \<open>
  Well-formed engine states, their preservation by every matching step, and the termination and
  absence of undefined behaviour of the engine in them.

  \<open>config_ok X s\<close>: the book satisfies \<open>book_ok\<close>, and the ids of the orders in flight (\<open>X\<close>), of the
  pending stops and of the resting orders are pairwise different. \<open>engine_ok\<close> is the case with
  nothing in flight. \<open>config_weight\<close> bounds the remaining work: every fill lowers it.
\<close>

section \<open>The facts of one fill\<close>

lemma fill_facts:
  assumes ok: "book_ok (book s)" and lev: "passive_level a (book s) = Some e"
    and front: "passive_front a e s = Inr (i, p, s1)"
    and fill: "apply_fill a i q s1 = Inr (a1, t, s2)"
  shows "\<exists>b2. s2 = s\<lparr> book := b2 \<rparr> \<and> a1 = a\<lparr> ord_quantity := ord_quantity a - q \<rparr>
     \<and> t = fill_trade a p q \<and> is_passive a (book s) i p \<and> fst e = ord_price p
     \<and> lvl_price (snd e) = ord_price p \<and> book_ok b2 \<and> id_map b2 = fill_map i p q (id_map (book s))
     \<and> queue_of b2 = (\<lambda>sd pr. if sd = ord_side p \<and> pr = ord_price p
          then queue_after p q (queue_of (book s) sd pr) else queue_of (book s) sd pr)
     \<and> last_trade_price b2 = ord_price p"
proof -
  from passive_front_ok [OF ok lev] front obtain b1
    where b1: "s1 = s\<lparr> book := b1 \<rparr>" "same_book (book s) b1" "is_passive a (book s) i p"
      "fst e = ord_price p" "lvl_price (snd e) = ord_price p"
      "i \<notin> stale_of b1 (ord_side p) (ord_price p)" by auto
  have "same_book (book s) (book s1)" and "i \<notin> stale_of (book s1) (ord_side p) (ord_price p)"
    using b1 by simp_all
  from apply_fill_ok [OF this(1) b1(3) this(2), of q] fill b1 show ?thesis by auto
qed

text \<open>Neither step of a fill faults in a well-formed book.\<close>

lemma fill_returns:
  assumes ok: "book_ok (book s)" and lev: "passive_level a (book s) = Some e"
  shows "\<exists>i p s1. passive_front a e s = Inr (i, p, s1) \<and> (\<forall>q. \<exists>a1 t s2. apply_fill a i q s1 = Inr (a1, t, s2))"
proof -
  from passive_front_ok [OF ok lev] obtain i p b1
    where b1: "passive_front a e s = Inr (i, p, s\<lparr> book := b1 \<rparr>)" "same_book (book s) b1"
      "is_passive a (book s) i p" "i \<notin> stale_of b1 (ord_side p) (ord_price p)" by blast
  have "same_book (book s) (book (s\<lparr> book := b1 \<rparr>))"
    and "i \<notin> stale_of (book (s\<lparr> book := b1 \<rparr>)) (ord_side p) (ord_price p)"
    using b1 by simp_all
  from apply_fill_ok [OF this(1) b1(3) this(2)] b1(1) show ?thesis by blast
qed

lemma fill_map_dom:
  "fmlookup m i = Some p \<Longrightarrow> fmlookup m j = None \<Longrightarrow> fmlookup (fill_map i p q m) j = None"
  by (auto simp: fill_map_def split: option.splits if_splits)

section \<open>Well-formed configurations\<close>

definition config_ok :: "order list \<Rightarrow> engine \<Rightarrow> bool" where
  "config_ok X s \<longleftrightarrow> book_ok (book s) \<and> stops_only s \<and> distinct (map ord_id (X @ pending_stops s)) \<and>
     (\<forall>o1\<in>set (X @ pending_stops s). fmlookup (id_map (book s)) (ord_id o1) = None)"

definition engine_ok :: "engine \<Rightarrow> bool" where
  "engine_ok s \<longleftrightarrow> config_ok [] s"

lemma config_okD:
  assumes "config_ok X s"
  shows "book_ok (book s)" and "distinct (map ord_id X)" and "distinct (map ord_id (pending_stops s))"
    and "stops_only s" and "o1 \<in> set X \<Longrightarrow> fmlookup (id_map (book s)) (ord_id o1) = None"
  using assms by (auto simp: config_ok_def)

lemma ord_id_simps [simp]:
  "ord_id (prepare_order o1) = ord_id o1"
  "ord_id (convert_stop o1) = ord_id o1"
  by (simp_all add: prepare_order_def split_iceberg_def convert_stop_def Let_def)

lemma config_ok_fill:
  assumes ok: "config_ok (a # X) s" and lev: "passive_level a (book s) = Some e"
    and front: "passive_front a e s = Inr (i, p, s1)"
    and fill: "apply_fill a i q s1 = Inr (a1, t, s2)"
  shows "config_ok (a1 # X) s2"
proof -
  from fill_facts [OF config_okD(1) [OF ok] lev front fill] obtain b2
    where b2: "s2 = s\<lparr> book := b2 \<rparr>" "ord_id a1 = ord_id a" "book_ok b2"
      "id_map b2 = fill_map i p q (id_map (book s))" "fmlookup (id_map (book s)) i = Some p"
    by (auto simp: is_passive_def)
  have "fmlookup (id_map b2) j = None" if "fmlookup (id_map (book s)) j = None" for j
    using fill_map_dom [OF b2(5) that] b2(4) by simp
  then show ?thesis using ok b2 by (auto simp: config_ok_def stops_only_def)
qed

lemma config_ok_rest:
  assumes "config_ok (a # X) s"
  shows "config_ok X (rest_order a s)"
  using assms insert_order_ok [of "book s" a] by (auto simp: config_ok_def rest_order_def stops_only_def)

lemma mstep_config_ok:
  assumes "mstep (X, s, r) (X1, s1, r1)" and ok: "config_ok X s"
  shows "config_ok X1 s1"
  using assms(1)
proof (cases "(X, s, r)" "(X1, s1, r1)" rule: mstep.cases)
  case (fill a e i p s2 a1 t X)
  then show ?thesis using config_ok_fill ok by blast
next
  case (rest a)
  then show ?thesis using config_ok_rest ok by blast
qed (use ok in \<open>auto simp: config_ok_def stops_only_def\<close>)

interpretation ok_inv: step_invariant "\<lambda>X s r. config_ok X s"
  by unfold_locales (rule mstep_config_ok)

section \<open>The weight of a configuration\<close>

definition config_weight :: "order list \<Rightarrow> engine \<Rightarrow> nat" where
  "config_weight X s = sum_list (map (\<lambda>o1. order_weight o1 + 2) X) + engine_weight s"

lemma passive_after_weight:
  assumes "passive_after p q = Some p1" and "q \<le> ord_quantity p" and "q \<noteq> 0 \<or> ord_quantity p = 0"
  shows "order_weight p1 < order_weight p"
proof (cases "replenishes p q")
  case True
  let ?np = "min (ord_peak_qty p) (ord_reserve_qty p)"
  have p1: "p1 = replenished p" using assms(1) True by (simp add: passive_after_def)
  have "0 < unat (ord_peak_qty p) \<and> 0 < unat (ord_reserve_qty p)"
    using True by (auto simp: replenishes_def is_iceberg_def word_gt_0_unat)
  moreover have "unat (ord_reserve_qty p - ?np) = unat (ord_reserve_qty p) - unat (ord_peak_qty p)"
    by (simp add: unat_sub_min_right)
  moreover have "0 < k \<and> 0 < v \<Longrightarrow> min k v + 2 * (v - k) < n + 2 * v" for k v n :: nat
    by (auto simp: min_def)
  ultimately show ?thesis
    by (simp add: p1 replenished_def order_weight_def unat_min_word)
next
  case False
  with assms(1) have p1: "p1 = p\<lparr> ord_quantity := ord_quantity p - q \<rparr>" and nz: "ord_quantity p - q \<noteq> 0"
    by (auto simp: passive_after_def split: if_splits)
  have "unat (ord_quantity p - q) = unat (ord_quantity p) - unat q" using assms(2) by (rule unat_sub_le)
  moreover from nz this have "0 < unat (ord_quantity p) - unat q" by (metis unat_pos_iff)
  moreover have "0 < unat q" using assms(3) nz by (auto simp: unat_pos_iff)
  ultimately show ?thesis by (simp add: p1 order_weight_def)
qed

lemma fill_map_weight:
  assumes "fmlookup m i = Some p" and "q = min (ord_quantity a) (ord_quantity p)" and "ord_quantity a \<noteq> 0"
  shows "fmsum order_weight (fill_map i p q m) < fmsum order_weight m"
proof (cases "passive_after p q")
  case None
  then show ?thesis using fmsum_drop [OF assms(1), of order_weight]
    by (simp add: fill_map_def order_weight_def)
next
  case (Some p1)
  have "order_weight p1 < order_weight p"
    using passive_after_weight [OF Some] assms(2,3) by (auto simp: min_def)
  then show ?thesis using fmsum_upd_old [OF assms(1), of order_weight p1] Some
    by (simp add: fill_map_def)
qed

lemma fill_weight:
  assumes ok: "book_ok (book s)" and nz: "ord_quantity a \<noteq> 0"
    and lev: "passive_level a (book s) = Some e"
    and front: "passive_front a e s = Inr (i, p, s1)"
    and fill: "apply_fill a i (min (ord_quantity a) (ord_quantity p)) s1 = Inr (a1, t, s2)"
  shows "order_weight a1 + engine_weight s2 < order_weight a + engine_weight s"
proof -
  from fill_facts [OF ok lev front fill] obtain b2
    where b2: "s2 = s\<lparr> book := b2 \<rparr>" "id_map b2 = fill_map i p (min (ord_quantity a) (ord_quantity p)) (id_map (book s))"
      "a1 = a\<lparr> ord_quantity := ord_quantity a - min (ord_quantity a) (ord_quantity p) \<rparr>"
      "fmlookup (id_map (book s)) i = Some p" by (auto simp: is_passive_def)
  have "order_weight a1 \<le> order_weight a"
    by (simp add: b2(3) order_weight_def unat_sub_min_left)
  then show ?thesis
    using fill_map_weight [OF b2(4) refl nz] b2(1,2) by (simp add: engine_weight_def)
qed

lemma convert_weight: "order_weight (prepare_order (convert_stop st)) = order_weight st"
  by (simp add: prepare_order_def convert_stop_def order_weight_def Let_def)

lemma rest_weight: "engine_weight (rest_order a s) \<le> order_weight a + engine_weight s"
  using fmsum_upd_le [of order_weight "ord_id a" a "id_map (book s)"]
  by (simp add: engine_weight_def rest_order_def)

lemma mstep_weight:
  assumes "mstep (X, s, r) (X1, s1, r1)" and "config_ok X s"
  shows "config_weight X1 s1 \<le> config_weight X s"
  using assms(1)
proof (cases "(X, s, r)" "(X1, s1, r1)" rule: mstep.cases)
  case (fill a e i p s2 a1 t X)
  then show ?thesis using fill_weight [OF config_okD(1) [OF assms(2)] fill(4,5,7,8)]
    by (simp add: config_weight_def)
next
  case (convert st X)
  then show ?thesis by (simp add: config_weight_def convert_weight)
next
  case (rest a)
  then show ?thesis using rest_weight [of a s] by (simp add: config_weight_def)
qed (auto simp: config_weight_def engine_weight_def order_weight_def)

interpretation weight_inv: step_invariant "\<lambda>X s r. config_ok X s \<and> config_weight X s \<le> K" for K
  by unfold_locales (use mstep_config_ok mstep_weight le_trans in blast)

section \<open>Enough fuel: the engine returns\<close>

lemma limit_fill_step:
  assumes ok: "config_ok (a # X) s" and nz: "ord_quantity a \<noteq> 0"
    and lev: "passive_level a (book s) = Some e"
    and front: "passive_front a e s = Inr (i, p, s1)"
    and fill: "apply_fill a i (min (ord_quantity a) (ord_quantity p)) s1 = Inr (a1, t, s2)"
  shows "config_ok (a1 # X) s2" and "order_weight a1 + engine_weight s2 < order_weight a + engine_weight s"
  using config_ok_fill [OF ok lev front fill] fill_weight [OF config_okD(1) [OF ok] nz lev front fill]
  by simp_all

lemma evaluated_ok:
  assumes "evaluate_stop_triggers n r s = Inr (r1, s1)" and "config_ok X s"
  shows "config_ok X s1" and "engine_weight s1 \<le> engine_weight s"
proof -
  note so = config_okD(4) [OF assms(2)]
  show "config_ok X s1" using ok_inv.evaluated [OF assms(1) so, of X] assms(2) by simp
  have "config_ok X s \<and> config_weight X s \<le> config_weight X s" using assms(2) by simp
  from weight_inv.evaluated [OF assms(1) so, of X "config_weight X s"] this
  show "engine_weight s1 \<le> engine_weight s" by (simp add: config_weight_def)
qed

lemma triggered_ok:
  assumes "process_triggered_stop n st r s = Inr (r1, s1)" and "config_ok (st # X) s" and "is_stop st"
  shows "config_ok X s1" and "engine_weight s1 \<le> order_weight st + 2 + engine_weight s"
proof -
  note so = config_okD(4) [OF assms(2)]
  show "config_ok X s1" using ok_inv.triggered_stop [OF assms(1) so assms(3), of X] assms(2) by simp
  have "config_ok (st # X) s \<and> config_weight (st # X) s \<le> config_weight (st # X) s"
    using assms(2) by simp
  from weight_inv.triggered_stop [OF assms(1) so assms(3), of X "config_weight (st # X) s"] this
  show "engine_weight s1 \<le> order_weight st + 2 + engine_weight s" by (simp add: config_weight_def)
qed

definition new_order_need :: "order \<Rightarrow> engine \<Rightarrow> nat" where
  "new_order_need o1 s = order_weight (prepare_order o1) + engine_weight s
     + (if ord_type o1 = Stop \<or> ord_type o1 = StopLimit then 3 else 1)"

lemma config_ok_wake:
  "config_ok X s \<Longrightarrow> config_ok (pending_stops s @ X) (s\<lparr> pending_stops := [] \<rparr>)"
  by (auto simp: config_ok_def stops_only_def)

lemma config_ok_sleep:
  "config_ok (st # X) s \<Longrightarrow> is_stop st \<Longrightarrow> config_ok X (s\<lparr> pending_stops := pending_stops s @ [st] \<rparr>)"
  by (auto simp: config_ok_def stops_only_def)

lemma convert_stop_type: "ord_type (convert_stop st) = Market \<or> ord_type (convert_stop st) = Limit"
  by (simp add: convert_stop_def Let_def)

lemma config_ok_ids:
  "config_ok (o1 # X) s \<Longrightarrow> ord_id o2 = ord_id o1 \<Longrightarrow> config_ok (o2 # X) s"
  by (auto simp: config_ok_def)

lemma engine_returns:
  "\<forall>X. config_ok (a # X) s \<longrightarrow> order_weight a + engine_weight s < n \<longrightarrow>
     (\<exists>x. match_limit n a r s = Inr x)"
  "\<forall>X. config_ok (a # X) s \<longrightarrow> order_weight a + engine_weight s < n \<longrightarrow>
     (\<exists>x. match_market n a r s = Inr x)"
  "\<forall>X a1 t s1. apply_fill a i q s = Inr (a1, t, s1) \<longrightarrow> config_ok X s1 \<longrightarrow> engine_weight s1 < n \<longrightarrow>
     (\<exists>x. execute_fill n a i q r s = Inr x)"
  "\<forall>X. config_ok X s \<longrightarrow> engine_weight s < n \<longrightarrow> (\<exists>x. evaluate_stop_triggers n r s = Inr x)"
  "\<forall>X. config_ok (ws @ X) s \<longrightarrow> (\<forall>x\<in>set ws. is_stop x) \<longrightarrow> config_weight ws s < n \<longrightarrow> (\<exists>x. stop_loop n lp ws r s = Inr x)"
  "\<forall>X. config_ok (st # X) s \<longrightarrow> is_stop st \<longrightarrow> config_weight [st] s < n \<longrightarrow>
     (\<exists>x. process_triggered_stop n st r s = Inr x)"
  "\<forall>X. config_ok (o1 # X) s \<longrightarrow> new_order_need o1 s < n \<longrightarrow> (\<exists>x. process_new_order n o1 s = Inr x)"
proof (induction n a r s and n a r s and n a i q r s and n r s and n lp ws r s and n st r s
    and n o1 s rule: engine_induct)
  case (2 n aggr r s)
  show ?case
  proof (intro allI impI)
    fix X
    assume ok: "config_ok (aggr # X) s" and fuel: "order_weight aggr + engine_weight s < Suc n"
    show "\<exists>x. match_limit (Suc n) aggr r s = Inr x"
    proof (cases "match_done aggr (book s)")
      case True
      then show ?thesis by (auto simp: match_limit.simps match_done_def split: option.splits)
    next
      case False
      then obtain e where e: "ord_quantity aggr \<noteq> 0" "passive_level aggr (book s) = Some e"
        "\<not> beyond_limit aggr (snd e)" by (auto simp: match_done_def split: option.splits)
      from fill_returns [OF config_okD(1) [OF ok] e(2)] obtain i p s1 a1 t s2
        where f: "passive_front aggr e s = Inr (i, p, s1)"
          "apply_fill aggr i (min (ord_quantity aggr) (ord_quantity p)) s1 = Inr (a1, t, s2)" by blast
      note step = limit_fill_step [OF ok e(1,2) f]
      have "engine_weight s2 < n" using step(2) fuel by linarith
      with "2.IH"(1) [OF e f(1) refl refl] f(2) step(1) obtain a2 r2 s3
        where x: "execute_fill n aggr i (min (ord_quantity aggr) (ord_quantity p)) r s1 = Inr (a2, r2, s3)"
        by fastforce
      then have ev: "a2 = a1" "evaluate_stop_triggers n (push_trade t r) s2 = Inr (r2, s3)"
        using f(2) by (auto simp: execute_fill.simps bind_res_Inr_iff)
      have "config_ok (a1 # X) s3" "order_weight a1 + engine_weight s3 < n"
        using evaluated_ok [OF ev(2) step(1)] step(2) fuel by simp_all
      with "2.IH"(2) [OF e f(1) refl refl x refl refl] ev(1)
      have "\<exists>y. match_limit n a2 r2 s3 = Inr y" by blast
      then show ?thesis using e f x by (auto simp: match_limit.simps)
    qed
  qed
next
  case (4 n aggr r s)
  show ?case
  proof (intro allI impI)
    fix X
    assume ok: "config_ok (aggr # X) s" and fuel: "order_weight aggr + engine_weight s < Suc n"
    show "\<exists>x. match_market (Suc n) aggr r s = Inr x"
    proof (cases "ord_quantity aggr = 0 \<or> passive_level aggr (book s) = None")
      case True
      then show ?thesis by (auto simp: match_market.simps)
    next
      case False
      then obtain e where e: "ord_quantity aggr \<noteq> 0" "passive_level aggr (book s) = Some e" by auto
      from fill_returns [OF config_okD(1) [OF ok] e(2)] obtain i p s1 a1 t s2
        where f: "passive_front aggr e s = Inr (i, p, s1)"
          "apply_fill aggr i (min (ord_quantity aggr) (ord_quantity p)) s1 = Inr (a1, t, s2)" by blast
      note step = limit_fill_step [OF ok e f]
      have "engine_weight s2 < n" using step(2) fuel by linarith
      with "4.IH"(1) [OF e f(1) refl refl] f(2) step(1) obtain a2 r2 s3
        where x: "execute_fill n aggr i (min (ord_quantity aggr) (ord_quantity p)) r s1 = Inr (a2, r2, s3)"
        by fastforce
      then have ev: "a2 = a1" "evaluate_stop_triggers n (push_trade t r) s2 = Inr (r2, s3)"
        using f(2) by (auto simp: execute_fill.simps bind_res_Inr_iff)
      have "config_ok (a1 # X) s3" "order_weight a1 + engine_weight s3 < n"
        using evaluated_ok [OF ev(2) step(1)] step(2) fuel by simp_all
      with "4.IH"(2) [OF e f(1) refl refl x refl refl] ev(1)
      have "\<exists>y. match_market n a2 r2 s3 = Inr y" by blast
      then show ?thesis using e f x by (auto simp: match_market.simps)
    qed
  qed
next
  case (5 n aggr i q r s)
  show ?case
  proof (intro allI impI)
    fix X a1 t s1
    assume f: "apply_fill aggr i q s = Inr (a1, t, s1)" "config_ok X s1" "engine_weight s1 < n"
    from 5 [OF f(1) refl refl] f(2,3) obtain y where "evaluate_stop_triggers n (push_trade t r) s1 = Inr y"
      by blast
    then show "\<exists>x. execute_fill n aggr i q r s = Inr x"
      using f(1) by (cases y) (simp add: execute_fill.simps)
  qed
next
  case (6 n r s)
  show ?case
  proof (intro allI impI)
    fix X assume ok: "config_ok X s" and fuel: "engine_weight s < n"
    have "config_weight (pending_stops s) (s\<lparr> pending_stops := [] \<rparr>) < n"
      using fuel by (simp add: config_weight_def engine_weight_def)
    moreover have "\<forall>x\<in>set (pending_stops s). is_stop x"
      using config_okD(4) [OF ok] by (simp add: stops_only_def)
    ultimately show "\<exists>x. evaluate_stop_triggers n r s = Inr x"
      using 6 config_ok_wake [OF ok] by (simp add: evaluate_stop_triggers.simps) blast
  qed
next
  case (8 n lp st working r s)
  show ?case
  proof (intro allI impI)
    fix X assume ok: "config_ok ((st # working) @ X) s" and ws: "\<forall>x\<in>set (st # working). is_stop x"
      and fuel: "config_weight (st # working) s < n"
    then have ok': "config_ok (st # working @ X) s" by simp
    show "\<exists>x. stop_loop n lp (st # working) r s = Inr x"
    proof (cases "stop_triggered lp st")
      case True
      have "config_weight [st] s < n" using fuel by (simp add: config_weight_def)
      with "8.IH"(1) [OF True] ok' ws obtain r1 s1 where p: "process_triggered_stop n st r s = Inr (r1, s1)"
        by fastforce
      have "is_stop st" using ws by simp
      note t = triggered_ok [OF p ok' this]
      have "config_weight working s1 < n" using t(2) fuel by (simp add: config_weight_def)
      with "8.IH"(2) [OF True p refl] t(1) ws have "\<exists>x. stop_loop n lp working r1 s1 = Inr x" by simp blast
      then show ?thesis using True p by (simp add: stop_loop.simps)
    next
      case False
      have "config_weight working (s\<lparr> pending_stops := pending_stops s @ [st] \<rparr>) < n"
        using fuel by (simp add: config_weight_def engine_weight_def)
      with "8.IH"(3) [OF False] config_ok_sleep [OF ok'] ws False show ?thesis
        by (simp add: stop_loop.simps) blast
    qed
  qed
next
  case (9 n st r s)
  show ?case
  proof (intro allI impI)
    fix X assume ok: "config_ok (st # X) s" and "is_stop st" and fuel: "config_weight [st] s < n"
    have "new_order_need (convert_stop st) s < n"
      using fuel convert_stop_type [of st]
      by (auto simp: new_order_need_def config_weight_def convert_weight)
    with 9 config_ok_ids [OF ok, of "convert_stop st"]
    obtain y where "process_new_order n (convert_stop st) s = Inr y" by auto
    then show "\<exists>x. process_triggered_stop n st r s = Inr x"
      by (cases y) (simp add: process_triggered_stop.simps)
  qed
next
  case (11 n o1 s)
  show ?case
  proof (intro allI impI)
    fix X assume ok: "config_ok (o1 # X) s" and fuel: "new_order_need o1 s < Suc n"
    have ok': "config_ok (prepare_order o1 # X) s" using config_ok_ids [OF ok] by simp
    have w: "order_weight (prepare_order o1) + engine_weight s < n"
      using fuel by (simp add: new_order_need_def split: if_splits)
    show "\<exists>x. process_new_order (Suc n) o1 s = Inr x"
    proof (cases "ord_type o1")
      case Limit
      with "11.IH"(1) ok' w obtain y where "match_limit n (prepare_order o1) empty_result s = Inr y"
        by (auto simp: prepare_order_simps)
      then show ?thesis by (cases y) (simp add: process_new_eqs Limit)
    next
      case Market
      with "11.IH"(2) ok' w obtain y where "match_market n (prepare_order o1) empty_result s = Inr y"
        by (auto simp: prepare_order_simps)
      then show ?thesis by (cases y) (simp add: process_new_eqs Market)
    next
      case Iceberg
      with "11.IH"(5) ok' w obtain y where "match_limit n (prepare_order o1) empty_result s = Inr y"
        by (auto simp: prepare_order_simps)
      then show ?thesis by (cases y) (simp add: process_new_eqs Iceberg)
    next
      case Stop
      then have "config_weight [prepare_order o1] s < n"
        using fuel by (simp add: new_order_need_def config_weight_def)
      with "11.IH"(3) Stop ok' show ?thesis
        by (cases "immediately_triggered (prepare_order o1) s")
           (auto simp: process_new_order.simps prepare_order_simps Let_def is_stop_def)
    next
      case StopLimit
      then have "config_weight [prepare_order o1] s < n"
        using fuel by (simp add: new_order_need_def config_weight_def)
      with "11.IH"(4) StopLimit ok' show ?thesis
        by (cases "immediately_triggered (prepare_order o1) s")
           (auto simp: process_new_order.simps prepare_order_simps Let_def is_stop_def)
    qed
  qed
qed (simp_all add: stop_loop.simps)

end
