(* ===== verification/Engine_Fuel.thy ===== *)
theory Engine_Fuel
  imports Engine_Safety
begin

text \<open>
  More fuel never changes a result: a run that returns with some fuel returns the same with any
  larger fuel. Together with \<^verbatim>\<open>Engine_Safety\<close> the result of \<open>submit\<close> does not depend on the bound.
\<close>

lemma bind_res_mono:
  "bind_res m f = Inr x \<Longrightarrow> (\<And>y. m = Inr y \<Longrightarrow> m' = Inr y) \<Longrightarrow> bind_res m' f = Inr x"
  by (cases m) auto

lemma fuel_mono:
  "\<forall>m x. n \<le> m \<longrightarrow> match_limit n a r s = Inr x \<longrightarrow> match_limit m a r s = Inr x"
  "\<forall>m x. n \<le> m \<longrightarrow> match_market n a r s = Inr x \<longrightarrow> match_market m a r s = Inr x"
  "\<forall>m x. n \<le> m \<longrightarrow> execute_fill n a i q r s = Inr x \<longrightarrow> execute_fill m a i q r s = Inr x"
  "\<forall>m x. n \<le> m \<longrightarrow> evaluate_stop_triggers n r s = Inr x \<longrightarrow> evaluate_stop_triggers m r s = Inr x"
  "\<forall>m x. n \<le> m \<longrightarrow> stop_loop n lp ws r s = Inr x \<longrightarrow> stop_loop m lp ws r s = Inr x"
  "\<forall>m x. n \<le> m \<longrightarrow> process_triggered_stop n st r s = Inr x \<longrightarrow> process_triggered_stop m st r s = Inr x"
  "\<forall>m x. n \<le> m \<longrightarrow> process_new_order n o1 s = Inr x \<longrightarrow> process_new_order m o1 s = Inr x"
proof (induction n a r s and n a r s and n a i q r s and n r s and n lp ws r s and n st r s
    and n o1 s rule: engine_induct)
  case (2 n aggr r s)
  show ?case
  proof (intro allI impI)
    fix m x assume m: "Suc n \<le> m" and run: "match_limit (Suc n) aggr r s = Inr x"
    obtain k where k: "m = Suc k" "n \<le> k" using m by (cases m) auto
    obtain a' r' s' where x: "x = (a', r', s')" by (cases x)
    from run [unfolded x] show "match_limit m aggr r s = Inr x"
    proof (cases rule: match_limit_SucE)
      case (iterate e i p s1 a1 r1 s2)
      have "execute_fill k aggr i (min (ord_quantity aggr) (ord_quantity p)) r s1 = Inr (a1, r1, s2)"
        using "2.IH"(1) [OF iterate(1-4) refl refl] iterate(5) k(2) by blast
      moreover have "match_limit k a1 r1 s2 = Inr x"
        using "2.IH"(2) [OF iterate(1-4) refl refl iterate(5) refl refl] iterate(6) k(2) x by blast
      ultimately show ?thesis using iterate by (simp add: k(1) match_limit.simps)
    qed (auto simp: k(1) x match_limit.simps match_done_def split: option.splits)
  qed
next
  case (4 n aggr r s)
  show ?case
  proof (intro allI impI)
    fix m x assume m: "Suc n \<le> m" and run: "match_market (Suc n) aggr r s = Inr x"
    obtain k where k: "m = Suc k" "n \<le> k" using m by (cases m) auto
    obtain a' r' s' where x: "x = (a', r', s')" by (cases x)
    from run [unfolded x] show "match_market m aggr r s = Inr x"
    proof (cases rule: match_market_SucE)
      case (iterate e i p s1 a1 r1 s2)
      have "execute_fill k aggr i (min (ord_quantity aggr) (ord_quantity p)) r s1 = Inr (a1, r1, s2)"
        using "4.IH"(1) [OF iterate(1-3) refl refl] iterate(4) k(2) by blast
      moreover have "match_market k a1 r1 s2 = Inr x"
        using "4.IH"(2) [OF iterate(1-3) refl refl iterate(4) refl refl] iterate(5) k(2) x by blast
      ultimately show ?thesis using iterate by (simp add: k(1) match_market.simps)
    qed (simp_all add: k(1) x match_market.simps)
  qed
next
  case (5 n aggr i q r s)
  show ?case
  proof (intro allI impI)
    fix m x assume m: "n \<le> m" and run: "execute_fill n aggr i q r s = Inr x"
    then obtain a1 t s1 y where f: "apply_fill aggr i q s = Inr (a1, t, s1)"
      and ev: "evaluate_stop_triggers n (push_trade t r) s1 = Inr y" and x: "x = (a1, y)"
      by (auto simp: execute_fill.simps bind_res_Inr_iff)
    from "5" [OF f refl refl] m ev have "evaluate_stop_triggers m (push_trade t r) s1 = Inr y" by blast
    then show "execute_fill m aggr i q r s = Inr x"
      using f x by (cases y) (simp add: execute_fill.simps)
  qed
next
  case (6 n r s)
  show ?case
  proof (cases "pending_stops s = [] \<or> last_trade_price (book s) = 0")
    case True
    then show ?thesis by (auto simp: evaluate_stop_triggers.simps)
  next
    case False
    then have eq: "evaluate_stop_triggers k r s = stop_loop k (last_trade_price (book s))
        (pending_stops s) r (s\<lparr> pending_stops := [] \<rparr>)" for k
      by (simp add: evaluate_stop_triggers.simps)
    from 6 False show ?thesis unfolding eq by blast
  qed
next
  case (8 n lp st working r s)
  show ?case
  proof (intro allI impI)
    fix m x assume m: "n \<le> m" and run: "stop_loop n lp (st # working) r s = Inr x"
    show "stop_loop m lp (st # working) r s = Inr x"
    proof (cases "stop_triggered lp st")
      case True
      with run obtain r1 s1 where p: "process_triggered_stop n st r s = Inr (r1, s1)"
        and l: "stop_loop n lp working r1 s1 = Inr x"
        by (auto simp: stop_loop.simps bind_res_Inr_iff)
      from "8.IH"(1) [OF True] p m have "process_triggered_stop m st r s = Inr (r1, s1)" by blast
      moreover from "8.IH"(2) [OF True p refl] l m have "stop_loop m lp working r1 s1 = Inr x" by blast
      ultimately show ?thesis using True by (simp add: stop_loop.simps)
    next
      case False
      then have eq: "stop_loop k lp (st # working) r s = stop_loop k lp working r
          (s\<lparr> pending_stops := pending_stops s @ [st] \<rparr>)" for k by (simp add: stop_loop.simps)
      from "8.IH"(3) [OF False] run m show ?thesis unfolding eq by blast
    qed
  qed
next
  case (9 n st r s)
  show ?case
  proof (intro allI impI)
    fix m x assume m: "n \<le> m" and run: "process_triggered_stop n st r s = Inr x"
    then obtain sub s1 where p: "process_new_order n (convert_stop st) s = Inr (sub, s1)"
      and x: "x = (append_result r sub, s1)"
      by (auto simp: process_triggered_stop.simps bind_res_Inr_iff)
    from 9 p m have "process_new_order m (convert_stop st) s = Inr (sub, s1)" by blast
    then show "process_triggered_stop m st r s = Inr x" by (simp add: process_triggered_stop.simps x)
  qed
next
  case (11 n o1 s)
  show ?case
  proof (intro allI impI)
    fix m x assume m: "Suc n \<le> m" and run: "process_new_order (Suc n) o1 s = Inr x"
    obtain k where k: "m = Suc k" "n \<le> k" using m by (cases m) auto
    let ?o = "o1\<lparr> ord_status := Resting \<rparr>"
    have ml: "match_limit k (prepare_order o1) empty_result s = Inr y"
      if ty: "ord_type o1 = Limit \<or> ord_type o1 = Iceberg"
        and y: "match_limit n (prepare_order o1) empty_result s = Inr y" for y
    proof (cases "ord_type o1 = Limit")
      case True
      then have p: "prepare_order o1 = ?o" by (simp add: prepare_order_simps)
      from True have "ord_type ?o = Limit" by simp
      from "11.IH"(1) [OF refl this] y k(2) show ?thesis unfolding p by blast
    next
      case False
      then have p: "prepare_order o1 = split_iceberg ?o" using ty by (simp add: prepare_order_simps)
      from False ty have "ord_type ?o = Iceberg" by simp
      from "11.IH"(5) [OF refl this] y k(2) show ?thesis unfolding p by blast
    qed
    have mm: "match_market k (prepare_order o1) empty_result s = Inr y"
      if ty: "ord_type o1 = Market" and y: "match_market n (prepare_order o1) empty_result s = Inr y" for y
    proof -
      have p: "prepare_order o1 = ?o" using ty by (simp add: prepare_order_simps)
      from ty have "ord_type ?o = Market" by simp
      from "11.IH"(2) [OF refl this] y k(2) show ?thesis unfolding p by blast
    qed
    have st: "process_triggered_stop k ?o empty_result s = Inr y"
      if ty: "ord_type o1 = Stop \<or> ord_type o1 = StopLimit" and tr: "immediately_triggered ?o s"
        and y: "process_triggered_stop n ?o empty_result s = Inr y" for y
    proof -
      from ty consider "ord_type ?o = Stop" | "ord_type ?o = StopLimit" by fastforce
      then show ?thesis
      proof cases
        case 1
        from "11.IH"(3) [OF refl this tr] y k(2) show ?thesis by blast
      next
        case 2
        from "11.IH"(4) [OF refl this tr] y k(2) show ?thesis by blast
      qed
    qed
    show "process_new_order m o1 s = Inr x"
    proof (cases "ord_type o1")
      case Limit
      with run ml show ?thesis by (simp add: k(1) process_new_eqs) (blast intro: bind_res_mono)
    next
      case Market
      with run mm show ?thesis by (simp add: k(1) process_new_eqs) (blast intro: bind_res_mono)
    next
      case Iceberg
      with run ml show ?thesis by (simp add: k(1) process_new_eqs) (blast intro: bind_res_mono)
    next
      case Stop
      then show ?thesis using run st by (auto simp: k(1) process_new_order.simps Let_def split: if_splits)
    next
      case StopLimit
      then show ?thesis using run st by (auto simp: k(1) process_new_order.simps Let_def split: if_splits)
    qed
  qed
qed (simp_all add: engine_simps)

end
