(* ===== verification/Engine_Events.thy ===== *)
theory Engine_Events
  imports Engine_Fuel
begin

text \<open>
  The four event handlers and \<open>submit\<close>: well-formedness is kept and no fault occurs for every event
  that satisfies \<open>event_ok\<close>, and what each handler does on each of its branches.

  \<open>event_ok\<close> states what the code relies on without checking it: a new order has an id that no
  resting or pending order has, and a cancelled, modified or replaced order is not marked for
  deletion in its level already (it would be, after it was cancelled and inserted again at the same
  price while its first queue entry was still waiting to be drained).
\<close>

section \<open>Conditions on events\<close>

definition fresh_id :: "order_id \<Rightarrow> engine \<Rightarrow> bool" where
  "fresh_id i s \<longleftrightarrow> fmlookup (id_map (book s)) i = None \<and> i \<notin> ord_id ` set (pending_stops s)"

definition cancellable :: "order_id \<Rightarrow> order_book \<Rightarrow> bool" where
  "cancellable i b \<longleftrightarrow> (case fmlookup (id_map b) i of None \<Rightarrow> True
     | Some o1 \<Rightarrow> i \<notin> stale_of b (ord_side o1) (ord_price o1))"

fun event_ok :: "order_event \<Rightarrow> engine \<Rightarrow> bool" where
  "event_ok (NewOrderEvent o1) s = fresh_id (ord_id o1) s"
| "event_ok (CancelOrderEvent e) s = cancellable (cancel_order_id e) (book s)"
| "event_ok (ModifyOrderEvent e) s = cancellable (mod_order_id e) (book s)"
| "event_ok (ReplaceOrderEvent e) s = (cancellable (old_order_id e) (book s) \<and>
     (fresh_id (ord_id (new_order e)) s \<or> ord_id (new_order e) = old_order_id e))"

section \<open>The handlers keep engines well-formed\<close>

lemma sequence_frame [simp]:
  "config_ok X (s\<lparr> sequence := k \<rparr>) = config_ok X s"
  "engine_ok (s\<lparr> sequence := k \<rparr>) = engine_ok s"
  "engine_weight (s\<lparr> sequence := k \<rparr>) = engine_weight s"
  by (simp_all add: config_ok_def engine_ok_def engine_weight_def stops_only_def)

lemma engine_okD:
  assumes "engine_ok s"
  shows "book_ok (book s)" and "distinct (map ord_id (pending_stops s))" and "stops_only s"
    and "st \<in> set (pending_stops s) \<Longrightarrow> fmlookup (id_map (book s)) (ord_id st) = None"
  using assms by (auto simp: engine_ok_def config_ok_def stops_only_def)

lemma engine_ok_new: "engine_ok (new_engine cfg)"
  by (simp add: engine_ok_def config_ok_def stops_only_def new_engine_def book_ok_empty)

lemma fresh_config: "engine_ok s \<Longrightarrow> fresh_id (ord_id o1) s \<Longrightarrow> config_ok [o1] s"
  by (auto simp: engine_ok_def config_ok_def stops_only_def fresh_id_def)

lemma take_stop_Some:
  "take_stop i ps = Some (st, rest) \<Longrightarrow>
   ord_id st = i \<and> (\<exists>xs ys. ps = xs @ st # ys \<and> rest = xs @ ys \<and> i \<notin> ord_id ` set xs)"
proof (induction ps arbitrary: rest)
  case (Cons x ps)
  show ?case
  proof (cases "ord_id x = i")
    case True
    then have "ord_id st = i \<and> x # ps = [] @ st # ps \<and> rest = [] @ ps" using Cons.prems by simp
    then show ?thesis by force
  next
    case False
    with Cons.prems obtain r1 where r1: "take_stop i ps = Some (st, r1)" "rest = x # r1" by auto
    from Cons.IH [OF r1(1)] obtain xs ys where "ord_id st = i" "ps = xs @ st # ys" "r1 = xs @ ys"
      "i \<notin> ord_id ` set xs" by blast
    then have "x # ps = (x # xs) @ st # ys \<and> rest = (x # xs) @ ys \<and> i \<notin> ord_id ` set (x # xs)"
      using False r1(2) by simp
    then show ?thesis using \<open>ord_id st = i\<close> by blast
  qed
qed simp

lemma take_stop_None: "take_stop i ps = None \<longleftrightarrow> i \<notin> ord_id ` set ps"
  by (induction ps) auto

lemma engine_ok_cancel_book:
  assumes "engine_ok s" and "cancellable i (book s)"
  shows "engine_ok (s\<lparr> book := snd (cancel_order i (book s)) \<rparr>)"
proof (cases "fmlookup (id_map (book s)) i")
  case None
  then show ?thesis using assms(1) by (simp add: cancel_order_None)
next
  case (Some o1)
  then have "i \<notin> stale_of (book s) (ord_side o1) (ord_price o1)"
    using assms(2) by (simp add: cancellable_def)
  from cancel_order_ok [OF engine_okD(1) [OF assms(1)] Some this] assms(1) show ?thesis
    by (auto simp: engine_ok_def config_ok_def stops_only_def cancel_order_fields(1) [OF Some])
qed

lemma process_cancel_ok:
  assumes ok: "engine_ok s" and c: "cancellable (cancel_order_id e) (book s)"
  shows "engine_ok (snd (process_cancel e s))"
proof (cases "take_stop (cancel_order_id e) (pending_stops s)")
  case None
  then show ?thesis
    using ok engine_ok_cancel_book [OF ok c] by (simp add: process_cancel_def split: option.split)
next
  case (Some p)
  obtain st rest where p: "p = (st, rest)" by fastforce
  from take_stop_Some [OF Some [unfolded p]] ok have "engine_ok (s\<lparr> pending_stops := rest \<rparr>)"
    by (auto simp: engine_ok_def config_ok_def stops_only_def)
  then show ?thesis using Some p by (simp add: process_cancel_def)
qed

lemma modified_order_id [simp]: "ord_id (modified_order e o1) = ord_id o1"
  and modified_order_side [simp]: "ord_side (modified_order e o1) = ord_side o1"
  by (simp_all add: modified_order_def Let_def)

lemma engine_ok_reinsert:
  assumes ok: "engine_ok s" and o1: "fmlookup (id_map (book s)) i = Some o1"
    and c: "cancellable i (book s)" and id: "ord_id o2 = i"
  shows "engine_ok (s\<lparr> book := insert_order o2 (snd (cancel_order i (book s))) \<rparr>)"
proof -
  let ?b = "snd (cancel_order i (book s))"
  have ok1: "engine_ok (s\<lparr> book := ?b \<rparr>)" using engine_ok_cancel_book [OF ok c] .
  have none: "fmlookup (id_map ?b) (ord_id o2) = None" by (simp add: cancel_order_fields(1) [OF o1] id)
  have "i \<notin> ord_id ` set (pending_stops s)" using engine_okD(4) [OF ok] o1 by force
  then show ?thesis
    using ok1 insert_order_ok [of ?b o2] none id by (auto simp: engine_ok_def config_ok_def stops_only_def)
qed

lemma update_order_quantity_map:
  "id_map (update_order_quantity i q b) = (case fmlookup (id_map b) i of
     None \<Rightarrow> id_map b | Some o1 \<Rightarrow> fmupd i (o1\<lparr> ord_quantity := q \<rparr>) (id_map b))"
  by (simp add: update_order_quantity_def split: option.split)

lemma process_modify_ok:
  assumes ok: "engine_ok s" and c: "cancellable (mod_order_id e) (book s)"
  shows "engine_ok (snd (process_modify e s))"
proof (cases "find_order (mod_order_id e) (book s)")
  case None
  then show ?thesis using ok by (simp add: process_modify_def)
next
  case (Some o1)
  then have o1: "fmlookup (id_map (book s)) (mod_order_id e) = Some o1" by (simp add: find_order_def)
  have id: "ord_id (modified_order e o1) = mod_order_id e"
    using book_ok_id [OF engine_okD(1) [OF ok] o1] by simp
  let ?b = "reduce_level_volume (ord_side o1) (ord_price o1) (ord_quantity o1 - mod_new_quantity e)
      (update_order_quantity (mod_order_id e) (mod_new_quantity e) (book s))"
  have "book_ok ?b" using engine_okD(1) [OF ok] by (simp add: reduce_level_volume_ok update_order_quantity_ok)
  then have "engine_ok (s\<lparr> book := ?b \<rparr>)"
    using ok o1 by (auto simp: engine_ok_def config_ok_def stops_only_def update_order_quantity_map)
  then show ?thesis
    using Some ok engine_ok_reinsert [OF ok o1 c id] by (simp add: process_modify_def Let_def)
qed

section \<open>Submission returns and keeps engines well-formed\<close>

lemma new_order_returns:
  assumes ok: "engine_ok s" and fr: "fresh_id (ord_id o1) s"
    and n: "order_weight (prepare_order o1) + engine_weight s + 5 \<le> n"
  shows "\<exists>r s1. process_new_order n o1 s = Inr (r, s1) \<and> engine_ok s1"
proof -
  note c = fresh_config [OF ok fr]
  have "new_order_need o1 s < n" using n by (simp add: new_order_need_def)
  with engine_returns(7) c obtain y where y: "process_new_order n o1 s = Inr y" by blast
  obtain r s1 where eq: "y = (r, s1)" by fastforce
  have "config_ok [] s1"
    using ok_inv.new_order [OF y [unfolded eq] engine_okD(3) [OF ok]] config_ok_ids [OF c] by simp
  then show ?thesis using y eq by (simp add: engine_ok_def)
qed

lemma cancel_weight:
  "engine_weight (s\<lparr> book := snd (cancel_order i (book s)) \<rparr>) \<le> engine_weight s"
proof (cases "fmlookup (id_map (book s)) i")
  case None
  then show ?thesis by (simp add: cancel_order_None)
next
  case (Some o1)
  then show ?thesis using fmsum_drop [OF Some, of order_weight]
    by (simp add: engine_weight_def cancel_order_fields(1) [OF Some])
qed

text \<open>After the old order of a replacement is gone, its id and the new one are free.\<close>

lemma replace_ready:
  assumes ok: "engine_ok s" and ev: "event_ok (ReplaceOrderEvent e) s"
    and h: "has_order (old_order_id e) (book s)"
  shows "engine_ok (s\<lparr> book := snd (cancel_order (old_order_id e) (book s)) \<rparr>)"
    and "fresh_id (ord_id (new_order e)) (s\<lparr> book := snd (cancel_order (old_order_id e) (book s)) \<rparr>)"
proof -
  obtain o1 where o1: "fmlookup (id_map (book s)) (old_order_id e) = Some o1"
    using h by (auto simp: has_order_def)
  let ?s = "s\<lparr> book := snd (cancel_order (old_order_id e) (book s)) \<rparr>"
  show "engine_ok ?s" using engine_ok_cancel_book [OF ok] ev by simp
  have "old_order_id e \<notin> ord_id ` set (pending_stops s)" using engine_okD(4) [OF ok] o1 by force
  then show "fresh_id (ord_id (new_order e)) ?s"
    using ev by (cases "ord_id (new_order e) = old_order_id e")
      (simp_all add: fresh_id_def cancel_order_fields(1) [OF o1])
qed

lemma process_replace_returns:
  assumes ok: "engine_ok s" and ev: "event_ok (ReplaceOrderEvent e) s"
    and n: "order_weight (prepare_order (new_order e)) + engine_weight s + 5 \<le> n"
  shows "\<exists>r s1. process_replace n e s = Inr (r, s1) \<and> engine_ok s1"
proof (cases "has_order (old_order_id e) (book s)")
  case False
  then show ?thesis using ok by (simp add: process_replace_def)
next
  case True
  let ?s = "s\<lparr> book := snd (cancel_order (old_order_id e) (book s)) \<rparr>"
  have "order_weight (prepare_order (new_order e)) + engine_weight ?s + 5 \<le> n"
    using n cancel_weight [of "old_order_id e" s] by simp
  from new_order_returns [OF replace_ready [OF ok ev True] this] obtain r s1
    where "process_new_order n (new_order e) ?s = Inr (r, s1)" "engine_ok s1" by blast
  then show ?thesis using True by (simp add: process_replace_def)
qed

lemma submit_fuel_returns:
  assumes ok: "engine_ok s" and ev: "event_ok ev s" and n: "event_fuel ev s \<le> n"
  shows "\<exists>r s1. submit_fuel n ev s = Inr (r, s1) \<and> engine_ok s1"
proof -
  let ?s = "s\<lparr> sequence := sequence s + 1 \<rparr>"
  have ok1: "engine_ok ?s" using ok by simp
  show ?thesis
  proof (cases ev)
    case (NewOrderEvent o1)
    then show ?thesis using new_order_returns [OF ok1, of o1 n] ev n
      by (simp add: submit_fuel_def event_fuel_def fresh_id_def)
  next
    case (CancelOrderEvent e)
    then show ?thesis using process_cancel_ok [OF ok1, of e] ev
      by (cases "process_cancel e ?s") (simp add: submit_fuel_def)
  next
    case (ModifyOrderEvent e)
    then show ?thesis using process_modify_ok [OF ok1, of e] ev
      by (cases "process_modify e ?s") (simp add: submit_fuel_def)
  next
    case (ReplaceOrderEvent e)
    then show ?thesis using process_replace_returns [OF ok1, of e n] ev n
      by (simp add: submit_fuel_def event_fuel_def fresh_id_def)
  qed
qed

lemma submit_fuel_mono:
  assumes "n \<le> m" and "submit_fuel n ev s = Inr x"
  shows "submit_fuel m ev s = Inr x"
proof (cases ev)
  case (NewOrderEvent o1)
  with assms(2) have "process_new_order n o1 (s\<lparr> sequence := sequence s + 1 \<rparr>) = Inr x"
    by (simp add: submit_fuel_def)
  with assms(1) fuel_mono(7) have "process_new_order m o1 (s\<lparr> sequence := sequence s + 1 \<rparr>) = Inr x"
    by blast
  then show ?thesis by (simp add: NewOrderEvent submit_fuel_def)
next
  case (ReplaceOrderEvent e)
  show ?thesis
  proof (cases "has_order (old_order_id e) (book s)")
    case False
    then show ?thesis using assms ReplaceOrderEvent by (simp add: submit_fuel_def process_replace_def)
  next
    case True
    then have "submit_fuel k ev s = bind_res (process_new_order k (new_order e)
        (s\<lparr> sequence := sequence s + 1, book := snd (cancel_order (old_order_id e) (book s)) \<rparr>))
        (\<lambda>(sub, s1). Inr (append_result empty_result sub, s1))" for k
      using ReplaceOrderEvent by (simp add: submit_fuel_def process_replace_def)
    note eq = this
    show ?thesis unfolding eq
      by (rule bind_res_mono [OF assms(2) [unfolded eq]]) (use fuel_mono(7) assms(1) in blast)
  qed
qed (use assms in \<open>simp_all add: submit_fuel_def\<close>)

section \<open>Invariants over a submission\<close>

abbreviation counted :: "engine \<Rightarrow> engine" where
  "counted s \<equiv> s\<lparr> sequence := sequence s + 1 \<rparr>"

lemma submit_new_run:
  "submit (NewOrderEvent o1) s =
     process_new_order (event_fuel (NewOrderEvent o1) s) o1 (counted s)"
  by (simp add: submit_def submit_fuel_def)

lemma submit_replace_run:
  "has_order (old_order_id e) (book s) \<Longrightarrow> submit (ReplaceOrderEvent e) s =
     process_new_order (event_fuel (ReplaceOrderEvent e) s) (new_order e)
       ((counted s)\<lparr> book := snd (cancel_order (old_order_id e) (book s)) \<rparr>)"
  by (cases "process_new_order (event_fuel (ReplaceOrderEvent e) s) (new_order e)
       ((counted s)\<lparr> book := snd (cancel_order (old_order_id e) (book s)) \<rparr>)")
     (auto simp: submit_def submit_fuel_def process_replace_def)

lemma stops_only_counted [simp]: "stops_only (s\<lparr> sequence := k \<rparr>) = stops_only s"
  "stops_only (s\<lparr> book := b \<rparr>) = stops_only s"
  by (simp_all add: stops_only_def)

context step_invariant begin

lemma submitted_new:
  assumes "submit (NewOrderEvent o1) s = Inr (r, s1)" and "stops_only s"
    and "I [prepare_order o1] (counted s) empty_result"
  shows "I [] s1 r"
  using new_order [OF assms(1) [unfolded submit_new_run], of "[]" empty_result] assms(2,3) by simp

end

end
