(* ===== verification/Engine_Outcomes.thy ===== *)
theory Engine_Outcomes
  imports Engine_Invariants
begin

text \<open>
  What becomes of a submitted order: a limit order trades until no order of the other side is within
  its limit and rests with the remainder behind the orders of its price; a market order trades until
  it is filled or the other side is empty. Also the lists of events that keep to the conditions
  \<open>event_ok\<close>, on which the engine never faults.
\<close>

section \<open>How the loops end\<close>

lemma match_limit_remainder:
  "match_limit n a r s = Inr (a', r', s') \<Longrightarrow> ord_quantity a' \<noteq> 0 \<Longrightarrow>
   a' = a\<lparr> ord_quantity := ord_quantity a' \<rparr>"
proof (induction n arbitrary: a r s)
  case 0
  then show ?case by (simp add: engine_simps)
next
  case (Suc n)
  from Suc.prems(1) show ?case
  proof (cases rule: match_limit_SucE)
    case (iterate e i p s1 a1 r1 s2)
    then obtain q where "a1 = a\<lparr> ord_quantity := ord_quantity a - q \<rparr>"
      by (auto simp: execute_fill.simps bind_res_Inr_iff dest: apply_fill_aggr)
    then show ?thesis using Suc.IH [OF iterate(6) Suc.prems(2)] by simp
  qed (use Suc.prems in simp_all)
qed

text \<open>The configuration in which a market order leaves its loop.\<close>

lemma match_market_end:
  "match_market n a r s = Inr (a', r', s') \<Longrightarrow> stops_only s \<Longrightarrow> ord_type a = Market \<Longrightarrow>
   \<exists>a0 r0. msteps (a # X, s, r) (a0 # X, s', r0) \<and> ord_id a0 = ord_id a \<and> ord_side a0 = ord_side a \<and> ord_type a0 = Market \<and>
     (ord_quantity a0 = 0 \<and> r' = r0 \<or>
      ord_quantity a0 \<noteq> 0 \<and> passive_level a0 (book s') = None \<and> r' = push_rejection (market_exhausted a0) r0)"
proof (induction n arbitrary: a r s)
  case 0
  then show ?case by (simp add: engine_simps)
next
  case (Suc n)
  from Suc.prems(1) show ?case
  proof (cases rule: match_market_SucE)
    case zero
    then show ?thesis using Suc.prems(3) by blast
  next
    case empty
    then show ?thesis using Suc.prems(3) by blast
  next
    case (iterate e i p s1 a1 r1 s2)
    have so1: "stops_only s1"
      using Suc.prems(2) passive_front_frame [OF iterate(3)] by (simp add: stops_only_def)
    from engine_runs_msteps(3) iterate(4) so1 obtain t s3
      where f: "apply_fill a i (min (ord_quantity a) (ord_quantity p)) s1 = Inr (a1, t, s3)"
        and m: "msteps (a1 # X, s3, append_result empty_result (push_trade t r))
                  (a1 # X, s2, append_result empty_result r1)" by blast
    have m1: "msteps (a # X, s, r) (a1 # X, s2, r1)"
      using fill_then_stops [OF iterate(1,2) _ iterate(3) f, of X empty_result r] m Suc.prems(3) by simp
    have st: "ord_type a1 = Market" "ord_id a1 = ord_id a" "ord_side a1 = ord_side a"
      using apply_fill_aggr [OF f] Suc.prems(3) by simp_all
    from Suc.IH [OF iterate(5) msteps_stops_only [OF m1 Suc.prems(2)] st(1)] obtain a0 r0
      where m2: "msteps (a1 # X, s2, r1) (a0 # X, s', r0)" and a0: "ord_id a0 = ord_id a1"
        "ord_side a0 = ord_side a1" "ord_type a0 = Market" and r0: "ord_quantity a0 = 0 \<and> r' = r0 \<or> ord_quantity a0 \<noteq> 0 \<and>
           passive_level a0 (book s') = None \<and> r' = push_rejection (market_exhausted a0) r0" by blast
    show ?thesis
      by (intro exI conjI, rule rtranclp_trans [OF m1 m2]) (use a0 r0 st in auto)
  qed
qed

lemma open_plain: "ord_reserve_qty a = 0 \<Longrightarrow> open_qty a = unat (ord_quantity a)"
  by (simp add: open_qty_def)

section \<open>Submitted limit orders\<close>

lemma open_of_absent:
  assumes "config_ok (a # X) s"
  shows "open_of (ord_id a) s = 0" and "listed (ord_id a) X = 0"
  using config_ok_top [OF assms] by (auto simp: open_of_def booked_def listed_def filter_empty_conv)

lemma start_ok:
  assumes "engine_ok s" and "fresh_id (ord_id o1) s"
  shows "config_ok [prepare_order o1] (counted s)"
  using config_ok_ids [OF fresh_config [OF assms], of "prepare_order o1"] by simp

text \<open>The open quantity an order brings: an iceberg its peak and the reserve behind it.\<close>

definition well_formed_order :: "order \<Rightarrow> bool" where
  "well_formed_order o1 \<longleftrightarrow> (if ord_type o1 = Iceberg
     then 0 < ord_peak_qty o1 \<and> ord_peak_qty o1 \<le> ord_quantity o1
     else ord_reserve_qty o1 = 0)"

lemma prepare_open:
  "well_formed_order o1 \<Longrightarrow> open_qty (prepare_order o1) = unat (ord_quantity o1)"
  "well_formed_order o1 \<Longrightarrow> plain (prepare_order o1)"
  by (auto simp: well_formed_order_def prepare_order_def split_iceberg_def open_qty_def is_iceberg_def
      plain_def Let_def unat_sub_le word_le_nat_alt)

lemma account_start:
  assumes ok: "engine_ok s" and fr: "fresh_id (ord_id o1) s" and wf: "well_formed_order o1"
    and pl: "\<forall>st\<in>set (pending_stops s). plain st"
  shows "account_ok i (open_of i s + (if i = ord_id o1 then unat (ord_quantity o1) else 0))
           [prepare_order o1] (counted s) empty_result"
  using start_ok [OF ok fr] prepare_open [OF wf] pl
  by (simp add: account_ok_def open_of_def booked_def exhausted_def)

lemma process_limit_run:
  assumes run: "process_new_order n o1 s = Inr (r, s1)" and ty: "ord_type o1 = Limit \<or> ord_type o1 = Iceberg"
    and so: "stops_only s"
  obtains a s2 where "msteps ([prepare_order o1], s, empty_result) ([a], s2, r)"
    and "match_done a (book s2)" and "s1 = (if must_rest a then rest_order a s2 else s2)"
    and "ord_id a = ord_id o1" and "ord_side a = ord_side o1" and "ord_price a = ord_price o1"
    and "ord_type a = ord_type o1"
    and "ord_reserve_qty a = ord_reserve_qty (prepare_order o1)" and "ord_peak_qty a = ord_peak_qty o1"
    and "ord_quantity a \<noteq> 0 \<Longrightarrow> a = (prepare_order o1)\<lparr> ord_quantity := ord_quantity a \<rparr>"
proof -
  obtain k where k: "n = Suc k" using run by (cases n) (simp_all add: engine_simps)
  from process_new_limit [OF run [unfolded k] ty] obtain a s2
    where m: "match_limit k (prepare_order o1) empty_result s = Inr (a, r, s2)"
      and s1: "s1 = (if must_rest a then rest_order a s2 else s2)" by blast
  have nm: "ord_type (prepare_order o1) \<noteq> Market" using ty by (auto simp: prepare_order_simps)
  have "msteps ([prepare_order o1], s, append_result empty_result empty_result)
      ([a], s2, append_result empty_result r) \<and> match_done a (book s2)"
    using engine_runs_msteps(1) m so nm by blast
  then have ms: "msteps ([prepare_order o1], s, empty_result) ([a], s2, r)"
    and md: "match_done a (book s2)" by simp_all
  have p: "ord_side (prepare_order o1) = ord_side o1" "ord_price (prepare_order o1) = ord_price o1"
    "ord_peak_qty (prepare_order o1) = ord_peak_qty o1"
    by (auto simp: prepare_order_def split_iceberg_def Let_def)
  show ?thesis
    using that [OF ms md s1] match_static [OF m] match_limit_remainder [OF m] p
    by (simp add: prepare_order_simps)
qed

lemma queue_rest_last:
  assumes "config_ok (a # X) s"
  shows "\<exists>ids. queue_of (book (rest_order a s)) (ord_side a) (ord_price a) = ids @ [ord_id a]"
  using insert_order_queue(1) [of "book s" a "ord_side a" "ord_price a"] assms
  by (auto simp: rest_order_def config_ok_def)

lemma limit_order_result:
  assumes ok: "engine_ok s" and fr: "fresh_id (ord_id o1) s" and ty: "ord_type o1 = Limit"
    and res: "ord_reserve_qty o1 = 0" and pl: "\<forall>st\<in>set (pending_stops s). plain st"
    and run: "submit (NewOrderEvent o1) s = Inr (r, s1)"
  shows "\<exists>v. unat v + traded (ord_id o1) (trades r) = unat (ord_quantity o1) \<and>
    fmlookup (id_map (book s1)) (ord_id o1) =
      (if v = 0 then None else Some (o1\<lparr> ord_status := Resting, ord_quantity := v \<rparr>)) \<and>
    (v \<noteq> 0 \<longrightarrow> (\<exists>ids. queue_of (book s1) (ord_side o1) (ord_price o1) = ids @ [ord_id o1]) \<and>
       (\<forall>p. queue_of (book s1) (opp (ord_side o1)) p \<noteq> [] \<longrightarrow>
              better (opp (ord_side o1)) (ord_price o1) p))"
proof -
  let ?i = "ord_id o1"
  have so: "stops_only (counted s)" using engine_okD(3) [OF ok] by simp
  have ty': "ord_type o1 = Limit \<or> ord_type o1 = Iceberg" using ty by simp
  have prep: "ord_reserve_qty (prepare_order o1) = 0" using ty res by (simp add: prepare_order_simps)
  obtain a s2
    where m: "msteps ([prepare_order o1], counted s, empty_result) ([a], s2, r)"
      and md: "match_done a (book s2)" and s1: "s1 = (if must_rest a then rest_order a s2 else s2)"
      and st: "ord_id a = ?i" "ord_side a = ord_side o1" "ord_price a = ord_price o1" "ord_type a = Limit"
        "ord_reserve_qty a = 0"
      and eq: "ord_quantity a \<noteq> 0 \<Longrightarrow> a = (prepare_order o1)\<lparr> ord_quantity := ord_quantity a \<rparr>"
    by (rule process_limit_run [OF run [unfolded submit_new_run] ty' so]) (use ty prep in simp)
  have wf: "well_formed_order o1" using ty res by (simp add: well_formed_order_def)
  note o0 = open_of_absent(1) [OF fresh_config [OF ok fr]]
  have acc: "account_ok ?i (unat (ord_quantity o1)) [a] s2 r"
    using accounting.run [OF m account_start [OF ok fr wf pl, of ?i]] o0 by simp
  have "unrejected_inv ?i [a] s2 r"
    using unrejected.run [OF m, of ?i] start_ok [OF ok fr] by (simp add: unrejected_inv_def exhausted_def)
  then have nrej: "?i \<notin> exhausted r" using st(1) by (simp add: unrejected_inv_def)
  have ok2: "config_ok [a] s2" using acc by (simp add: account_ok_def)
  have sum: "unat (ord_quantity a) + traded ?i (trades r) = unat (ord_quantity o1)"
    using acc nrej open_of_absent [OF ok2] st by (simp add: account_ok_def open_plain)
  show ?thesis
  proof (cases "ord_quantity a = 0")
    case True
    then have "s1 = s2" using s1 st by (simp add: must_rest_def)
    then show ?thesis using sum True config_ok_top(1) [OF ok2] st(1) by (intro exI [of _ 0]) simp
  next
    case False
    then have s1': "s1 = rest_order a s2"
      using s1 by (simp add: must_rest_def word_gt_0_unat unat_pos_iff)
    have a: "a = o1\<lparr> ord_status := Resting, ord_quantity := ord_quantity a \<rparr>"
      using eq [OF False] ty by (simp add: prepare_order_simps)
    have look: "fmlookup (id_map (book s1)) ?i = Some (o1\<lparr> ord_status := Resting, ord_quantity := ord_quantity a \<rparr>)"
      using s1' st(1) a by simp
    have bk2: "book_ok (book s2)" and nf: "fmlookup (id_map (book s2)) (ord_id a) = None"
      using ok2 by (simp_all add: config_ok_def)
    have side: "opp (ord_side a) \<noteq> ord_side a" by (cases "ord_side a") simp_all
    have "\<forall>p. queue_of (book s1) (opp (ord_side o1)) p \<noteq> [] \<longrightarrow> better (opp (ord_side o1)) (ord_price o1) p"
      using match_done_levels [OF bk2 md False] insert_order_queue(1) [OF bk2 nf] st(2,3) side
      by (simp add: s1' rest_order_def)
    then show ?thesis
      using sum look queue_rest_last [OF ok2] s1' st False by (intro exI [of _ "ord_quantity a"]) simp
  qed
qed

section \<open>Submitted market orders\<close>

lemma market_order_result:
  assumes ok: "engine_ok s" and fr: "fresh_id (ord_id o1) s" and ty: "ord_type o1 = Market"
    and res: "ord_reserve_qty o1 = 0" and pl: "\<forall>st\<in>set (pending_stops s). plain st"
    and run: "submit (NewOrderEvent o1) s = Inr (r, s1)"
  shows "fmlookup (id_map (book s1)) (ord_id o1) = None \<and> ord_id o1 \<notin> ord_id ` set (pending_stops s1) \<and>
    (if ord_id o1 \<in> exhausted r
     then traded (ord_id o1) (trades r) < unat (ord_quantity o1) \<and>
          (\<forall>p. queue_of (book s1) (opp (ord_side o1)) p = [])
     else traded (ord_id o1) (trades r) = unat (ord_quantity o1))"
proof -
  let ?i = "ord_id o1"
  have so: "stops_only (counted s)" using engine_okD(3) [OF ok] by simp
  let ?n = "event_fuel (NewOrderEvent o1) s"
  obtain k where k: "?n = Suc k" by (cases ?n) (simp_all add: event_fuel_def)
  have tyM: "ord_type (prepare_order o1) = Market" using ty by (simp add: prepare_order_simps)
  obtain a' where mm: "match_market k (prepare_order o1) empty_result (counted s) = Inr (a', r, s1)"
    using run [unfolded submit_new_run k] ty by (auto simp: process_new_eqs bind_res_Inr_iff)
  from match_market_end [OF mm so tyM, of "[]"] obtain a0 r0
    where m: "msteps ([prepare_order o1], counted s, empty_result) ([a0], s1, r0)"
      and a0: "ord_id a0 = ?i" "ord_side a0 = ord_side (prepare_order o1)" "ord_type a0 = Market"
      and e: "ord_quantity a0 = 0 \<and> r = r0 \<or> ord_quantity a0 \<noteq> 0 \<and> passive_level a0 (book s1) = None
        \<and> r = push_rejection (market_exhausted a0) r0" by auto
  have sd: "ord_side (prepare_order o1) = ord_side o1" using ty by (simp add: prepare_order_simps)
  have wf: "well_formed_order o1" using ty res by (simp add: well_formed_order_def)
  have acc: "account_ok ?i (unat (ord_quantity o1)) [a0] s1 r0"
    using accounting.run [OF m account_start [OF ok fr wf pl, of ?i]]
      open_of_absent(1) [OF fresh_config [OF ok fr]] by simp
  have ok1: "config_ok [a0] s1" and pl0: "plain a0" using acc by (simp_all add: account_ok_def)
  have "unrejected_inv ?i [a0] s1 r0"
    using unrejected.run [OF m, of ?i] start_ok [OF ok fr] by (simp add: unrejected_inv_def exhausted_def)
  then have nrej: "?i \<notin> exhausted r0" using a0(1) by (simp add: unrejected_inv_def)
  have op: "open_qty a0 + traded ?i (trades r0) = unat (ord_quantity o1)"
    using acc nrej open_of_absent [OF ok1] a0(1) by (auto simp: account_ok_def)
  have sum: "unat (ord_quantity a0) + traded ?i (trades r0) = unat (ord_quantity o1)"
    using op pl0 a0(3) by (simp add: plain_def open_plain)
  have gone: "fmlookup (id_map (book s1)) ?i = None" "?i \<notin> ord_id ` set (pending_stops s1)"
    using config_ok_top [OF ok1] a0(1) by force+
  show ?thesis
    using e
  proof
    assume "ord_quantity a0 = 0 \<and> r = r0"
    then show ?thesis using gone nrej sum by simp
  next
    assume x: "ord_quantity a0 \<noteq> 0 \<and> passive_level a0 (book s1) = None \<and> r = push_rejection (market_exhausted a0) r0"
    then have "side_levels (opp (ord_side o1)) (book s1) = []"
      using a0(2) sd by (auto simp: passive_level_sd split: list.splits)
    moreover have "?i \<in> exhausted r" using x a0(1) by (auto simp: exhausted_def market_exhausted_def)
    moreover have "0 < unat (ord_quantity a0)" using x by (simp add: unat_pos_iff)
    ultimately show ?thesis using gone sum x by (simp add: queue_of_def queue_at_def)
  qed
qed

end
