(* ===== verification/Engine_History.thy ===== *)
theory Engine_History
  imports Engine_Outcomes
begin

text \<open>
  Lists of events. \<open>events_ok\<close> runs the engine and asks \<open>event_ok\<close> of every event in the state it
  meets. \<open>disciplined\<close> is a condition on the list alone: every new order has an id never used
  before, and no order is modified. It implies \<open>events_ok\<close>, because an id that was removed from
  the book never comes back, so no queue holds a stale entry of a live order (\<open>history_ok\<close>).
\<close>

section \<open>Checked runs\<close>

fun events_ok :: "order_event list \<Rightarrow> engine \<Rightarrow> bool" where
  "events_ok [] s = True"
| "events_ok (ev # evs) s = (event_ok ev s \<and>
     (case submit ev s of Inl f \<Rightarrow> False | Inr (r, s1) \<Rightarrow> events_ok evs s1))"

lemma submit_returns:
  assumes "engine_ok s" and "event_ok ev s"
  shows "\<exists>r s1. submit ev s = Inr (r, s1) \<and> engine_ok s1"
  using submit_fuel_returns [OF assms order_refl] by (simp add: submit_def)

lemma run_events_returns:
  "engine_ok s \<Longrightarrow> events_ok evs s \<Longrightarrow> \<exists>rs s1. run_events evs s = Inr (rs, s1) \<and> engine_ok s1
     \<and> length rs = length evs"
proof (induction evs arbitrary: s)
  case (Cons ev evs)
  from Cons.prems have "event_ok ev s" by simp
  from submit_returns [OF Cons.prems(1) this] obtain r s1 where s1: "submit ev s = Inr (r, s1)" "engine_ok s1"
    by blast
  with Cons.prems have "events_ok evs s1" by simp
  from Cons.IH [OF s1(2) this] s1(1) show ?case by auto
qed simp

section \<open>Stale entries\<close>

lemma stale_set_level:
  "stale_of (set_level sd p l b) sd' p' \<subseteq>
     (if sd' = sd \<and> p' = p then lvl_cancelled l else stale_of b sd' p')"
proof (cases "p \<in> fst ` set (side_levels sd b)")
  case True
  then show ?thesis by (simp add: stale_of_def stale_at_def set_level_def map_of_put)
next
  case False
  then have "map_of (side_levels sd b) p = None" by (simp add: map_of_eq_None_iff)
  with False show ?thesis by (simp add: stale_of_def stale_at_def set_level_def map_of_put)
qed

lemma stale_get_level: "get_level sd p b = Some l \<Longrightarrow> stale_of b sd p = lvl_cancelled l"
  by (simp add: stale_of_def stale_at_def get_level_def)

lemma stale_cancel: "stale_of (snd (cancel_order i b)) sd p \<subseteq> insert i (stale_of b sd p)"
proof (cases "fmlookup (id_map b) i")
  case None
  then show ?thesis by (simp add: cancel_order_None subset_insertI)
next
  case (Some o1)
  have "stale_at (side_cancel (ord_price o1) i v m) p \<subseteq> insert i (stale_at m p)" for v m
    using drain_cancelled_subset
    by (fastforce simp: side_cancel_def stale_at_def level_empty_eq level_remove_def map_of_put map_of_erase
        split: option.splits if_splits)
  then show ?thesis by (auto simp: cancel_order_sd [OF Some] stale_of_def)
qed

lemma stale_push: "lvl_cancelled (level_push_back i v l) = lvl_cancelled l"
  by (simp add: level_push_back_def)

lemma stale_pop:
  "level_pop_front v l = Inr l1 \<Longrightarrow> lvl_cancelled l1 \<subseteq> lvl_cancelled l"
  using drain_cancelled_subset [of l]
  by (auto simp: level_pop_front_def Let_def split: list.splits)

lemma stale_update: "stale_of (update_order_quantity j v c) = stale_of c"
  by (simp add: update_order_quantity_def split: option.split)

lemma stale_replenish:
  assumes "replenish_iceberg i q b = Inr b1"
  shows "stale_of b1 sd pr \<subseteq> stale_of b sd pr"
proof (cases "find_order i b")
  case None
  then show ?thesis using assms by (simp add: replenish_iceberg_def)
next
  case p: (Some p)
  show ?thesis
  proof (cases "get_level (ord_side p) (ord_price p) b")
    case None
    then show ?thesis using assms p by (simp add: replenish_iceberg_def)
  next
    case l: (Some l)
    let ?np = "min (ord_peak_qty p) (ord_reserve_qty p)"
    from assms p l obtain l1 where l1: "level_pop_front q l = Inr l1"
      and b1: "b1 = update_order_quantity (ord_id p) ?np (set_level (ord_side p) (ord_price p)
        (level_push_back (ord_id p) ?np l1) (set_order i (p\<lparr> ord_reserve_qty := ord_reserve_qty p - ?np,
           ord_quantity := ?np \<rparr>) b))"
      by (auto simp: replenish_iceberg_def bind_res_Inr_iff Let_def)
    show ?thesis
      using stale_pop [OF l1] stale_get_level [OF l]
        order_trans [OF stale_set_level [of "ord_side p" "ord_price p" "level_push_back (ord_id p) ?np l1"]]
      by (simp add: b1 stale_update stale_push)
  qed
qed

lemma stale_settle:
  assumes "settle_passive i q b = Inr b1" and "fmlookup (id_map b) i = Some p" and "ord_id p = i"
  shows "stale_of b1 sd pr \<subseteq> stale_of b sd pr \<union>
    (if ord_quantity p = 0 \<and> \<not> (is_iceberg p \<and> 0 < ord_reserve_qty p) then {i} else {})"
proof -
  consider (rep) "ord_quantity p = 0" "is_iceberg p" "0 < ord_reserve_qty p"
    | (gone) "ord_quantity p = 0" "\<not> (is_iceberg p \<and> 0 < ord_reserve_qty p)" | (part) "ord_quantity p \<noteq> 0"
    by blast
  then show ?thesis
  proof cases
    case rep
    with assms show ?thesis using stale_replenish by (simp add: settle_passive_def find_order_def)
  next
    case gone
    then have "b1 = snd (cancel_order i (set_order i (p\<lparr> ord_status := Filled \<rparr>) b))"
      using assms by (auto simp: settle_passive_def find_order_def)
    then show ?thesis
      using gone stale_cancel [of i "set_order i (p\<lparr> ord_status := Filled \<rparr>) b" sd pr] by simp
  next
    case part
    show ?thesis
    proof (cases "get_level (ord_side p) (ord_price p) b")
      case None
      then have b1: "b1 = update_order_quantity i (ord_quantity p) b"
        using part assms by (simp add: settle_passive_def find_order_def)
      show ?thesis by (simp add: b1 stale_update)
    next
      case (Some l)
      then have b1: "b1 = update_order_quantity i (ord_quantity p)
          (set_level (ord_side p) (ord_price p) (reduce_front_volume q l) b)"
        using part assms by (simp add: settle_passive_def find_order_def)
      show ?thesis
        using stale_get_level [OF Some] part
          stale_set_level [of "ord_side p" "ord_price p" "reduce_front_volume q l" b sd pr]
        by (auto simp: b1 stale_update reduce_front_volume_def split: if_splits)
    qed
  qed
qed

lemma stale_fill:
  assumes bk: "book_ok (book s)" and lev: "passive_level a (book s) = Some e"
    and front: "passive_front a e s = Inr (i, p, s1)"
    and fill: "apply_fill a i q s1 = Inr (a1, t, s2)"
  shows "stale_of (book s2) sd pr \<subseteq> stale_of (book s) sd pr \<union>
    (if passive_after p q = None then {i} else {})"
proof -
  let ?sd = "opp (ord_side a)"
  obtain pr0 l0 where e: "e = (pr0, l0)" by fastforce
  from front [unfolded e] obtain l1 where l1: "level_front l0 = Inr (i, l1)"
    and s1: "s1 = s\<lparr> book := set_level ?sd pr0 l1 (book s) \<rparr>" and p: "fmlookup (id_map (book s)) i = Some p"
    by (auto simp: passive_front_def bind_res_Inr_iff find_order_def Let_def split: option.splits)
  have "get_level ?sd pr0 (book s) = Some l0"
    using lev e by (auto simp: passive_level_sd get_level_def split: list.splits)
  moreover have "lvl_cancelled l1 \<subseteq> lvl_cancelled l0"
    using l1 drain_cancelled_subset [of l0] by (auto simp: level_front_def Let_def split: list.splits)
  ultimately have sub1: "stale_of (book s1) sd pr \<subseteq> stale_of (book s) sd pr"
    using stale_set_level [of ?sd pr0 l1 "book s" sd pr] stale_get_level [of ?sd pr0 "book s" l0]
    by (auto simp: s1 split: if_splits)
  let ?p1 = "p\<lparr> ord_quantity := ord_quantity p - q \<rparr>"
  let ?b1 = "(set_order i ?p1 (book s1))\<lparr> last_trade_price := ord_price p \<rparr>"
  have p1: "fmlookup (id_map (book s1)) i = Some p" using p s1 by simp
  obtain b2 where b2: "settle_passive i q ?b1 = Inr b2" "book s2 = b2"
    using fill p1 by (auto simp: apply_fill_def find_order_def bind_res_Inr_iff)
  have id: "ord_id ?p1 = i" using book_ok_id [OF bk p] by simp
  have "fmlookup (id_map ?b1) i = Some ?p1" by simp
  from stale_settle [OF b2(1) this id, of sd pr] sub1 b2(2) show ?thesis
    by (auto simp: passive_after_def replenishes_def is_iceberg_def split: if_splits)
qed

lemma stale_insert:
  "book_ok b \<Longrightarrow> fmlookup (id_map b) (ord_id o1) = None \<Longrightarrow>
   stale_of (insert_order o1 b) sd p = stale_of b sd p"
  by (simp add: insert_order_queue)

section \<open>Ids are never used twice\<close>

definition history_ok :: "order_id set \<Rightarrow> order list \<Rightarrow> engine \<Rightarrow> bool" where
  "history_ok used X s \<longleftrightarrow> config_ok X s
     \<and> (\<forall>sd p i. i \<in> stale_of (book s) sd p \<longrightarrow> i \<in> used \<and>
          fmlookup (id_map (book s)) i = None \<and> i \<notin> ord_id ` set (X @ pending_stops s))
     \<and> (\<forall>i o1. fmlookup (id_map (book s)) i = Some o1 \<longrightarrow> i \<in> used)
     \<and> (\<forall>o1\<in>set (X @ pending_stops s). ord_id o1 \<in> used)"

lemma mstep_history:
  assumes "mstep (X, s, r) (X1, s1, r1)" and inv: "history_ok used X s"
  shows "history_ok used X1 s1"
proof -
  have ok: "config_ok X s" using inv by (simp add: history_ok_def)
  have ok1: "config_ok X1 s1" by (rule mstep_config_ok [OF assms(1) ok])
  show ?thesis
    using assms(1)
  proof (cases "(X, s, r)" "(X1, s1, r1)" rule: mstep.cases)
    case (fill a e j p s2 a1 t X)
    let ?q = "min (ord_quantity a) (ord_quantity p)"
    have ok': "config_ok (a # X) s" using ok fill(1) by simp
    note f = fill_effect [OF ok' fill(5,7,8)]
    note st = stale_fill [OF config_okD(1) [OF ok'] fill(5,7,8)]
    have live: "fmlookup (id_map (book s)) i = None \<Longrightarrow> fmlookup (id_map (book s1)) i = None" for i
      using f(3,7) fill_map_other [of i j] by (cases "i = j") auto
    have "i \<in> used \<and> fmlookup (id_map (book s1)) i = None \<and> i \<notin> ord_id ` set (a1 # X @ pending_stops s1)"
      if "i \<in> stale_of (book s1) sd pr" for i sd pr
    proof (cases "i \<in> stale_of (book s) sd pr")
      case True
      then show ?thesis using inv fill(1) f(1,8) live [of i] by (auto simp: history_ok_def)
    next
      case False
      then have "passive_after p ?q = None" "i = j" using st [of sd pr] that by (auto split: if_splits)
      then show ?thesis using inv f(1,3,7,8,11,12) by (auto simp: history_ok_def fill_map_same)
    qed
    then show ?thesis using inv ok1 fill(1,2) f(1,8) live by (fastforce simp: history_ok_def)
  next
    case (rest a)
    note top = config_ok_top [OF ok [unfolded rest(1)]]
    have "stale_of (book s1) = stale_of (book s)"
      using stale_insert [of "book s" a] top(1) ok rest by (simp add: rest_order_def config_ok_def fun_eq_iff)
    then show ?thesis using inv ok1 rest by (auto simp: history_ok_def)
  qed (use inv ok1 in \<open>auto simp: history_ok_def\<close>)
qed

interpretation history: step_invariant "\<lambda>X s r. history_ok used X s" for used
  by unfold_locales (rule mstep_history)

fun disciplined :: "order_id set \<Rightarrow> order_event list \<Rightarrow> bool" where
  "disciplined used [] = True"
| "disciplined used (NewOrderEvent o1 # evs) =
     (ord_id o1 \<notin> used \<and> disciplined (insert (ord_id o1) used) evs)"
| "disciplined used (CancelOrderEvent e # evs) = disciplined used evs"
| "disciplined used (ModifyOrderEvent e # evs) = False"
| "disciplined used (ReplaceOrderEvent e # evs) =
     (ord_id (new_order e) \<notin> used \<and> disciplined (insert (ord_id (new_order e)) used) evs)"

lemma history_event_ok:
  assumes h: "history_ok used [] s"
  shows "cancellable i (book s)" and "i \<notin> used \<Longrightarrow> fresh_id i s"
  using h by (auto simp: history_ok_def cancellable_def fresh_id_def split: option.split)

lemma history_new:
  assumes h: "history_ok used [] s" and i: "ord_id o1 \<notin> used"
    and run: "process_new_order n o1 s = Inr (r, s1)"
  shows "history_ok (insert (ord_id o1) used) [] s1"
proof -
  have e: "engine_ok s" using h by (simp add: history_ok_def engine_ok_def)
  have "config_ok [prepare_order o1] s"
    using config_ok_ids [OF fresh_config [OF e history_event_ok(2) [OF h i]], of "prepare_order o1"] by simp
  then have "history_ok (insert (ord_id o1) used) [prepare_order o1] s"
    using h i by (auto simp: history_ok_def)
  then show ?thesis using history.new_order [OF run engine_okD(3) [OF e]] by simp
qed

lemma history_counted: "history_ok used [] (s\<lparr> sequence := k \<rparr>) = history_ok used [] s"
  by (simp add: history_ok_def)

lemma history_cancel_book:
  assumes h: "history_ok used [] s"
  shows "history_ok used [] (s\<lparr> book := snd (cancel_order i (book s)) \<rparr>)"
proof (cases "fmlookup (id_map (book s)) i")
  case None
  then show ?thesis using h by (simp add: cancel_order_None)
next
  case (Some o1)
  have e: "engine_ok s" using h by (simp add: history_ok_def engine_ok_def)
  have "config_ok [] (s\<lparr> book := snd (cancel_order i (book s)) \<rparr>)"
    using engine_ok_cancel_book [OF e history_event_ok(1) [OF h]] by (simp add: engine_ok_def)
  moreover have "i \<notin> ord_id ` set (pending_stops s)" using engine_okD(4) [OF e] Some by force
  ultimately show ?thesis
    using h Some stale_cancel [of i "book s"]
    by (fastforce simp: history_ok_def cancel_order_fields(1) [OF Some])
qed

lemma history_cancel:
  assumes h: "history_ok used [] s"
  shows "history_ok used [] (snd (process_cancel e s))"
proof (cases "take_stop (cancel_order_id e) (pending_stops s)")
  case None
  then show ?thesis
    using h history_cancel_book [OF h] by (simp add: process_cancel_def split: option.split)
next
  case (Some p)
  obtain st ps where p: "p = (st, ps)" by fastforce
  from take_stop_Some [OF Some [unfolded p]] obtain xs ys
    where "pending_stops s = xs @ st # ys" "ps = xs @ ys" by blast
  then show ?thesis
    using Some p h by (auto simp: process_cancel_def history_ok_def config_ok_def stops_only_def)
qed

lemma disciplined_events_ok:
  "history_ok used [] s \<Longrightarrow> disciplined used evs \<Longrightarrow> events_ok evs s"
proof (induction used evs arbitrary: s rule: disciplined.induct)
  case (2 used o1 evs)
  have e: "engine_ok s" using 2 by (simp add: history_ok_def engine_ok_def)
  have ev: "event_ok (NewOrderEvent o1) s" using history_event_ok(2) 2 by simp
  from submit_returns [OF e ev] obtain r s1 where run: "submit (NewOrderEvent o1) s = Inr (r, s1)" by blast
  have "history_ok (insert (ord_id o1) used) [] s1"
    using history_new [OF _ _ run [unfolded submit_new_run], of used] 2 by (simp add: history_counted)
  then show ?case using 2 ev run by simp
next
  case (3 used e evs)
  have ev: "event_ok (CancelOrderEvent e) s" using history_event_ok(1) 3 by simp
  have "history_ok used [] (snd (process_cancel e (counted s)))"
    using history_cancel 3 by (simp add: history_counted)
  then show ?case using 3 ev
    by (cases "process_cancel e (counted s)") (simp add: submit_def submit_fuel_def)
next
  case (5 used e evs)
  have ok: "engine_ok s" using 5 by (simp add: history_ok_def engine_ok_def)
  have ev: "event_ok (ReplaceOrderEvent e) s" using history_event_ok 5 by simp
  from submit_returns [OF ok ev] obtain r s1 where run: "submit (ReplaceOrderEvent e) s = Inr (r, s1)" by blast
  have "history_ok (insert (ord_id (new_order e)) used) [] s1"
  proof (cases "has_order (old_order_id e) (book s)")
    case True
    have "history_ok used [] ((counted s)\<lparr> book := snd (cancel_order (old_order_id e) (book s)) \<rparr>)"
      using history_cancel_book [of used "counted s"] 5 by (simp add: history_counted)
    from history_new [OF this _ run [unfolded submit_replace_run [OF True]]] 5 show ?thesis by simp
  next
    case False
    then have "s1 = counted s" using run by (simp add: submit_def submit_fuel_def process_replace_def)
    then show ?thesis using 5 by (auto simp: history_ok_def)
  qed
  then show ?case using 5 ev run by simp
qed simp_all

lemma history_start: "history_ok {} [] (new_engine cfg)"
proof -
  have "stale_of empty_book sd p = {}" for sd p
    by (cases sd) (simp_all add: stale_of_def stale_at_def empty_book_def)
  then show ?thesis
    using engine_ok_new [of cfg] by (simp add: history_ok_def engine_ok_def new_engine_def empty_book_def)
qed

end
