(* ===== verification/Engine_Properties.thy ===== *)
theory Engine_Properties
  imports Engine_History
begin

text \<open>
  The properties of the matching engine as a whole, over \<open>submit\<close> and \<open>run_events\<close>, each with a
  witness on a small concrete engine: three asks at two prices (one of them an iceberg), one bid and
  one pending stop.
\<close>

section \<open>A concrete engine\<close>

definition ex_limit :: "order_id \<Rightarrow> side \<Rightarrow> price \<Rightarrow> quantity \<Rightarrow> order" where
  "ex_limit i sd p q = default_order\<lparr> ord_id := i, ord_side := sd, ord_price := p, ord_quantity := q,
     ord_orig_qty := q \<rparr>"

definition ex_iceberg :: "order_id \<Rightarrow> side \<Rightarrow> price \<Rightarrow> quantity \<Rightarrow> quantity \<Rightarrow> order" where
  "ex_iceberg i sd p q k = (ex_limit i sd p q)\<lparr> ord_type := Iceberg, ord_peak_qty := k \<rparr>"

definition ex_stop :: "order_id \<Rightarrow> side \<Rightarrow> price \<Rightarrow> quantity \<Rightarrow> order" where
  "ex_stop i sd p q = (ex_limit i sd 0 q)\<lparr> ord_type := Stop, ord_stop_price := p \<rparr>"

definition ex_market :: "order_id \<Rightarrow> side \<Rightarrow> quantity \<Rightarrow> order" where
  "ex_market i sd q = (ex_limit i sd 0 q)\<lparr> ord_type := Market \<rparr>"

definition ex_events :: "order_event list" where
  "ex_events = [NewOrderEvent (ex_limit 1 Sell 101 50), NewOrderEvent (ex_iceberg 2 Sell 101 30 10),
     NewOrderEvent (ex_limit 3 Sell 102 40), NewOrderEvent (ex_limit 4 Buy 99 20),
     NewOrderEvent (ex_stop 5 Buy 102 5)]"

definition ex_engine :: engine where
  "ex_engine = (case run_events ex_events (new_engine default_config) of
     Inl f \<Rightarrow> new_engine default_config | Inr (rs, s) \<Rightarrow> s)"

lemma ex_engine_ok: "engine_ok ex_engine"
proof -
  have "events_ok ex_events (new_engine default_config)" by code_simp
  from run_events_returns [OF engine_ok_new this] show ?thesis by (auto simp: ex_engine_def)
qed

definition ex_buy :: order where "ex_buy = ex_limit 6 Buy 102 100"
definition ex_take :: order where "ex_take = ex_market 6 Buy 200"

lemma ex_fresh: "fresh_id 6 ex_engine" "ord_id ex_buy = 6" "ord_id ex_take = 6"
  by code_simp+

lemma ex_plain: "\<forall>st\<in>set (pending_stops ex_engine). plain st"
  by code_simp

lemma ex_runs:
  "\<exists>r s1. submit (NewOrderEvent ex_buy) ex_engine = Inr (r, s1)"
  "\<exists>r s1. submit (NewOrderEvent ex_take) ex_engine = Inr (r, s1)"
  using submit_returns [OF ex_engine_ok, of "NewOrderEvent ex_buy"]
    submit_returns [OF ex_engine_ok, of "NewOrderEvent ex_take"] ex_fresh by auto

section \<open>Safety and termination\<close>

text \<open>
  C1. For every event that satisfies the code's unchecked assumptions, in every well-formed state,
  \<open>submit\<close> returns: no null order, no empty queue, and no endless loop, with any fuel from
  \<open>event_fuel\<close> on and always the same result; and the next state is well-formed.
\<close>
theorem submit_safe:
  assumes "engine_ok s" and "event_ok ev s"
  shows "\<exists>r s1. (\<forall>n\<ge>event_fuel ev s. submit_fuel n ev s = Inr (r, s1)) \<and> submit ev s = Inr (r, s1)
    \<and> engine_ok s1"
proof -
  from submit_fuel_returns [OF assms order_refl] obtain r s1
    where "submit_fuel (event_fuel ev s) ev s = Inr (r, s1)" "engine_ok s1" by blast
  then show ?thesis using submit_fuel_mono by (fastforce simp: submit_def)
qed

theorem submit_safe_witness:
  "\<exists>r s1. submit (NewOrderEvent ex_buy) ex_engine = Inr (r, s1) \<and> engine_ok s1"
  using submit_safe [OF ex_engine_ok, of "NewOrderEvent ex_buy"] ex_fresh by auto

text \<open>
  C5. From a new engine, every list of new orders with ids never used before, cancels of any id and
  replacements by orders with new ids is processed to the end without a fault, one result per
  event, and ends in a well-formed state.
\<close>
theorem disciplined_run_safe:
  assumes "disciplined {} evs"
  shows "\<exists>rs s. run_events evs (new_engine cfg) = Inr (rs, s) \<and> engine_ok s \<and> length rs = length evs"
  using run_events_returns [OF engine_ok_new disciplined_events_ok [OF history_start assms]] .

theorem disciplined_run_safe_witness:
  "\<exists>rs s. run_events (ex_events @ [NewOrderEvent ex_buy, CancelOrderEvent \<lparr> cancel_order_id = 1, cancel_timestamp = 0 \<rparr>])
     (new_engine default_config) = Inr (rs, s) \<and> length rs = 7"
proof -
  let ?evs = "ex_events @ [NewOrderEvent ex_buy, CancelOrderEvent \<lparr> cancel_order_id = 1, cancel_timestamp = 0 \<rparr>]"
  have "disciplined {} ?evs" "length ?evs = 7" by code_simp+
  with disciplined_run_safe [of ?evs default_config] show ?thesis by auto
qed

section \<open>What becomes of an order\<close>



text \<open>
  C8. A limit order without a reserve: what it trades and what is left add up to its quantity. Nothing
  is left in the book when it is filled; otherwise it rests with the remainder, at its own price, behind
  every order already there, and no order of the other side is left within its limit.
\<close>
theorem limit_order_outcome:
  assumes "engine_ok s" and "fresh_id (ord_id o1) s" and "ord_type o1 = Limit"
    and "ord_reserve_qty o1 = 0" and "\<forall>st\<in>set (pending_stops s). plain st"
    and "submit (NewOrderEvent o1) s = Inr (r, s1)"
  shows "\<exists>v. unat v + traded (ord_id o1) (trades r) = unat (ord_quantity o1) \<and>
    fmlookup (id_map (book s1)) (ord_id o1) =
      (if v = 0 then None else Some (o1\<lparr> ord_status := Resting, ord_quantity := v \<rparr>)) \<and>
    (v \<noteq> 0 \<longrightarrow> (\<exists>ids. queue_of (book s1) (ord_side o1) (ord_price o1) = ids @ [ord_id o1]) \<and>
       (\<forall>p. queue_of (book s1) (opp (ord_side o1)) p \<noteq> [] \<longrightarrow>
              better (opp (ord_side o1)) (ord_price o1) p))"
  using assms by (rule limit_order_result)

theorem limit_order_outcome_witness:
  "\<exists>r s1 (v :: quantity). submit (NewOrderEvent ex_buy) ex_engine = Inr (r, s1) \<and> unat v + traded 6 (trades r) = 100"
proof -
  obtain r s1 where run: "submit (NewOrderEvent ex_buy) ex_engine = Inr (r, s1)" using ex_runs by blast
  have o: "ord_type ex_buy = Limit" "ord_reserve_qty ex_buy = 0" "unat (ord_quantity ex_buy) = 100" by code_simp+
  have fr: "fresh_id (ord_id ex_buy) ex_engine" using ex_fresh by simp
  from limit_order_outcome [OF ex_engine_ok fr o(1,2) ex_plain run] obtain v :: quantity
    where "unat v + traded (ord_id ex_buy) (trades r) = unat (ord_quantity ex_buy)" by blast
  then show ?thesis using run o(3) ex_fresh by auto
qed

text \<open>
  C9. A market order never rests and never waits: it is filled completely, or it is rejected as
  exhausted after trading less than its quantity, and then the other side of the book is empty.
\<close>
theorem market_order_outcome:
  assumes "engine_ok s" and "fresh_id (ord_id o1) s" and "ord_type o1 = Market"
    and "ord_reserve_qty o1 = 0" and "\<forall>st\<in>set (pending_stops s). plain st"
    and "submit (NewOrderEvent o1) s = Inr (r, s1)"
  shows "fmlookup (id_map (book s1)) (ord_id o1) = None \<and> ord_id o1 \<notin> ord_id ` set (pending_stops s1) \<and>
    (if ord_id o1 \<in> exhausted r
     then traded (ord_id o1) (trades r) < unat (ord_quantity o1) \<and>
          (\<forall>p. queue_of (book s1) (opp (ord_side o1)) p = [])
     else traded (ord_id o1) (trades r) = unat (ord_quantity o1))"
  using assms by (rule market_order_result)

theorem market_order_outcome_witness:
  "\<exists>r s1. submit (NewOrderEvent ex_take) ex_engine = Inr (r, s1) \<and> traded 6 (trades r) < 200 \<and>
     (\<forall>p. queue_of (book s1) Sell p = [])"
proof -
  obtain r s1 where run: "submit (NewOrderEvent ex_take) ex_engine = Inr (r, s1)" using ex_runs by blast
  have o: "ord_type ex_take = Market" "ord_reserve_qty ex_take = 0" "unat (ord_quantity ex_take) = 200"
    "opp (ord_side ex_take) = Sell" by code_simp+
  have fr: "fresh_id (ord_id ex_take) ex_engine" using ex_fresh by simp
  have "case submit (NewOrderEvent ex_take) ex_engine of Inl f \<Rightarrow> False | Inr (r, s1) \<Rightarrow> 6 \<in> exhausted r"
    by code_simp
  with market_order_outcome [OF ex_engine_ok fr o(1,2) ex_plain run] show ?thesis
    using run o(3,4) ex_fresh by auto
qed

section \<open>Prices\<close>

text \<open>
  C10. No trade is outside a limit: the trades in which a new limit, stop-limit or iceberg order is the
  aggressor are at its limit price or better, and every trade of a resting order as passive is at
  exactly the resting order's price, against an aggressor of the other side.
\<close>
theorem trades_within_limits:
  assumes "engine_ok s" and "fresh_id (ord_id o1) s"
    and "submit (NewOrderEvent o1) s = Inr (r, s1)" and "t \<in> set (trades r)"
  shows "(ord_type o1 \<in> {Limit, StopLimit, Iceberg} \<longrightarrow> tr_aggressor_id t = ord_id o1 \<longrightarrow>
       within_limit (ord_side o1) (ord_price o1) (tr_price t) \<and> tr_aggressor_side t = aggressor_of (ord_side o1))
    \<and> (\<forall>p. fmlookup (id_map (book s)) (tr_passive_id t) = Some p \<longrightarrow>
       tr_price t = ord_price p \<and> tr_aggressor_side t = aggressor_of (opp (ord_side p)))"
proof -
  have prep: "ord_side (prepare_order o1) = ord_side o1" "ord_price (prepare_order o1) = ord_price o1"
    by (auto simp: prepare_order_def split_iceberg_def Let_def)
  note so = engine_okD(3) [OF assms(1)] and st = start_ok [OF assms(1,2)]
  have "limit_inv (ord_id o1) (ord_side o1) (ord_price o1) [prepare_order o1] (counted s) empty_result"
    if "ord_type o1 \<in> {Limit, StopLimit, Iceberg}"
    using st that prep config_ok_top(2) [OF st]
    by (auto simp: limit_inv_def limited_def prepare_order_simps)
  from limit_price.submitted_new [OF assms(3) so this] assms(4)
  have lim: "ord_type o1 \<in> {Limit, StopLimit, Iceberg} \<longrightarrow> tr_aggressor_id t = ord_id o1 \<longrightarrow>
       within_limit (ord_side o1) (ord_price o1) (tr_price t) \<and> tr_aggressor_side t = aggressor_of (ord_side o1)"
    by (auto simp: limit_inv_def)
  have "tr_price t = ord_price p \<and> tr_aggressor_side t = aggressor_of (opp (ord_side p))"
    if p: "fmlookup (id_map (book s)) (tr_passive_id t) = Some p" for p
  proof -
    have "maker_inv (tr_passive_id t) (ord_side p) (ord_price p) [prepare_order o1] (counted s) empty_result"
      using st p config_ok_resting [OF st] by (simp add: maker_inv_def)
    from maker_price.submitted_new [OF assms(3) so this] assms(4) show ?thesis by (simp add: maker_inv_def)
  qed
  with lim show ?thesis by blast
qed

theorem trades_within_limits_witness:
  "\<exists>r s1 t. submit (NewOrderEvent ex_buy) ex_engine = Inr (r, s1) \<and> t \<in> set (trades r) \<and>
     tr_aggressor_id t = 6 \<and> tr_price t \<le> 102"
proof -
  obtain r s1 where run: "submit (NewOrderEvent ex_buy) ex_engine = Inr (r, s1)" using ex_runs by blast
  have o: "ord_type ex_buy = Limit" "ord_side ex_buy = Buy" "ord_price ex_buy = 102" by code_simp+
  have fr: "fresh_id (ord_id ex_buy) ex_engine" using ex_fresh by simp
  have "case submit (NewOrderEvent ex_buy) ex_engine of Inl f \<Rightarrow> False | Inr (r, s1) \<Rightarrow>
      list_ex (\<lambda>t. tr_aggressor_id t = 6) (trades r)" by code_simp
  then obtain t where t: "t \<in> set (trades r)" "tr_aggressor_id t = 6" using run by (auto simp: list_ex_iff)
  from trades_within_limits [OF ex_engine_ok fr run t(1)] show ?thesis using run t o ex_fresh by auto
qed

text \<open>
  C11. A new order that is not an iceberg never crosses the book: if the best bid was below the best ask
  it is so afterwards, whatever stops the order sets off.
\<close>
theorem book_stays_uncrossed:
  assumes "engine_ok s" and "fresh_id (ord_id o1) s" and "ord_type o1 \<noteq> Iceberg" and "uncrossed (book s)"
    and "submit (NewOrderEvent o1) s = Inr (r, s1)"
  shows "uncrossed (book s1)"
proof -
  have "uncrossed_inv [prepare_order o1] (counted s) empty_result"
    using start_ok [OF assms(1,2)] assms(3,4) by (simp add: uncrossed_inv_def prepare_order_simps)
  from uncrossed_book.submitted_new [OF assms(5) engine_okD(3) [OF assms(1)] this]
  show ?thesis by (simp add: uncrossed_inv_def)
qed

theorem book_stays_uncrossed_witness:
  "\<exists>r s1. submit (NewOrderEvent ex_buy) ex_engine = Inr (r, s1) \<and> uncrossed (book s1)"
proof -
  obtain r s1 where run: "submit (NewOrderEvent ex_buy) ex_engine = Inr (r, s1)" using ex_runs by blast
  have o: "ord_type ex_buy \<noteq> Iceberg" "uncrossed (book ex_engine)" by code_simp+
  have fr: "fresh_id (ord_id ex_buy) ex_engine" using ex_fresh by simp
  from book_stays_uncrossed [OF ex_engine_ok fr o run] run show ?thesis by blast
qed

text \<open>
  C12. Every trade has a positive quantity and every order in the book keeps a positive visible
  quantity, as long as the book has no empty order and the new order is not an iceberg.
\<close>
theorem trade_quantities_positive:
  assumes "engine_ok s" and "fresh_id (ord_id o1) s" and "ord_type o1 \<noteq> Iceberg"
    and "\<forall>i p. fmlookup (id_map (book s)) i = Some p \<longrightarrow> ord_quantity p \<noteq> 0"
    and "submit (NewOrderEvent o1) s = Inr (r, s1)"
  shows "(\<forall>t\<in>set (trades r). 0 < tr_quantity t)
    \<and> (\<forall>i p. fmlookup (id_map (book s1)) i = Some p \<longrightarrow> 0 < ord_quantity p)"
proof -
  have "positive_inv [prepare_order o1] (counted s) empty_result"
    using start_ok [OF assms(1,2)] assms(3,4) by (auto simp: positive_inv_def prepare_order_simps)
  from positive.submitted_new [OF assms(5) engine_okD(3) [OF assms(1)] this]
  show ?thesis by (auto simp: positive_inv_def word_neq_0_conv)
qed

theorem trade_quantities_positive_witness:
  "\<exists>r s1. submit (NewOrderEvent ex_buy) ex_engine = Inr (r, s1) \<and> (\<forall>t\<in>set (trades r). 0 < tr_quantity t)"
proof -
  obtain r s1 where run: "submit (NewOrderEvent ex_buy) ex_engine = Inr (r, s1)" using ex_runs by blast
  have o: "ord_type ex_buy \<noteq> Iceberg" by code_simp
  have all: "fBall (fmdom (id_map (book ex_engine))) (\<lambda>i. case fmlookup (id_map (book ex_engine)) i of
      None \<Rightarrow> True | Some p \<Rightarrow> ord_quantity p \<noteq> 0)" by code_simp
  have "ord_quantity p \<noteq> 0" if "fmlookup (id_map (book ex_engine)) i = Some p" for i p
    using fbspec [OF all fmdomI [OF that]] that by simp
  then have pos: "\<forall>i p. fmlookup (id_map (book ex_engine)) i = Some p \<longrightarrow> ord_quantity p \<noteq> 0" by blast
  have fr: "fresh_id (ord_id ex_buy) ex_engine" using ex_fresh by simp
  from trade_quantities_positive [OF ex_engine_ok fr o pos run] run show ?thesis by blast
qed

text \<open>
  C13. A resting order that no trade of the result names as passive is unchanged by a new order: same
  fields and still in the book; and the engine's configuration is unchanged, its sequence number is
  one higher modulo \<open>2 ^ 64\<close>.
\<close>
theorem untouched_orders_unchanged:
  assumes "engine_ok s" and "fresh_id (ord_id o1) s" and "submit (NewOrderEvent o1) s = Inr (r, s1)"
    and "fmlookup (id_map (book s)) i = Some p" and "i \<notin> tr_passive_id ` set (trades r)"
  shows "fmlookup (id_map (book s1)) i = Some p \<and> config s1 = config s \<and> sequence s1 = sequence s + 1"
proof -
  note so = engine_okD(3) [OF assms(1)] and st = start_ok [OF assms(1,2)]
  have "frame_inv i (Some p) [prepare_order o1] (counted s) empty_result"
    using st assms(4) config_ok_resting [OF st, of i p] by (simp add: frame_inv_def)
  from frame.submitted_new [OF assms(3) so this] assms(5)
  have "fmlookup (id_map (book s1)) i = Some p" by (simp add: frame_inv_def)
  moreover from fixed_fields.submitted_new [OF assms(3) so, of "config s" "sequence s + 1" "[]" "[]"]
  have "config s1 = config s \<and> sequence s1 = sequence s + 1" by simp
  ultimately show ?thesis by blast
qed

theorem untouched_orders_unchanged_witness:
  "\<exists>r s1. submit (NewOrderEvent ex_buy) ex_engine = Inr (r, s1) \<and> sequence s1 = 6 \<and>
     fmlookup (id_map (book s1)) 4 = fmlookup (id_map (book ex_engine)) 4"
proof -
  obtain r s1 where run: "submit (NewOrderEvent ex_buy) ex_engine = Inr (r, s1)" using ex_runs by blast
  have "fmlookup (id_map (book ex_engine)) 4 \<noteq> None" "sequence ex_engine = 5" by code_simp+
  then obtain p where p: "fmlookup (id_map (book ex_engine)) 4 = Some p" "sequence ex_engine = 5" by blast
  have "case submit (NewOrderEvent ex_buy) ex_engine of Inl f \<Rightarrow> False | Inr (r, s1) \<Rightarrow>
      4 \<notin> tr_passive_id ` set (trades r)" by code_simp
  then have np: "4 \<notin> tr_passive_id ` set (trades r)" using run by simp
  have fr: "fresh_id (ord_id ex_buy) ex_engine" using ex_fresh by simp
  from untouched_orders_unchanged [OF ex_engine_ok fr run p(1) np] run p show ?thesis by simp
qed

end
