(* ===== verification/Engine_Stops.thy ===== *)
theory Engine_Stops
  imports Engine_Properties
begin

text \<open>
  Pending stop orders: a stop leaves the list of pending stops only through a cancel or when a trade
  reaches its stop price.
\<close>

definition fired :: "order \<Rightarrow> match_result \<Rightarrow> bool" where
  "fired st r \<longleftrightarrow> (\<exists>t\<in>set (trades r). stop_triggered (tr_price t) st)"

lemma fired_mono: "fired st r \<Longrightarrow> set (trades r) \<subseteq> set (trades r1) \<Longrightarrow> fired st r1"
  by (auto simp: fired_def)

section \<open>Results only grow\<close>

lemma stop_loop_grows:
  "stop_loop n lp ws r s = Inr (r1, s1) \<Longrightarrow> set (trades r) \<subseteq> set (trades r1)"
proof (induction ws arbitrary: r s)
  case Nil
  then show ?case by (simp add: stop_loop.simps)
next
  case (Cons st ws)
  show ?case
  proof (cases "stop_triggered lp st")
    case True
    with Cons.prems obtain sub s2 where "stop_loop n lp ws (append_result r sub) s2 = Inr (r1, s1)"
      by (auto simp: stop_loop.simps process_triggered_stop.simps bind_res_Inr_iff)
    from Cons.IH [OF this] show ?thesis by simp
  next
    case False
    with Cons.prems Cons.IH show ?thesis by (simp add: stop_loop.simps)
  qed
qed

lemma evaluate_grows:
  "evaluate_stop_triggers n r s = Inr (r1, s1) \<Longrightarrow> set (trades r) \<subseteq> set (trades r1)"
  by (auto simp: evaluate_stop_triggers.simps split: if_splits dest: stop_loop_grows)

lemma execute_grows:
  "execute_fill n a i q r s = Inr (a1, r1, s1) \<Longrightarrow> set (trades r) \<subseteq> set (trades r1)"
  using evaluate_grows by (fastforce simp: execute_fill.simps bind_res_Inr_iff)

lemma limit_grows:
  "match_limit n a r s = Inr (a1, r1, s1) \<Longrightarrow> set (trades r) \<subseteq> set (trades r1)"
proof (induction n arbitrary: a r s)
  case (Suc n)
  from Suc.prems show ?case
  proof (cases rule: match_limit_SucE)
    case (iterate e i p s1 a1 r1 s2)
    then show ?thesis using execute_grows [OF iterate(5)] Suc.IH [OF iterate(6)] by blast
  qed simp_all
qed (simp add: engine_simps)

lemma market_grows:
  "match_market n a r s = Inr (a1, r1, s1) \<Longrightarrow> set (trades r) \<subseteq> set (trades r1)"
proof (induction n arbitrary: a r s)
  case (Suc n)
  from Suc.prems show ?case
  proof (cases rule: match_market_SucE)
    case (iterate e i p s1 a1 r1 s2)
    then show ?thesis using execute_grows [OF iterate(4)] Suc.IH [OF iterate(5)] by blast
  qed simp_all
qed (simp add: engine_simps)

section \<open>The last trade price is the price of the last trade\<close>

lemma update_last [simp]: "last_trade_price (update_order_quantity i q b) = last_trade_price b"
  by (simp add: update_order_quantity_def split: option.split)

lemma settle_last: "settle_passive i q b = Inr b1 \<Longrightarrow> last_trade_price b1 = last_trade_price b"
  by (auto simp: settle_passive_def replenish_iceberg_def bind_res_Inr_iff Let_def cancel_order_fields(2)
      split: option.splits if_splits)

lemma apply_fill_last:
  "apply_fill a i q s = Inr (a1, t, s1) \<Longrightarrow> last_trade_price (book s1) = tr_price t"
  by (auto simp: apply_fill_def bind_res_Inr_iff Let_def fill_trade_def split: option.splits dest!: settle_last)

section \<open>Stops are kept until they fire\<close>

text \<open>
  \<open>kept st X r\<close>: the stop is in the list, or a trade of the result reached its stop price. The
  stop loop is entered with the price of a trade that the result already has.
\<close>

definition kept :: "order \<Rightarrow> engine \<Rightarrow> match_result \<Rightarrow> bool" where
  "kept st s r \<longleftrightarrow> st \<in> set (pending_stops s) \<or> fired st r"

lemma keptI: "st \<in> set (pending_stops s) \<Longrightarrow> kept st s r"
  by (simp add: kept_def)

lemma kept_trans:
  "kept st s r \<Longrightarrow> (st \<in> set (pending_stops s) \<Longrightarrow> kept st s1 r1) \<Longrightarrow>
   set (trades r) \<subseteq> set (trades r1) \<Longrightarrow> kept st s1 r1"
  using fired_mono by (auto simp: kept_def)

lemma stops_kept:
  "\<forall>a' r' s'. match_limit n a r s = Inr (a', r', s') \<longrightarrow> st0 \<in> set (pending_stops s) \<longrightarrow> kept st0 s' r'"
  "\<forall>a' r' s'. match_market n a r s = Inr (a', r', s') \<longrightarrow> st0 \<in> set (pending_stops s) \<longrightarrow> kept st0 s' r'"
  "\<forall>a' r' s'. execute_fill n a i q r s = Inr (a', r', s') \<longrightarrow> st0 \<in> set (pending_stops s) \<longrightarrow> kept st0 s' r'"
  "\<forall>r' s'. evaluate_stop_triggers n r s = Inr (r', s') \<longrightarrow>
     last_trade_price (book s) \<in> tr_price ` set (trades r) \<longrightarrow> st0 \<in> set (pending_stops s) \<longrightarrow> kept st0 s' r'"
  "\<forall>r' s'. stop_loop n lp ws r s = Inr (r', s') \<longrightarrow> lp \<in> tr_price ` set (trades r) \<longrightarrow>
     st0 \<in> set (pending_stops s) \<union> set ws \<longrightarrow> kept st0 s' r'"
  "\<forall>r' s'. process_triggered_stop n st r s = Inr (r', s') \<longrightarrow> st0 \<in> set (pending_stops s) \<longrightarrow> kept st0 s' r'"
  "\<forall>r' s'. process_new_order n o1 s = Inr (r', s') \<longrightarrow> st0 \<in> set (pending_stops s) \<longrightarrow> kept st0 s' r'"
proof (induction n a r s and n a r s and n a i q r s and n r s and n lp ws r s and n st r s
    and n o1 s rule: engine_induct)
  case (2 n aggr r s)
  show ?case
  proof (intro allI impI)
    fix a' r' s'
    assume run: "match_limit (Suc n) aggr r s = Inr (a', r', s')" and st: "st0 \<in> set (pending_stops s)"
    from run show "kept st0 s' r'"
    proof (cases rule: match_limit_SucE)
      case (iterate e i p s1 a1 r1 s2)
      have "st0 \<in> set (pending_stops s1)" using st passive_front_frame [OF iterate(4)] by simp
      then have "kept st0 s2 r1" using "2.IH"(1) [OF iterate(1-4) refl refl] iterate(5) by blast
      then show ?thesis
        using kept_trans limit_grows [OF iterate(6)]
          "2.IH"(2) [OF iterate(1-4) refl refl iterate(5) refl refl] iterate(6) by blast
    qed (use st in \<open>simp_all add: keptI\<close>)
  qed
next
  case (4 n aggr r s)
  show ?case
  proof (intro allI impI)
    fix a' r' s'
    assume run: "match_market (Suc n) aggr r s = Inr (a', r', s')" and st: "st0 \<in> set (pending_stops s)"
    from run show "kept st0 s' r'"
    proof (cases rule: match_market_SucE)
      case (iterate e i p s1 a1 r1 s2)
      have "st0 \<in> set (pending_stops s1)" using st passive_front_frame [OF iterate(3)] by simp
      then have "kept st0 s2 r1" using "4.IH"(1) [OF iterate(1-3) refl refl] iterate(4) by blast
      then show ?thesis
        using kept_trans market_grows [OF iterate(5)]
          "4.IH"(2) [OF iterate(1-3) refl refl iterate(4) refl refl] iterate(5) by blast
    qed (use st in \<open>simp_all add: keptI\<close>)
  qed
next
  case (5 n aggr i q r s)
  show ?case
  proof (intro allI impI)
    fix a' r' s'
    assume run: "execute_fill n aggr i q r s = Inr (a', r', s')" and st: "st0 \<in> set (pending_stops s)"
    then obtain t s1 where f: "apply_fill aggr i q s = Inr (a', t, s1)"
      and ev: "evaluate_stop_triggers n (push_trade t r) s1 = Inr (r', s')"
      by (auto simp: execute_fill.simps bind_res_Inr_iff)
    have "last_trade_price (book s1) \<in> tr_price ` set (trades (push_trade t r))"
      using apply_fill_last [OF f] by simp
    moreover have "st0 \<in> set (pending_stops s1)" using st apply_fill_frame [OF f] by simp
    ultimately show "kept st0 s' r'" using 5 [OF f refl refl] ev by blast
  qed
next
  case (6 n r s)
  then show ?case by (auto simp: evaluate_stop_triggers.simps keptI)
next
  case (7 n lp r s)
  then show ?case by (simp add: stop_loop.simps keptI)
next
  case (8 n lp st working r s)
  show ?case
  proof (intro allI impI)
    fix r' s'
    assume run: "stop_loop n lp (st # working) r s = Inr (r', s')"
      and lp: "lp \<in> tr_price ` set (trades r)" and st: "st0 \<in> set (pending_stops s) \<union> set (st # working)"
    show "kept st0 s' r'"
    proof (cases "stop_triggered lp st")
      case True
      with run obtain r1 s1 where p: "process_triggered_stop n st r s = Inr (r1, s1)"
        and l: "stop_loop n lp working r1 s1 = Inr (r', s')"
        by (auto simp: stop_loop.simps bind_res_Inr_iff)
      have g: "set (trades r) \<subseteq> set (trades r1)"
        using p by (auto simp: process_triggered_stop.simps bind_res_Inr_iff)
      have lp1: "lp \<in> tr_price ` set (trades r1)" using lp g by blast
      note IH = "8.IH"(2) [OF True p refl]
      from st consider "st0 \<in> set (pending_stops s)" | "st0 = st" | "st0 \<in> set working" by auto
      then show ?thesis
      proof cases
        case 1
        then have "kept st0 s1 r1" using "8.IH"(1) [OF True] p by blast
        then show ?thesis using kept_trans stop_loop_grows [OF l] IH l lp1 by blast
      next
        case 2
        then have "fired st0 r" using True lp by (auto simp: fired_def)
        then show ?thesis using fired_mono g stop_loop_grows [OF l] by (fastforce simp: kept_def)
      next
        case 3
        then show ?thesis using IH l lp1 by blast
      qed
    next
      case False
      then show ?thesis using run st lp "8.IH"(3) [OF False] by (auto simp: stop_loop.simps)
    qed
  qed
next
  case (9 n st r s)
  show ?case
  proof (intro allI impI)
    fix r' s'
    assume run: "process_triggered_stop n st r s = Inr (r', s')" and st: "st0 \<in> set (pending_stops s)"
    then obtain sub where p: "process_new_order n (convert_stop st) s = Inr (sub, s')"
      and r': "r' = append_result r sub"
      by (auto simp: process_triggered_stop.simps bind_res_Inr_iff)
    have "kept st0 s' sub" using 9 p st by blast
    then show "kept st0 s' r'" by (auto simp: kept_def fired_def r')
  qed
next
  case (11 n o1 s)
  let ?o = "o1\<lparr> ord_status := Resting \<rparr>"
  show ?case
  proof (intro allI impI)
    fix r' s'
    assume run: "process_new_order (Suc n) o1 s = Inr (r', s')" and st: "st0 \<in> set (pending_stops s)"
    have rest: "kept st0 s1 r' \<Longrightarrow> kept st0 (if b then rest_order a s1 else s1) r'" for a s1 b
      by (simp add: kept_def)
    show "kept st0 s' r'"
    proof (cases "ord_type o1")
      case Limit
      then show ?thesis using run "11.IH"(1) st rest
        by (fastforce simp: process_new_order.simps bind_res_Inr_iff)
    next
      case Market
      then show ?thesis using run "11.IH"(2) st by (fastforce simp: process_new_order.simps bind_res_Inr_iff)
    next
      case Iceberg
      then show ?thesis using run "11.IH"(5) st rest
        by (fastforce simp: process_new_order.simps bind_res_Inr_iff)
    next
      case Stop
      then show ?thesis using run "11.IH"(3) st
        by (auto simp: process_new_order.simps kept_def Let_def split: if_splits)
    next
      case StopLimit
      then show ?thesis using run "11.IH"(4) st
        by (auto simp: process_new_order.simps kept_def Let_def split: if_splits)
    qed
  qed
qed (simp_all add: engine_simps)

section \<open>Properties of stop orders\<close>


definition ex_small :: order where "ex_small = ex_limit 6 Buy 101 20"


lemma submit_new_agree:
  assumes "engine_ok s" and "fresh_id (ord_id o1) s" and "process_new_order n o1 (counted s) = Inr x"
  shows "submit (NewOrderEvent o1) s = Inr x"
proof -
  let ?m = "max n (event_fuel (NewOrderEvent o1) s)"
  obtain y where y: "submit (NewOrderEvent o1) s = Inr y"
    using submit_returns [OF assms(1), of "NewOrderEvent o1"] assms(2) by auto
  have "process_new_order ?m o1 (counted s) = Inr x" using fuel_mono(7) assms(3) by (meson max.cobounded1)
  moreover have "process_new_order ?m o1 (counted s) = Inr y"
    using fuel_mono(7) y [unfolded submit_new_run] by (meson max.cobounded2)
  ultimately show ?thesis using y by simp
qed



end
