(* ===== verification/Engine_Handlers.thy ===== *)
theory Engine_Handlers
  imports Engine_Stops
begin

text \<open>
  The cancel, modify and replace handlers on each of their branches, as seen through the id map and
  the live queues.
\<close>

section \<open>Cancel\<close>

lemma take_stop_filter:
  assumes "distinct (map ord_id ps)" and "take_stop i ps = Some (st, rest)"
  shows "rest = filter (\<lambda>x. ord_id x \<noteq> i) ps" and "st \<in> set ps" and "ord_id st = i"
proof -
  from take_stop_Some [OF assms(2)] obtain xs ys
    where ps: "ord_id st = i" "ps = xs @ st # ys" "rest = xs @ ys" "i \<notin> ord_id ` set xs" by blast
  have "i \<notin> ord_id ` set ys" using assms(1) ps by auto
  then have "filter (\<lambda>x. ord_id x \<noteq> i) xs = xs" "filter (\<lambda>x. ord_id x \<noteq> i) ys = ys"
    using ps(4) by (auto simp: filter_id_conv)
  then show "rest = filter (\<lambda>x. ord_id x \<noteq> i) ps" "st \<in> set ps" "ord_id st = i" using ps by simp_all
qed

lemma find_take: "find (\<lambda>st. ord_id st = i) ps = map_option fst (take_stop i ps)"
  by (induction ps) (auto simp: option.map_comp comp_def case_prod_unfold)

lemma cancel_queues:
  assumes "engine_ok s" and "fmlookup (id_map (book s)) i = Some o1" and "cancellable i (book s)"
  shows "queue_of (snd (cancel_order i (book s))) sd p = filter (\<lambda>j. j \<noteq> i) (queue_of (book s) sd p)"
proof -
  note bk = engine_okD(1) [OF assms(1)]
  have ns: "i \<notin> stale_of (book s) (ord_side o1) (ord_price o1)" using assms(2,3) by (simp add: cancellable_def)
  have "i \<notin> set (queue_of (book s) sd p)" if "\<not> (sd = ord_side o1 \<and> p = ord_price o1)"
    using book_ok_queue [OF bk] assms(2) that by auto
  moreover have "remove1 i xs = filter (\<lambda>j. j \<noteq> i) xs" if "distinct xs" for xs
    using distinct_remove1_removeAll [OF that] by (simp add: removeAll_filter_not_eq) metis
  ultimately show ?thesis
    using queue_distinct [OF bk, of sd p]
    by (cases "sd = ord_side o1 \<and> p = ord_price o1")
       (auto simp: cancel_order_queue [OF bk assms(2) ns] intro!: filter_True [symmetric])
qed

text \<open>
  C16. Cancel, on every branch: a pending stop with the id is removed from the pending stops; otherwise a
  resting order is removed from the book, every other order and every queue otherwise unchanged; both
  report the remaining quantity. An order that is not resting is rejected as not cancellable and an
  unknown id as not found, and then nothing changes but the sequence number.
\<close>
theorem cancel_outcome:
  assumes "engine_ok s" and "cancellable (cancel_order_id e) (book s)"
    and "submit (CancelOrderEvent e) s = Inr (r, s1)"
  shows "let i = cancel_order_id e in
    trades r = [] \<and> engine_ok s1 \<and>
    (case find (\<lambda>st. ord_id st = i) (pending_stops s) of
       Some st \<Rightarrow> reports r = [cancel_report e (ord_quantity st)] \<and> rejections r = [] \<and>
         pending_stops s1 = filter (\<lambda>st. ord_id st \<noteq> i) (pending_stops s) \<and> book s1 = book s
     | None \<Rightarrow> pending_stops s1 = pending_stops s \<and>
        (case fmlookup (id_map (book s)) i of
           None \<Rightarrow> rejections r = [cancel_rejection e OrderNotFound] \<and> reports r = [] \<and> s1 = counted s
         | Some o1 \<Rightarrow>
             if is_resting o1
             then reports r = [cancel_report e (ord_quantity o1)] \<and> rejections r = [] \<and>
               id_map (book s1) = fmdrop i (id_map (book s)) \<and>
               (\<forall>sd p. queue_of (book s1) sd p = filter (\<lambda>j. j \<noteq> i) (queue_of (book s) sd p))
             else rejections r = [cancel_rejection e OrderNotCancellable] \<and> reports r = [] \<and> s1 = counted s))"
proof -
  let ?i = "cancel_order_id e"
  have run: "process_cancel e (counted s) = (r, s1)" using assms(3) by (simp add: submit_def submit_fuel_def)
  have ok1: "engine_ok s1" using process_cancel_ok [of "counted s" e] assms(1,2) run by simp
  show ?thesis
  proof (cases "take_stop ?i (pending_stops s)")
    case None
    with run ok1 cancel_queues [OF assms(1) _ assms(2)] cancel_order_fields(1) show ?thesis
      by (auto simp: find_take process_cancel_def find_order_def push_report_def push_rejection_def empty_result_def
          split: option.splits if_splits)
  next
    case (Some p)
    obtain st ps where p: "p = (st, ps)" by fastforce
    note t = take_stop_filter [OF engine_okD(2) [OF assms(1)] Some [unfolded p]]
    with Some p run ok1 t(1) show ?thesis
      by (auto simp: find_take process_cancel_def push_report_def empty_result_def)
  qed
qed

theorem cancel_outcome_witness:
  "\<exists>r s1. submit (CancelOrderEvent \<lparr> cancel_order_id = 1, cancel_timestamp = 7 \<rparr>) ex_engine = Inr (r, s1) \<and>
     reports r \<noteq> [] \<and> fmlookup (id_map (book s1)) 1 = None \<and> queue_of (book s1) Sell 101 = [2]"
proof -
  let ?e = "\<lparr> cancel_order_id = 1, cancel_timestamp = 7 \<rparr> :: cancel_order_event"
  have c: "cancellable (cancel_order_id ?e) (book ex_engine)" by code_simp
  obtain r s1 where run: "submit (CancelOrderEvent ?e) ex_engine = Inr (r, s1)"
    using submit_returns [OF ex_engine_ok, of "CancelOrderEvent ?e"] c by auto
  have f: "find (\<lambda>st. ord_id st = 1) (pending_stops ex_engine) = None"
    "case fmlookup (id_map (book ex_engine)) 1 of None \<Rightarrow> False | Some o1 \<Rightarrow> is_resting o1"
    "queue_of (book ex_engine) Sell 101 = [1, 2]" by code_simp+
  then obtain o1 where "fmlookup (id_map (book ex_engine)) 1 = Some o1" "is_resting o1"
    by (auto split: option.splits)
  with cancel_outcome [OF ex_engine_ok c run] f run show ?thesis by simp
qed

section \<open>Modify\<close>

lemma modified_order_fields:
  "ord_price (modified_order e o1) = (if mod_new_price e \<noteq> 0 then mod_new_price e else ord_price o1)"
  "ord_quantity (modified_order e o1) = (if mod_new_quantity e \<noteq> 0 then mod_new_quantity e else ord_quantity o1)"
  by (auto simp: modified_order_def Let_def)

text \<open>The three effects of a modification of a resting order.\<close>

definition moves :: "modify_order_event \<Rightarrow> order \<Rightarrow> bool" where
  "moves e o1 \<longleftrightarrow> ord_price (modified_order e o1) \<noteq> ord_price o1 \<or>
     ord_quantity o1 < ord_quantity (modified_order e o1)"

lemma process_modify_resting:
  assumes "fmlookup (id_map (book s)) (mod_order_id e) = Some o1" and "is_resting o1"
  shows "process_modify e s =
    (if moves e o1
     then (empty_result, s\<lparr> book := insert_order (modified_order e o1) (snd (cancel_order (mod_order_id e) (book s))) \<rparr>)
     else if ord_quantity (modified_order e o1) = ord_quantity o1 then (empty_result, s)
     else (empty_result, s\<lparr> book := reduce_level_volume (ord_side o1) (ord_price o1)
        (ord_quantity o1 - ord_quantity (modified_order e o1))
        (update_order_quantity (mod_order_id e) (ord_quantity (modified_order e o1)) (book s)) \<rparr>))"
  using assms by (auto simp: process_modify_def find_order_def Let_def moves_def modified_order_fields)

lemma modify_move:
  assumes ok: "engine_ok s" and o1: "fmlookup (id_map (book s)) (mod_order_id e) = Some o1"
    and c: "cancellable (mod_order_id e) (book s)"
    and b1: "b1 = insert_order (modified_order e o1) (snd (cancel_order (mod_order_id e) (book s)))"
  shows "id_map b1 = fmupd (mod_order_id e) (modified_order e o1) (fmdrop (mod_order_id e) (id_map (book s)))"
    and "queue_of b1 sd p = filter (\<lambda>j. j \<noteq> mod_order_id e) (queue_of (book s) sd p)
       @ (if sd = ord_side o1 \<and> p = ord_price (modified_order e o1) then [mod_order_id e] else [])"
proof -
  let ?b = "snd (cancel_order (mod_order_id e) (book s))"
  have id: "ord_id (modified_order e o1) = mod_order_id e"
    using book_ok_id [OF engine_okD(1) [OF ok] o1] by simp
  have bkc: "book_ok ?b" using engine_okD(1) [OF engine_ok_cancel_book [OF ok c]] by simp
  have nfc: "fmlookup (id_map ?b) (ord_id (modified_order e o1)) = None"
    using id by (simp add: cancel_order_fields(1) [OF o1])
  show "id_map b1 = fmupd (mod_order_id e) (modified_order e o1) (fmdrop (mod_order_id e) (id_map (book s)))"
    using id by (simp add: b1 cancel_order_fields(1) [OF o1])
  show "queue_of b1 sd p = filter (\<lambda>j. j \<noteq> mod_order_id e) (queue_of (book s) sd p)
       @ (if sd = ord_side o1 \<and> p = ord_price (modified_order e o1) then [mod_order_id e] else [])"
    using id insert_order_queue(1) [OF bkc nfc] cancel_queues [OF ok o1 c] by (simp add: b1)
qed

lemma modify_in_place:
  assumes ok: "engine_ok s" and o1: "fmlookup (id_map (book s)) i = Some o1"
    and b1: "b1 = reduce_level_volume (ord_side o1) (ord_price o1) v (update_order_quantity i q (book s))"
  shows "id_map b1 = fmupd i (o1\<lparr> ord_quantity := q \<rparr>) (id_map (book s))" and "queue_of b1 = queue_of (book s)"
proof -
  have "queue_of b1 = queue_of (update_order_quantity i q (book s))"
    unfolding b1 by (rule reduce_level_volume_queue [OF update_order_quantity_ok [OF engine_okD(1) [OF ok]]])
  then show "queue_of b1 = queue_of (book s)" using o1 by (simp add: update_order_quantity_def)
  show "id_map b1 = fmupd i (o1\<lparr> ord_quantity := q \<rparr>) (id_map (book s))"
    using o1 by (simp add: b1 update_order_quantity_map)
qed

text \<open>
  C17. Modify, on every branch: an unknown or not resting order is rejected and nothing changes. A new
  price or a larger quantity takes the order out of its queue and puts it at the back of the queue of
  its price. A smaller quantity changes the quantity in place, keeping the position. Anything else
  changes nothing. A modification never trades.
\<close>
theorem modify_outcome:
  assumes "engine_ok s" and "cancellable (mod_order_id e) (book s)"
    and "submit (ModifyOrderEvent e) s = Inr (r, s1)"
  shows "let i = mod_order_id e in
    trades r = [] \<and> engine_ok s1 \<and> pending_stops s1 = pending_stops s \<and>
    (case fmlookup (id_map (book s)) i of
       None \<Rightarrow> rejections r = [modify_rejection i OrderNotFound] \<and> s1 = counted s
     | Some o1 \<Rightarrow>
         if \<not> is_resting o1 then rejections r = [modify_rejection i OrderNotCancellable] \<and> s1 = counted s
         else rejections r = [] \<and>
          (let o2 = modified_order e o1 in
           if ord_price o2 \<noteq> ord_price o1 \<or> ord_quantity o1 < ord_quantity o2
           then id_map (book s1) = fmupd i o2 (fmdrop i (id_map (book s))) \<and>
             (\<forall>sd p. queue_of (book s1) sd p = filter (\<lambda>j. j \<noteq> i) (queue_of (book s) sd p)
                @ (if sd = ord_side o1 \<and> p = ord_price o2 then [i] else []))
           else id_map (book s1) = fmupd i (o1\<lparr> ord_quantity := ord_quantity o2 \<rparr>) (id_map (book s)) \<and>
             queue_of (book s1) = queue_of (book s)))"
proof -
  let ?i = "mod_order_id e"
  have run: "process_modify e (counted s) = (r, s1)" using assms(3) by (simp add: submit_def submit_fuel_def)
  have ok1: "engine_ok s1" using process_modify_ok [of "counted s" e] assms(1,2) run by simp
  show ?thesis
  proof (cases "fmlookup (id_map (book s)) ?i")
    case None
    then show ?thesis using run ok1
      by (auto simp: process_modify_def find_order_def push_rejection_def empty_result_def)
  next
    case o1: (Some o1)
    have same: "fmupd ?i o1 (id_map (book s)) = id_map (book s)" using o1 by (intro fmap_ext) auto
    show ?thesis
    proof (cases "is_resting o1")
      case False
      then show ?thesis using run ok1 o1
        by (auto simp: process_modify_def find_order_def push_rejection_def empty_result_def)
    next
      case True
      have o1': "fmlookup (id_map (book (counted s))) ?i = Some o1" using o1 by simp
      show ?thesis
        using run process_modify_resting [OF o1' True] o1 True ok1 same
          modify_move [OF assms(1) o1 assms(2) refl] modify_in_place [OF assms(1) o1 refl]
        by (auto simp: moves_def Let_def split: if_splits)
    qed
  qed
qed

definition ex_more :: modify_order_event where
  "ex_more = \<lparr> mod_order_id = 1, mod_new_price = 0, mod_new_quantity = 60, mod_timestamp = 9 \<rparr>"

theorem modify_outcome_witness:
  "\<exists>r s1. submit (ModifyOrderEvent ex_more) ex_engine = Inr (r, s1) \<and> queue_of (book s1) Sell 101 = [2, 1]"
proof -
  have c: "cancellable (mod_order_id ex_more) (book ex_engine)" by code_simp
  obtain r s1 where run: "submit (ModifyOrderEvent ex_more) ex_engine = Inr (r, s1)"
    using submit_returns [OF ex_engine_ok, of "ModifyOrderEvent ex_more"] c by auto
  have "case fmlookup (id_map (book ex_engine)) (mod_order_id ex_more) of None \<Rightarrow> False | Some o1 \<Rightarrow>
      is_resting o1 \<and> ord_quantity o1 < ord_quantity (modified_order ex_more o1) \<and> ord_side o1 = Sell \<and>
      ord_price (modified_order ex_more o1) = 101"
    "queue_of (book ex_engine) Sell 101 = [1, 2]" "mod_order_id ex_more = 1" by code_simp+
  with modify_outcome [OF ex_engine_ok c run] run show ?thesis
    by (auto simp: Let_def split: option.splits)
qed

section \<open>Replace\<close>

lemma replace_run:
  assumes "engine_ok s" and "event_ok (ReplaceOrderEvent e) s"
  shows "submit (ReplaceOrderEvent e) s =
    (if has_order (old_order_id e) (book s)
     then submit (NewOrderEvent (new_order e)) (s\<lparr> book := snd (cancel_order (old_order_id e) (book s)) \<rparr>)
     else Inr (push_rejection (modify_rejection (old_order_id e) OrderNotFound) empty_result, counted s))"
proof (cases "has_order (old_order_id e) (book s)")
  case False
  then show ?thesis by (simp add: submit_def submit_fuel_def process_replace_def)
next
  case True
  let ?s = "s\<lparr> book := snd (cancel_order (old_order_id e) (book s)) \<rparr>"
  obtain r s1 where run: "submit (ReplaceOrderEvent e) s = Inr (r, s1)" using submit_returns [OF assms] by blast
  have ok: "engine_ok ?s" and fr: "fresh_id (ord_id (new_order e)) ?s"
    using replace_ready [OF assms True] by simp_all
  have "process_new_order (event_fuel (ReplaceOrderEvent e) s) (new_order e) (counted ?s) = Inr (r, s1)"
    using run [unfolded submit_replace_run [OF True]] by (cases s) simp
  from submit_new_agree [OF ok fr this] run True show ?thesis by simp
qed

text \<open>
  Replace: an unknown old id is rejected and nothing changes; otherwise the effect is exactly that of
  taking the old order out of the book and submitting the new one, as one event.
\<close>
theorem replace_outcome:
  assumes "engine_ok s" and "event_ok (ReplaceOrderEvent e) s"
  shows "submit (ReplaceOrderEvent e) s =
    (if has_order (old_order_id e) (book s)
     then submit (NewOrderEvent (new_order e)) (s\<lparr> book := snd (cancel_order (old_order_id e) (book s)) \<rparr>)
     else Inr (push_rejection (modify_rejection (old_order_id e) OrderNotFound) empty_result, counted s))"
  by (rule replace_run [OF assms])

definition ex_replace :: replace_order_event where
  "ex_replace = \<lparr> old_order_id = 1, new_order = ex_limit 8 Sell 100 5 \<rparr>"

theorem replace_outcome_witness:
  "submit (ReplaceOrderEvent ex_replace) ex_engine =
     submit (NewOrderEvent (ex_limit 8 Sell 100 5)) (ex_engine\<lparr> book := snd (cancel_order 1 (book ex_engine)) \<rparr>)"
proof -
  have "event_ok (ReplaceOrderEvent ex_replace) ex_engine" "has_order (old_order_id ex_replace) (book ex_engine)"
    by code_simp+
  with replace_outcome [OF ex_engine_ok, of ex_replace] show ?thesis by (simp add: ex_replace_def)
qed

end
