(* ===== verification/Engine_Findings.thy ===== *)
theory Engine_Findings
  imports Engine_Handlers
begin

text \<open>
  Behaviour of the engine that is at odds with what the code or its documentation intends, each as a
  concrete run. They show why the theorems of the other theories exclude icebergs as aggressors,
  modifications that cross the book, and reused ids.
\<close>

definition final_state :: "order_event list \<Rightarrow> engine option" where
  "final_state evs = (case run_events evs (new_engine default_config) of
     Inl f \<Rightarrow> None | Inr (rs, s) \<Rightarrow> Some s)"

definition ex_modify :: "order_id \<Rightarrow> price \<Rightarrow> quantity \<Rightarrow> order_event" where
  "ex_modify i p q = ModifyOrderEvent \<lparr> mod_order_id = i, mod_new_price = p, mod_new_quantity = q,
     mod_timestamp = 0 \<rparr>"

text \<open>
  A full fill sets the quantity of the passive order to zero before \<open>cancel_order\<close> subtracts its
  visible quantity from the level, so the level keeps the volume of the order that is gone: 80
  instead of 30.
\<close>
theorem full_fill_leaves_level_volume:
  "map_option (\<lambda>s. map (\<lambda>(p, l). (p, lvl_volume l, live_ids l)) (asks (book s)))
     (final_state [NewOrderEvent (ex_limit 1 Sell 101 50), NewOrderEvent (ex_limit 2 Sell 101 30),
        NewOrderEvent (ex_limit 3 Buy 101 50)]) = Some [(101, 80, [2])]"
  by code_simp

text \<open>
  An iceberg aggressor matches only its first peak. The reserve then rests although the other side
  still has orders within its limit, with a visible quantity of zero, and the book is crossed; the
  next sell order trades a quantity of zero with it.
\<close>
theorem iceberg_aggressor_crosses:
  "map_option (\<lambda>s. (best_bid (book s), best_ask (book s),
       map_option (\<lambda>p. (ord_quantity p, ord_reserve_qty p, ord_status p)) (fmlookup (id_map (book s)) 2)))
     (final_state [NewOrderEvent (ex_limit 1 Sell 101 50), NewOrderEvent (ex_iceberg 2 Buy 101 30 10)])
   = Some (Some 101, Some 101, Some (0, 20, Filled))"
  by code_simp

theorem iceberg_zero_quantity_trade:
  "(case run_events [NewOrderEvent (ex_limit 1 Sell 101 50), NewOrderEvent (ex_iceberg 2 Buy 101 30 10),
       NewOrderEvent (ex_limit 3 Sell 100 5)] (new_engine default_config) of
      Inl f \<Rightarrow> [] | Inr (rs, s) \<Rightarrow> map tr_quantity (trades (last rs))) = [0, 5]"
  by code_simp

text \<open>A modification to a price beyond the best opposite price is inserted without matching.\<close>
theorem modify_crosses_book:
  "map_option (\<lambda>s. (best_bid (book s), best_ask (book s)))
     (final_state [NewOrderEvent (ex_limit 1 Sell 101 50), NewOrderEvent (ex_limit 2 Buy 99 10), ex_modify 2 105 0])
   = Some (Some 105, Some 101)"
  by code_simp


text \<open>A duplicate id is accepted; when the order under it is gone, its other queue entry faults.\<close>
theorem duplicate_id_faults:
  "run_events [NewOrderEvent (ex_limit 1 Sell 101 10), NewOrderEvent (ex_limit 1 Sell 102 10),
     NewOrderEvent (ex_market 3 Buy 50)] (new_engine default_config) = Inl Null_order"
  by code_simp

text \<open>An iceberg whose peak exceeds its quantity gets a reserve that wrapped around.\<close>
theorem iceberg_peak_wraps:
  "ord_quantity (prepare_order (ex_iceberg 1 Sell 101 10 20)) = 20 \<and>
   ord_reserve_qty (prepare_order (ex_iceberg 1 Sell 101 10 20)) = 18446744073709551606"
  by code_simp

text \<open>
  The stop loop compares every stop with the price it read before the loop: a stop whose price is
  reached by the trade of an earlier stop in the same pass stays pending.
\<close>
theorem stop_misses_nested_trade:
  "map_option (\<lambda>s. (last_trade_price (book s), map (\<lambda>st. (ord_id st, ord_stop_price st)) (pending_stops s)))
     (final_state [NewOrderEvent (ex_limit 1 Sell 100 5), NewOrderEvent (ex_limit 2 Sell 105 100),
        NewOrderEvent (ex_stop 3 Buy 100 10), NewOrderEvent (ex_stop 4 Buy 103 10), NewOrderEvent (ex_market 5 Buy 5)])
   = Some (105, [(4, 103)])"
  by code_simp

text \<open>The price limit of the configuration is not enforced: an order far beyond it is accepted and rests.\<close>
theorem config_limits_ignored:
  "map_option (\<lambda>s. (max_price (config s), best_bid (book s)))
     (final_state [NewOrderEvent (ex_limit 1 Buy 99999999 5)]) = Some (10000000, Some 99999999)"
  by code_simp

end
