(* ===== verification/Ring_Buffer.thy ===== *)
theory Ring_Buffer
  imports LOB_Prelude
begin

unbundle bit_operations_syntax

text \<open>
  The single-producer single-consumer ring buffer, used one call at a time: \<open>SpscQueue\<close>
  (\<^verbatim>\<open>src/core/spsc_queue.hpp\<close>, indices of type \<open>size_t\<close>) and the same code with 32-bit indices in the
  gateway's inbound queue, the event dispatcher, the replay logger and the logger. The interleaving
  of the two threads is the subject of \<^verbatim>\<open>Spsc_Protocol\<close>.

  A ring of capacity \<open>2 ^ n\<close> holds at most \<open>2 ^ n - 1\<close> elements: \<open>head = tail\<close> means empty.
  An access beyond the buffer is the fault \<open>Missing_key\<close>.
\<close>

record ('a, 'i) ring =
  ring_buffer :: "'a list"
  ring_mask :: 'i
  ring_head :: 'i
  ring_tail :: 'i

definition new_ring :: "'a \<Rightarrow> 'w :: len word \<Rightarrow> ('a, 'w word) ring" where
  "new_ring x capacity = \<lparr> ring_buffer = replicate (unat capacity) x, ring_mask = capacity - 1,
     ring_head = 0, ring_tail = 0 \<rparr>"

text \<open>The assertion on the capacity, as the code has it: zero passes too.\<close>

definition capacity_ok :: "'w :: len word \<Rightarrow> bool" where
  "capacity_ok c \<longleftrightarrow> c AND (c - 1) = 0"

definition ring_next :: "'w :: len word \<Rightarrow> 'w word \<Rightarrow> 'w word" where
  "ring_next m i = (i + 1) AND m"

definition ring_push :: "'a \<Rightarrow> ('a, 'w :: len word) ring \<Rightarrow> fault + bool \<times> ('a, 'w word) ring" where
  "ring_push x r = (let t = ring_tail r; nt = ring_next (ring_mask r) t in
     if nt = ring_head r then Inr (False, r)
     else if unat t < length (ring_buffer r)
     then Inr (True, r\<lparr> ring_buffer := (ring_buffer r)[unat t := x], ring_tail := nt \<rparr>)
     else Inl Missing_key)"

definition ring_pop :: "('a, 'w :: len word) ring \<Rightarrow> fault + 'a option \<times> ('a, 'w word) ring" where
  "ring_pop r = (let h = ring_head r in
     if h = ring_tail r then Inr (None, r)
     else if unat h < length (ring_buffer r)
     then Inr (Some (ring_buffer r ! unat h), r\<lparr> ring_head := ring_next (ring_mask r) h \<rparr>)
     else Inl Missing_key)"

definition ring_empty :: "('a, 'w :: len word) ring \<Rightarrow> bool" where
  "ring_empty r \<longleftrightarrow> ring_head r = ring_tail r"

definition ring_capacity :: "('a, 'w :: len word) ring \<Rightarrow> nat" where
  "ring_capacity r = length (ring_buffer r)"

section \<open>Indices\<close>

lemma unat_ring_next:
  fixes i :: "'w :: len word"
  assumes "n < LENGTH('w)" and "unat i < 2 ^ n"
  shows "unat (ring_next (mask n) i) = (unat i + 1) mod 2 ^ n"
proof -
  have "unat i + 1 < 2 ^ LENGTH('w)"
    using assms(2) power_strict_increasing [OF assms(1), of "2 :: nat"] by linarith
  then have "unat (i + 1) = unat i + 1" by (simp add: unat_word_ariths(1))
  moreover have "unat (ring_next (mask n) i) = take_bit n (unat (i + 1))"
    unfolding ring_next_def take_bit_eq_mask [symmetric] by (simp add: unsigned_take_bit_eq)
  ultimately show ?thesis by (simp add: take_bit_eq_mod)
qed

lemma slots_differ:
  assumes "k < (j :: nat)" and "j < k + n"
  shows "k mod n \<noteq> j mod n"
proof
  assume "k mod n = j mod n"
  then have "n dvd j - k" using assms(1) by (metis mod_eq_dvd_iff_nat order_less_imp_le)
  then show False using assms by (metis dvd_imp_le less_diff_conv2 not_less order_less_imp_le zero_less_diff add.commute)
qed

section \<open>The queue a ring holds\<close>

definition ring_size :: "('a, 'w :: len word) ring \<Rightarrow> nat" where
  "ring_size r = (unat (ring_tail r) + length (ring_buffer r) - unat (ring_head r)) mod length (ring_buffer r)"

definition ring_list :: "('a, 'w :: len word) ring \<Rightarrow> 'a list" where
  "ring_list r = map (\<lambda>k. ring_buffer r ! ((unat (ring_head r) + k) mod length (ring_buffer r))) [0..<ring_size r]"

definition ring_ok :: "('a, 'w :: len word) ring \<Rightarrow> bool" where
  "ring_ok r \<longleftrightarrow> (\<exists>n. n < LENGTH('w) \<and> length (ring_buffer r) = 2 ^ n \<and> ring_mask r = mask n
     \<and> unat (ring_head r) < 2 ^ n \<and> unat (ring_tail r) < 2 ^ n)"

lemma ring_list_length [simp]: "length (ring_list r) = ring_size r"
  by (simp add: ring_list_def)

text \<open>The arithmetic of the two indices, on natural numbers.\<close>

lemma size_zero:
  assumes "h < (n :: nat)" and "t < n"
  shows "(t + n - h) mod n = 0 \<longleftrightarrow> h = t"
  using assms by (auto simp: mod_if split: if_splits)

lemma size_full:
  assumes "h < (n :: nat)" and "t < n"
  shows "(t + 1) mod n = h \<longleftrightarrow> (t + n - h) mod n = n - 1"
  using assms by (auto simp: mod_if split: if_splits)

lemma size_push:
  assumes "h < (n :: nat)" and "t < n" and "(t + 1) mod n \<noteq> h"
  shows "((t + 1) mod n + n - h) mod n = (t + n - h) mod n + 1"
  using assms by (auto simp: mod_if split: if_splits)

lemma size_pop:
  assumes "h < (n :: nat)" and "t < n" and "h \<noteq> t"
  shows "(t + n - (h + 1) mod n) mod n + 1 = (t + n - h) mod n"
  using assms by (auto simp: mod_if split: if_splits)

lemma slot_tail:
  assumes "h < (n :: nat)" and "t < n"
  shows "(h + (t + n - h) mod n) mod n = t"
  using assms by (auto simp: mod_if split: if_splits)

section \<open>A bounded queue\<close>

text \<open>
  The contract of the ring buffers: \<open>push\<close> appends unless the queue has \<open>limit - 1\<close> elements, and then
  reports failure and changes nothing; \<open>pop\<close> takes the oldest element.
\<close>

locale bounded_queue =
  fixes items :: "'q \<Rightarrow> 'a list"
    and ok :: "'q \<Rightarrow> bool"
    and limit :: "'q \<Rightarrow> nat"
    and push :: "'a \<Rightarrow> 'q \<Rightarrow> fault + bool \<times> 'q"
    and pop :: "'q \<Rightarrow> fault + 'a option \<times> 'q"
  assumes push_room: "ok q \<Longrightarrow> length (items q) + 1 < limit q \<Longrightarrow>
      \<exists>q1. push x q = Inr (True, q1) \<and> ok q1 \<and> items q1 = items q @ [x] \<and> limit q1 = limit q"
    and push_full: "ok q \<Longrightarrow> \<not> length (items q) + 1 < limit q \<Longrightarrow> push x q = Inr (False, q)"
    and pop_some: "ok q \<Longrightarrow> items q = x # xs \<Longrightarrow>
      \<exists>q1. pop q = Inr (Some x, q1) \<and> ok q1 \<and> items q1 = xs \<and> limit q1 = limit q"
    and pop_none: "ok q \<Longrightarrow> items q = [] \<Longrightarrow> pop q = Inr (None, q)"
begin

text \<open>Pushing a list: how many elements were refused, and the queue after it.\<close>

fun push_all :: "'a list \<Rightarrow> 'q \<Rightarrow> fault + nat \<times> 'q" where
  "push_all [] q = Inr (0, q)"
| "push_all (x # xs) q = bind_res (push x q) (\<lambda>(b, q1). bind_res (push_all xs q1)
     (\<lambda>(d, q2). Inr ((if b then d else d + 1), q2)))"

text \<open>Popping until the queue is empty, as the final drain loops do; one unit of fuel per element.\<close>

fun pop_all :: "nat \<Rightarrow> 'q \<Rightarrow> fault + 'a list \<times> 'q" where
  "pop_all 0 q = Inl Out_of_fuel"
| "pop_all (Suc n) q = bind_res (pop q) (\<lambda>(x, q1). case x of
     None \<Rightarrow> Inr ([], q1)
   | Some y \<Rightarrow> bind_res (pop_all n q1) (\<lambda>(ys, q2). Inr (y # ys, q2)))"

lemma push_all_result:
  "ok q \<Longrightarrow> \<exists>q1. push_all xs q = Inr (length xs - (limit q - 1 - length (items q)), q1) \<and> ok q1
     \<and> limit q1 = limit q \<and> items q1 = items q @ take (limit q - 1 - length (items q)) xs"
proof (induction xs arbitrary: q)
  case (Cons x xs)
  show ?case
  proof (cases "length (items q) + 1 < limit q")
    case True
    from push_room [OF Cons.prems True] obtain q1
      where q1: "push x q = Inr (True, q1)" "ok q1" "items q1 = items q @ [x]" "limit q1 = limit q" by blast
    define k where "k = limit q - 1 - length (items q1)"
    have k: "limit q - 1 - length (items q) = Suc k" using True q1(3) by (simp add: k_def)
    from Cons.IH [OF q1(2)] obtain q2 where
      "push_all xs q1 = Inr (length xs - k, q2)" "ok q2" "limit q2 = limit q" "items q2 = items q1 @ take k xs"
      by (auto simp: q1(4) k_def)
    then show ?thesis using q1 k by simp
  next
    case False
    note f = push_full [OF Cons.prems False]
    have k: "limit q - 1 - length (items q) = 0" using False by simp
    from Cons.IH [OF Cons.prems, unfolded k] obtain q2
      where "push_all xs q = Inr (length xs, q2)" "ok q2" "limit q2 = limit q" "items q2 = items q"
      by auto
    then show ?thesis using f k by simp
  qed
qed simp

lemma pop_all_result:
  "ok q \<Longrightarrow> length (items q) < n \<Longrightarrow> \<exists>q1. pop_all n q = Inr (items q, q1) \<and> ok q1
     \<and> limit q1 = limit q \<and> items q1 = []"
proof (induction n arbitrary: q)
  case (Suc n)
  show ?case
  proof (cases "items q")
    case Nil
    then show ?thesis using pop_none [OF Suc.prems(1) Nil] Suc.prems(1) by simp
  next
    case (Cons x xs)
    from pop_some [OF Suc.prems(1) Cons] obtain q1
      where q1: "pop q = Inr (Some x, q1)" "ok q1" "items q1 = xs" "limit q1 = limit q" by blast
    from Suc.IH [OF q1(2)] q1 Suc.prems(2) Cons show ?thesis by auto
  qed
qed simp

end

section \<open>The ring is a bounded queue\<close>

lemma ring_push_room:
  assumes ok: "ring_ok r" and room: "length (ring_list r) + 1 < ring_capacity r"
  shows "\<exists>r1. ring_push x r = Inr (True, r1) \<and> ring_ok r1 \<and> ring_list r1 = ring_list r @ [x]
    \<and> ring_capacity r1 = ring_capacity r"
proof -
  from ok obtain n where n: "n < LENGTH('b)" "length (ring_buffer r) = 2 ^ n" "ring_mask r = mask n"
    "unat (ring_head r) < 2 ^ n" "unat (ring_tail r) < 2 ^ n" by (auto simp: ring_ok_def)
  let ?N = "2 ^ n :: nat" let ?h = "unat (ring_head r)" let ?t = "unat (ring_tail r)"
  note nt = unat_ring_next [OF n(1,5)]
  have sz: "ring_size r = (?t + ?N - ?h) mod ?N" by (simp add: ring_size_def n(2))
  have "(?t + 1) mod ?N \<noteq> ?h"
    using room size_full [OF n(4,5)] sz n(2) by (auto simp: ring_capacity_def)
  then have nf: "ring_next (ring_mask r) (ring_tail r) \<noteq> ring_head r" using nt n(3) by metis
  let ?r1 = "r\<lparr> ring_buffer := (ring_buffer r)[?t := x], ring_tail := ring_next (ring_mask r) (ring_tail r) \<rparr>"
  have run: "ring_push x r = Inr (True, ?r1)" using nf n(2,5) by (simp add: ring_push_def Let_def)
  have ok1: "ring_ok ?r1" unfolding ring_ok_def using n nt by (intro exI [of _ n]) simp
  have sz1: "ring_size ?r1 = ring_size r + 1"
    using size_push [OF n(4,5) \<open>(?t + 1) mod ?N \<noteq> ?h\<close>] nt n(2,3) sz by (simp add: ring_size_def)
  have lt: "ring_size r < ?N" by (simp add: sz)
  have "?t \<noteq> (?h + k) mod ?N" if "k < ring_size r" for k
  proof -
    have "(?h + k) mod ?N \<noteq> (?h + ring_size r) mod ?N"
      using that lt by (intro slots_differ) simp_all
    then show ?thesis using slot_tail [OF n(4,5)] sz by metis
  qed
  then have "ring_list ?r1 = ring_list r @ [x]"
    using slot_tail [OF n(4,5)] sz sz1 n(2,5) by (simp add: ring_list_def)
  then show ?thesis using run ok1 by (simp add: ring_capacity_def)
qed

lemma ring_push_full:
  assumes ok: "ring_ok r" and full: "\<not> length (ring_list r) + 1 < ring_capacity r"
  shows "ring_push x r = Inr (False, r)"
proof -
  from ok obtain n where n: "n < LENGTH('b)" "length (ring_buffer r) = 2 ^ n" "ring_mask r = mask n"
    "unat (ring_head r) < 2 ^ n" "unat (ring_tail r) < 2 ^ n" by (auto simp: ring_ok_def)
  let ?N = "2 ^ n :: nat"
  have "ring_size r < ?N" by (simp add: ring_size_def n(2))
  then have "ring_size r = ?N - 1" using full by (simp add: ring_capacity_def n(2))
  then have "(unat (ring_tail r) + ?N - unat (ring_head r)) mod ?N = ?N - 1"
    by (simp only: ring_size_def n(2))
  then have "(unat (ring_tail r) + 1) mod ?N = unat (ring_head r)" using size_full [OF n(4,5)] by simp
  then have "ring_next (ring_mask r) (ring_tail r) = ring_head r"
    using unat_ring_next [OF n(1,5)] n(3) by (metis word_unat_eq_iff)
  then show ?thesis by (simp add: ring_push_def Let_def)
qed

lemma ring_pop_some:
  assumes ok: "ring_ok r" and it: "ring_list r = x # xs"
  shows "\<exists>r1. ring_pop r = Inr (Some x, r1) \<and> ring_ok r1 \<and> ring_list r1 = xs \<and> ring_capacity r1 = ring_capacity r"
proof -
  from ok obtain n where n: "n < LENGTH('b)" "length (ring_buffer r) = 2 ^ n" "ring_mask r = mask n"
    "unat (ring_head r) < 2 ^ n" "unat (ring_tail r) < 2 ^ n" by (auto simp: ring_ok_def)
  let ?N = "2 ^ n :: nat" let ?h = "unat (ring_head r)" let ?t = "unat (ring_tail r)"
  note nh = unat_ring_next [OF n(1,4)]
  have sz: "ring_size r = (?t + ?N - ?h) mod ?N" by (simp add: ring_size_def n(2))
  have pos: "0 < ring_size r" using it by (metis ring_list_length length_greater_0_conv list.distinct(1))
  then have ne: "?h \<noteq> ?t" using size_zero [OF n(4,5)] sz by simp
  let ?r1 = "r\<lparr> ring_head := ring_next (ring_mask r) (ring_head r) \<rparr>"
  have sz1: "ring_size ?r1 + 1 = ring_size r"
    using size_pop [OF n(4,5) ne] nh n(2,3) sz by (simp add: ring_size_def)
  have idx: "(Suc ?h mod ?N + k) mod ?N = Suc (?h + k) mod ?N" for k by (metis add_Suc mod_add_left_eq)
  have "ring_list r = ring_buffer r ! ?h # ring_list ?r1"
    unfolding ring_list_def sz1 [symmetric] using nh n(2,3,4)
    by (simp add: idx upt_conv_Cons map_Suc_upt [symmetric] comp_def del: upt_Suc)
  then have x: "x = ring_buffer r ! ?h" "ring_list ?r1 = xs" using it by simp_all
  have "ring_pop r = Inr (Some x, ?r1)" using ne n(2,4) x(1) by (auto simp: ring_pop_def Let_def)
  moreover have "ring_ok ?r1" unfolding ring_ok_def using n nh by (intro exI [of _ n]) simp
  ultimately show ?thesis using x(2) by (simp add: ring_capacity_def)
qed

lemma ring_pop_none:
  assumes "ring_ok r" and "ring_list r = []"
  shows "ring_pop r = Inr (None, r)"
proof -
  from assms(1) obtain n where n: "length (ring_buffer r) = 2 ^ n"
    "unat (ring_head r) < 2 ^ n" "unat (ring_tail r) < 2 ^ n" by (auto simp: ring_ok_def)
  have "ring_size r = 0" using assms(2) by (metis ring_list_length list.size(3))
  then have "ring_head r = ring_tail r"
    using size_zero [OF n(2,3)] by (simp add: ring_size_def n(1) word_unat_eq_iff)
  then show ?thesis by (simp add: ring_pop_def Let_def)
qed

interpretation ring: bounded_queue ring_list ring_ok ring_capacity ring_push ring_pop
  by unfold_locales (rule ring_push_room ring_push_full ring_pop_some ring_pop_none; assumption)+

lemma new_ring_ok:
  assumes "n < LENGTH('w :: len)"
  shows "ring_ok (new_ring x (2 ^ n :: 'w word))" and "ring_list (new_ring x (2 ^ n :: 'w word)) = []"
    and "ring_capacity (new_ring x (2 ^ n :: 'w word)) = 2 ^ n"
proof -
  have u: "unat (2 ^ n :: 'w word) = 2 ^ n" 
    using assms by (metis of_nat_numeral of_nat_power power_strict_increasing_iff one_less_numeral_iff semiring_norm(76) take_bit_nat_eq_self unsigned_of_nat)
  have m: "(2 ^ n :: 'w word) - 1 = mask n" by (simp add: mask_eq_exp_minus_1)
  show "ring_ok (new_ring x (2 ^ n :: 'w word))" "ring_list (new_ring x (2 ^ n :: 'w word)) = []"
    "ring_capacity (new_ring x (2 ^ n :: 'w word)) = 2 ^ n"
    using assms by (auto simp: ring_ok_def new_ring_def u m ring_list_def ring_size_def ring_capacity_def)
qed

end
