(* ===== verification/Spsc_Protocol.thy ===== *)
theory Spsc_Protocol
  imports Ring_Buffer
begin

text \<open>
  The two threads of a ring buffer, one memory access per step. The producer is \<open>SpscQueue::push\<close>,
  \<open>Gateway::inbound_push\<close>, \<open>EventDispatcher::enqueue\<close>, \<open>ReplayLogger::log\<close> or \<open>Logger::log\<close>: load the
  own index, load the other index (acquire), write the slot, store the own index (release). The
  consumer is \<open>SpscQueue::pop\<close>, \<open>Gateway::inbound_pop\<close>, or the loop of a publisher or writer thread.
  Most consumers read the slot before they release it; the replay logger's writer stores \<open>head_\<close>
  first and reads the line afterwards (\<open>early\<close>).

  Memory order: the atomic indices are kept with all values they ever had. An acquire load may return
  any value that is not older than the one the same thread read last; the owner of an index reads its
  last value. The slots are plain memory, so the theorem that the two threads never access the same
  slot at the same time is what makes reading the current contents right.
\<close>

datatype ('a, 'i) producer =
    P_idle
  | P_check 'a 'i        \<comment> \<open>\<open>tail\<close> loaded\<close>
  | P_write 'a 'i        \<comment> \<open>found room, about to write the slot\<close>
  | P_store 'a 'i        \<comment> \<open>slot written, about to store the next index\<close>

datatype ('a, 'i) consumer =
    C_idle
  | C_got 'i             \<comment> \<open>found an element\<close>
  | C_read 'i 'a         \<comment> \<open>slot read, about to release it\<close>
  | C_hold 'i            \<comment> \<open>slot released, still to be read\<close>

record ('a, 'i) spsc =
  sp_buffer :: "'a list"
  sp_mask :: 'i
  sp_heads :: "'i list"
  sp_tails :: "'i list"
  sp_seen_head :: nat
  sp_seen_tail :: nat
  sp_prod :: "('a, 'i) producer"
  sp_cons :: "('a, 'i) consumer"
  sp_accepted :: "'a list"
  sp_taken :: "'a list"
  sp_drops :: nat

definition spsc_init :: "'a \<Rightarrow> 'w :: len word \<Rightarrow> ('a, 'w word) spsc" where
  "spsc_init x capacity = \<lparr> sp_buffer = replicate (unat capacity) x, sp_mask = capacity - 1,
     sp_heads = [0], sp_tails = [0], sp_seen_head = 0, sp_seen_tail = 0, sp_prod = P_idle,
     sp_cons = C_idle, sp_accepted = [], sp_taken = [], sp_drops = 0 \<rparr>"

inductive spsc_step :: "bool \<Rightarrow> ('a, 'w :: len word) spsc \<Rightarrow> ('a, 'w word) spsc \<Rightarrow> bool" for early where
  p_call: "sp_prod s = P_idle \<Longrightarrow>
     spsc_step early s (s\<lparr> sp_prod := P_check x (last (sp_tails s)) \<rparr>)"
| p_full: "sp_prod s = P_check x t \<Longrightarrow> sp_seen_head s \<le> k \<Longrightarrow> k < length (sp_heads s) \<Longrightarrow>
     ring_next (sp_mask s) t = sp_heads s ! k \<Longrightarrow>
     spsc_step early s (s\<lparr> sp_prod := P_idle, sp_seen_head := k, sp_drops := sp_drops s + 1 \<rparr>)"
| p_room: "sp_prod s = P_check x t \<Longrightarrow> sp_seen_head s \<le> k \<Longrightarrow> k < length (sp_heads s) \<Longrightarrow>
     ring_next (sp_mask s) t \<noteq> sp_heads s ! k \<Longrightarrow>
     spsc_step early s (s\<lparr> sp_prod := P_write x t, sp_seen_head := k \<rparr>)"
| p_write: "sp_prod s = P_write x t \<Longrightarrow> unat t < length (sp_buffer s) \<Longrightarrow>
     spsc_step early s (s\<lparr> sp_buffer := (sp_buffer s)[unat t := x], sp_prod := P_store x t \<rparr>)"
| p_store: "sp_prod s = P_store x t \<Longrightarrow>
     spsc_step early s (s\<lparr> sp_tails := sp_tails s @ [ring_next (sp_mask s) t],
       sp_accepted := sp_accepted s @ [x], sp_prod := P_idle \<rparr>)"
| c_empty: "sp_cons s = C_idle \<Longrightarrow> sp_seen_tail s \<le> k \<Longrightarrow> k < length (sp_tails s) \<Longrightarrow>
     last (sp_heads s) = sp_tails s ! k \<Longrightarrow>
     spsc_step early s (s\<lparr> sp_seen_tail := k \<rparr>)"
| c_some: "sp_cons s = C_idle \<Longrightarrow> sp_seen_tail s \<le> k \<Longrightarrow> k < length (sp_tails s) \<Longrightarrow>
     last (sp_heads s) \<noteq> sp_tails s ! k \<Longrightarrow>
     spsc_step early s (s\<lparr> sp_cons := C_got (last (sp_heads s)), sp_seen_tail := k \<rparr>)"
| c_read: "\<not> early \<Longrightarrow> sp_cons s = C_got h \<Longrightarrow> unat h < length (sp_buffer s) \<Longrightarrow>
     spsc_step early s (s\<lparr> sp_cons := C_read h (sp_buffer s ! unat h) \<rparr>)"
| c_release: "sp_cons s = C_read h x \<Longrightarrow>
     spsc_step early s (s\<lparr> sp_heads := sp_heads s @ [ring_next (sp_mask s) h],
       sp_taken := sp_taken s @ [x], sp_cons := C_idle \<rparr>)"
| c_release_early: "early \<Longrightarrow> sp_cons s = C_got h \<Longrightarrow>
     spsc_step early s (s\<lparr> sp_heads := sp_heads s @ [ring_next (sp_mask s) h], sp_cons := C_hold h \<rparr>)"
| c_use: "sp_cons s = C_hold h \<Longrightarrow> unat h < length (sp_buffer s) \<Longrightarrow>
     spsc_step early s (s\<lparr> sp_taken := sp_taken s @ [sp_buffer s ! unat h], sp_cons := C_idle \<rparr>)"

abbreviation spsc_reach :: "bool \<Rightarrow> ('a, 'w :: len word) spsc \<Rightarrow> ('a, 'w word) spsc \<Rightarrow> bool" where
  "spsc_reach early \<equiv> (spsc_step early)\<^sup>*\<^sup>*"

section \<open>The invariant\<close>

text \<open>
  The index of a value in the history of \<open>head_\<close> or \<open>tail_\<close> is the number of elements ever taken
  or accepted, so the history index is the unwrapped counter and the value is the counter modulo the
  capacity.
\<close>

definition counts :: "nat \<Rightarrow> 'w :: len word list \<Rightarrow> bool" where
  "counts n ws \<longleftrightarrow> ws \<noteq> [] \<and> (\<forall>k<length ws. unat (ws ! k) = k mod 2 ^ n)"

definition released_n :: "('a, 'i) spsc \<Rightarrow> nat" where "released_n s = length (sp_heads s) - 1"
definition stored_n :: "('a, 'i) spsc \<Rightarrow> nat" where "stored_n s = length (sp_tails s) - 1"

text \<open>The first element the consumer has not finished with.\<close>

definition reading :: "('a, 'i) spsc \<Rightarrow> nat" where
  "reading s = (case sp_cons s of C_hold h \<Rightarrow> released_n s - 1 | _ \<Rightarrow> released_n s)"

definition producer_ok :: "nat \<Rightarrow> ('a, 'w :: len word) spsc \<Rightarrow> bool" where
  "producer_ok n s \<longleftrightarrow> (case sp_prod s of
     P_idle \<Rightarrow> True
   | P_check x t \<Rightarrow> unat t = stored_n s mod 2 ^ n
   | P_write x t \<Rightarrow> unat t = stored_n s mod 2 ^ n \<and> stored_n s + 2 \<le> sp_seen_head s + 2 ^ n
   | P_store x t \<Rightarrow> unat t = stored_n s mod 2 ^ n \<and> stored_n s + 2 \<le> sp_seen_head s + 2 ^ n
        \<and> sp_buffer s ! (stored_n s mod 2 ^ n) = x)"

definition consumer_ok :: "nat \<Rightarrow> ('a, 'w :: len word) spsc \<Rightarrow> bool" where
  "consumer_ok n s \<longleftrightarrow> (case sp_cons s of
     C_idle \<Rightarrow> True
   | C_got h \<Rightarrow> unat h = released_n s mod 2 ^ n \<and> released_n s < sp_seen_tail s
   | C_read h x \<Rightarrow> unat h = released_n s mod 2 ^ n \<and> released_n s < sp_seen_tail s \<and> x = sp_accepted s ! released_n s
   | C_hold h \<Rightarrow> 0 < released_n s \<and> unat h = (released_n s - 1) mod 2 ^ n)"

definition spsc_ok :: "nat \<Rightarrow> ('a, 'w :: len word) spsc \<Rightarrow> bool" where
  "spsc_ok n s \<longleftrightarrow> n < LENGTH('w) \<and> length (sp_buffer s) = 2 ^ n \<and> sp_mask s = mask n
     \<and> counts n (sp_heads s) \<and> counts n (sp_tails s)
     \<and> sp_seen_head s \<le> released_n s \<and> released_n s \<le> sp_seen_tail s \<and> sp_seen_tail s \<le> stored_n s
     \<and> stored_n s + 1 \<le> sp_seen_head s + 2 ^ n \<and> length (sp_accepted s) = stored_n s
     \<and> producer_ok n s \<and> consumer_ok n s
     \<and> (\<forall>k. reading s \<le> k \<longrightarrow> k < stored_n s \<longrightarrow> sp_buffer s ! (k mod 2 ^ n) = sp_accepted s ! k)
     \<and> sp_taken s = take (reading s) (sp_accepted s)"

lemma counts_last: "counts n ws \<Longrightarrow> unat (last ws) = (length ws - 1) mod 2 ^ n"
  by (auto simp: counts_def last_conv_nth)

lemma counts_snoc:
  fixes ws :: "'w :: len word list"
  assumes "counts n ws" and "n < LENGTH('w)" and "unat w = (length ws - 1) mod 2 ^ n"
  shows "counts n (ws @ [ring_next (mask n) w])"
proof -
  have "unat w < 2 ^ n" using assms(3) by simp
  from unat_ring_next [OF assms(2) this] assms(3)
  have "unat (ring_next (mask n) w) = (length ws - 1 + 1) mod 2 ^ n" by (simp add: mod_Suc_eq)
  moreover have "0 < length ws" using assms(1) by (simp add: counts_def)
  ultimately show ?thesis using assms(1) by (auto simp: counts_def nth_append less_Suc_eq)
qed

lemma spsc_ok_init:
  assumes "n < LENGTH('w :: len)"
  shows "spsc_ok n (spsc_init x (2 ^ n :: 'w word))"
  using new_ring_ok(3) [OF assms, of x] assms
  by (simp add: spsc_ok_def spsc_init_def counts_def released_n_def stored_n_def producer_ok_def consumer_ok_def
      reading_def new_ring_def ring_capacity_def mask_eq_exp_minus_1)

section \<open>Every step keeps the invariant\<close>

lemma slot_apart:
  "spsc_ok n s \<Longrightarrow> stored_n s + 2 \<le> sp_seen_head s + 2 ^ n \<Longrightarrow> reading s \<le> k \<Longrightarrow> k < stored_n s \<Longrightarrow>
   k mod 2 ^ n \<noteq> stored_n s mod 2 ^ n"
  by (rule slots_differ) (auto simp: spsc_ok_def reading_def split: consumer.splits)

lemma producer_step:
  assumes ok: "spsc_ok n s" and "spsc_step early s s1" and "sp_cons s1 = sp_cons s"
    and "sp_heads s1 = sp_heads s" and "sp_seen_tail s1 = sp_seen_tail s" and "sp_prod s1 \<noteq> sp_prod s"
  shows "spsc_ok n s1"
  using assms(2)
proof cases
  case (p_call x)
  then show ?thesis
    using ok counts_last [of n "sp_tails s"]
    by (auto simp: spsc_ok_def producer_ok_def consumer_ok_def reading_def released_n_def stored_n_def split: consumer.splits)
next
  case (p_full x t k)
  then show ?thesis
    using ok by (auto simp: spsc_ok_def producer_ok_def consumer_ok_def reading_def released_n_def stored_n_def split: consumer.splits)
next
  case (p_room x t k)
  have lens: "n < LENGTH('b)" "sp_mask s = mask n" "counts n (sp_heads s)" "unat t = stored_n s mod 2 ^ n"
    "stored_n s + 1 \<le> sp_seen_head s + 2 ^ n" "released_n s \<le> stored_n s"
    using ok p_room(2) by (auto simp: spsc_ok_def producer_ok_def)
  have "unat (ring_next (sp_mask s) t) = (stored_n s + 1) mod 2 ^ n"
    using unat_ring_next [OF lens(1), of t] lens(2,4) by (simp add: mod_Suc_eq)
  moreover have "unat (sp_heads s ! k) = k mod 2 ^ n" using lens(3) p_room(4) by (simp add: counts_def)
  ultimately have "(stored_n s + 1) mod 2 ^ n \<noteq> k mod 2 ^ n" using p_room(5) by (metis word_unat_eq_iff)
  then have "stored_n s + 1 \<noteq> k + 2 ^ n" by auto
  then have "stored_n s + 2 \<le> k + 2 ^ n" using lens(5) p_room(3) by linarith
  then show ?thesis
    using ok p_room by (auto simp: spsc_ok_def producer_ok_def consumer_ok_def reading_def released_n_def stored_n_def split: consumer.splits)
next
  case (p_write x t)
  have t: "unat t = stored_n s mod 2 ^ n" "stored_n s + 2 \<le> sp_seen_head s + 2 ^ n" "length (sp_buffer s) = 2 ^ n"
    using ok p_write(2) by (auto simp: spsc_ok_def producer_ok_def)
  have "sp_buffer s1 ! (k mod 2 ^ n) = sp_accepted s ! k" if "reading s \<le> k" "k < stored_n s" for k
    using slot_apart [OF ok t(2) that] ok that p_write t by (simp add: spsc_ok_def)
  then show ?thesis
    using ok p_write t by (auto simp: spsc_ok_def producer_ok_def consumer_ok_def reading_def released_n_def stored_n_def split: consumer.splits)
next
  case (p_store x t)
  have t: "unat t = stored_n s mod 2 ^ n" "stored_n s + 2 \<le> sp_seen_head s + 2 ^ n" "sp_buffer s ! (stored_n s mod 2 ^ n) = x"
    "n < LENGTH('b)" "sp_mask s = mask n" "counts n (sp_tails s)" "length (sp_accepted s) = stored_n s"
    using ok p_store(2) by (auto simp: spsc_ok_def producer_ok_def)
  have c: "counts n (sp_tails s1)"
    using counts_snoc [OF t(6,4)] t(1,5) p_store(1) by (simp add: stored_n_def)
  have st1: "stored_n s1 = stored_n s + 1" using p_store(1) t(6) by (auto simp: stored_n_def counts_def)
  have rd: "reading s1 = reading s" "reading s \<le> stored_n s" "released_n s1 = released_n s"
    using p_store(1) ok by (auto simp: reading_def released_n_def spsc_ok_def split: consumer.splits)
  have "sp_buffer s1 ! (k mod 2 ^ n) = sp_accepted s1 ! k" if "reading s1 \<le> k" "k < stored_n s1" for k
    using that ok p_store(1) t(3,7) st1 rd by (cases "k = stored_n s") (auto simp: spsc_ok_def nth_append)
  moreover have "consumer_ok n s1"
    using ok p_store(1) rd t(7) by (auto simp: spsc_ok_def consumer_ok_def nth_append split: consumer.splits)
  ultimately show ?thesis
    using ok p_store(1) c st1 rd t(2,7) by (auto simp: spsc_ok_def producer_ok_def)
qed (use assms(3-6) in auto)

lemma consumer_frame:
  "producer_ok n s \<Longrightarrow> stored_n s1 = stored_n s \<Longrightarrow> sp_prod s1 = sp_prod s \<Longrightarrow> sp_buffer s1 = sp_buffer s \<Longrightarrow>
   sp_seen_head s1 = sp_seen_head s \<Longrightarrow> producer_ok n s1"
  by (auto simp: producer_ok_def split: producer.splits)

lemma consumer_step:
  assumes ok: "spsc_ok n s" and "spsc_step early s s1" and "sp_prod s1 = sp_prod s"
    and "sp_tails s1 = sp_tails s" and "sp_seen_head s1 = sp_seen_head s" and "sp_drops s1 = sp_drops s"
    and "sp_buffer s1 = sp_buffer s"
  shows "spsc_ok n s1"
proof -
  have st: "stored_n s1 = stored_n s" using assms(4) by (simp add: stored_n_def)
  have pr: "producer_ok n s1" using consumer_frame [OF _ st assms(3,7,5)] ok by (simp add: spsc_ok_def)
  have b: "n < LENGTH('b)" "sp_mask s = mask n" "counts n (sp_heads s)" "counts n (sp_tails s)"
    "length (sp_buffer s) = 2 ^ n" "length (sp_accepted s) = stored_n s"
    "released_n s \<le> sp_seen_tail s" "sp_seen_tail s \<le> stored_n s" "sp_seen_head s \<le> released_n s"
    "stored_n s + 1 \<le> sp_seen_head s + 2 ^ n"
    using ok by (simp_all add: spsc_ok_def)
  show ?thesis
    using assms(2)
  proof cases
    case (c_empty k)
    then show ?thesis using ok pr st
      by (auto simp: spsc_ok_def consumer_ok_def reading_def released_n_def stored_n_def)
  next
    case (c_some k)
    have u: "unat (last (sp_heads s)) = released_n s mod 2 ^ n"
      using counts_last [OF b(3)] by (simp add: released_n_def)
    moreover have "unat (sp_tails s ! k) = k mod 2 ^ n" using b(4) c_some(4) by (simp add: counts_def)
    ultimately have "released_n s \<noteq> k" using c_some(5) by (metis word_unat_eq_iff)
    then have "released_n s < k" using b(7) c_some(3) by linarith
    then show ?thesis using ok pr st c_some u
      by (auto simp: spsc_ok_def consumer_ok_def reading_def released_n_def stored_n_def)
  next
    case (c_read h)
    have h: "unat h = released_n s mod 2 ^ n" "released_n s < sp_seen_tail s"
      using ok c_read(3) by (auto simp: spsc_ok_def consumer_ok_def)
    then have "sp_buffer s ! unat h = sp_accepted s ! released_n s"
      using ok c_read(3) b(8) by (simp add: spsc_ok_def reading_def)
    then show ?thesis using ok pr st c_read h
      by (auto simp: spsc_ok_def consumer_ok_def reading_def released_n_def stored_n_def)
  next
    case (c_release h x)
    have h: "unat h = released_n s mod 2 ^ n" "released_n s < sp_seen_tail s" "x = sp_accepted s ! released_n s"
      using ok c_release(2) by (auto simp: spsc_ok_def consumer_ok_def)
    have c: "counts n (sp_heads s1)" using counts_snoc [OF b(3,1)] h(1) b(2) c_release(1) by (simp add: released_n_def)
    have r1: "released_n s1 = released_n s + 1" using c_release(1) b(3) by (auto simp: released_n_def counts_def)
    have "take (released_n s) (sp_accepted s) @ [x] = take (released_n s + 1) (sp_accepted s)"
      using h(2,3) b(6,8) by (simp add: take_Suc_conv_app_nth)
    then show ?thesis using ok pr st c_release c r1 h(2)
      by (auto simp: spsc_ok_def consumer_ok_def reading_def)
  next
    case (c_release_early h)
    have h: "unat h = released_n s mod 2 ^ n" "released_n s < sp_seen_tail s"
      using ok c_release_early(3) by (auto simp: spsc_ok_def consumer_ok_def)
    have c: "counts n (sp_heads s1)" using counts_snoc [OF b(3,1)] h(1) b(2) c_release_early(1) by (simp add: released_n_def)
    have r1: "released_n s1 = released_n s + 1" using c_release_early(1) b(3) by (auto simp: released_n_def counts_def)
    show ?thesis using ok pr st c_release_early c r1 h by (auto simp: spsc_ok_def consumer_ok_def reading_def)
  next
    case (c_use h)
    have h: "unat h = (released_n s - 1) mod 2 ^ n" "0 < released_n s" "reading s = released_n s - 1"
      using ok c_use(2) by (auto simp: spsc_ok_def consumer_ok_def reading_def)
    then have "sp_buffer s ! unat h = sp_accepted s ! (released_n s - 1)"
      using ok b(7,8) by (simp add: spsc_ok_def)
    moreover have "take (released_n s - 1) (sp_accepted s) @ [sp_accepted s ! (released_n s - 1)]
        = take (released_n s) (sp_accepted s)"
      using h(2) b(6,7,8) take_Suc_conv_app_nth [of "released_n s - 1" "sp_accepted s"] by simp
    moreover have "reading s1 = released_n s" "released_n s1 = released_n s"
      using c_use(1) by (simp_all add: reading_def released_n_def)
    ultimately show ?thesis using ok pr st c_use(1) h
      by (auto simp: spsc_ok_def consumer_ok_def)
  qed (use assms(3-7) ok in auto)
qed

lemma spsc_ok_step:
  assumes "spsc_step early s s1" and "spsc_ok n s"
  shows "spsc_ok n s1"
  using assms(1)
proof cases
  case p_call
  then show ?thesis using producer_step [OF assms(2,1)] by simp
next
  case p_full
  then show ?thesis using producer_step [OF assms(2,1)] by simp
next
  case p_room
  then show ?thesis using producer_step [OF assms(2,1)] by simp
next
  case p_write
  then show ?thesis using producer_step [OF assms(2,1)] by simp
next
  case p_store
  then show ?thesis using producer_step [OF assms(2,1)] by simp
qed (use consumer_step [OF assms(2,1)] in simp_all)

lemma spsc_ok_reach: "spsc_reach early s s1 \<Longrightarrow> spsc_ok n s \<Longrightarrow> spsc_ok n s1"
  by (induction rule: rtranclp_induct) (auto intro: spsc_ok_step)

section \<open>Properties\<close>

text \<open>
  C18. First in, first out, nothing lost, nothing duplicated, nothing torn: under every interleaving, and
  however stale the indices are that the threads read, what the consumer has taken is a prefix of
  what the producer got accepted, and at most \<open>capacity - 1\<close> elements are in between; the consumer that
  releases its slot early may have one more in its hands.
\<close>
theorem spsc_fifo:
  assumes "n < LENGTH('w :: len)" and "spsc_reach early (spsc_init x (2 ^ n :: 'w word)) s"
  shows "\<exists>rest. sp_accepted s = sp_taken s @ rest \<and>
    length rest \<le> (case sp_cons s of C_hold h \<Rightarrow> 2 ^ n | _ \<Rightarrow> 2 ^ n - 1)"
proof -
  have ok: "spsc_ok n s" using spsc_ok_reach [OF assms(2) spsc_ok_init [OF assms(1)]] .
  have "sp_accepted s = sp_taken s @ drop (reading s) (sp_accepted s)"
    using ok by (simp add: spsc_ok_def)
  moreover have "length (drop (reading s) (sp_accepted s)) \<le> (case sp_cons s of C_hold h \<Rightarrow> 2 ^ n | _ \<Rightarrow> 2 ^ n - 1)"
    using ok by (auto simp: spsc_ok_def reading_def consumer_ok_def split: consumer.splits)
  ultimately show ?thesis by blast
qed

text \<open>
  A run on a ring of capacity two: one element is accepted, the writer releases its slot early and
  still holds it while the producer finds room for the next element.
\<close>

definition ex_hold :: "(nat, 32 word) spsc" where
  "ex_hold = \<lparr> sp_buffer = [7, 0], sp_mask = 1, sp_heads = [0, 1], sp_tails = [0, 1], sp_seen_head = 1,
     sp_seen_tail = 1, sp_prod = P_write 8 1, sp_cons = C_hold 0, sp_accepted = [7], sp_taken = [], sp_drops = 0 \<rparr>"

lemma ex_hold_reached: "spsc_reach True (spsc_init 0 (2 ^ 1)) ex_hold"
proof -
  let ?s0 = "spsc_init 0 (2 ^ 1) :: (nat, 32 word) spsc"
  let ?s1 = "?s0\<lparr> sp_prod := P_check 7 0 \<rparr>"
  let ?s2 = "?s1\<lparr> sp_prod := P_write 7 0, sp_seen_head := 0 \<rparr>"
  let ?s3 = "?s2\<lparr> sp_buffer := [7, 0], sp_prod := P_store 7 0 \<rparr>"
  let ?s4 = "?s3\<lparr> sp_tails := [0, 1], sp_accepted := [7], sp_prod := P_idle \<rparr>"
  let ?s5 = "?s4\<lparr> sp_cons := C_got 0, sp_seen_tail := 1 \<rparr>"
  let ?s6 = "?s5\<lparr> sp_heads := [0, 1], sp_cons := C_hold 0 \<rparr>"
  let ?s7 = "?s6\<lparr> sp_prod := P_check 8 1 \<rparr>"
  have nx: "ring_next 1 0 = (1 :: 32 word)" "ring_next 1 1 = (0 :: 32 word)" by (simp_all add: ring_next_def)
  have rp: "replicate 2 (0 :: nat) = [0, 0]" by (simp add: numeral_2_eq_2)
  have b0: "spsc_step True ?s0 ?s1" using spsc_step.p_call [of ?s0 True 7] by (simp add: spsc_init_def)
  have b1: "spsc_step True ?s1 ?s2"
    using spsc_step.p_room [of ?s1 7 0 0 True] by (simp add: spsc_init_def nx)
  have b2: "spsc_step True ?s2 ?s3"
    using spsc_step.p_write [of ?s2 7 0 True] by (simp add: spsc_init_def rp)
  have b3: "spsc_step True ?s3 ?s4" using spsc_step.p_store [of ?s3 7 0 True] by (simp add: spsc_init_def nx)
  have b4: "spsc_step True ?s4 ?s5" using spsc_step.c_some [of ?s4 1 True] by (simp add: spsc_init_def)
  have b5: "spsc_step True ?s5 ?s6" using spsc_step.c_release_early [of True ?s5 0] by (simp add: spsc_init_def nx)
  have b6: "spsc_step True ?s6 ?s7" using spsc_step.p_call [of ?s6 True 8] by (simp add: spsc_init_def)
  have b7: "spsc_step True ?s7 ex_hold"
    using spsc_step.p_room [of ?s7 8 1 1 True] by (simp add: spsc_init_def nx ex_hold_def)
  show ?thesis using b0 b1 b2 b3 b4 b5 b6 b7 by (meson converse_rtranclp_into_rtranclp rtranclp.rtrancl_refl)
qed

theorem spsc_fifo_witness: "\<exists>rest. sp_accepted ex_hold = sp_taken ex_hold @ rest \<and> length rest \<le> 2"
  using spsc_fifo [OF _ ex_hold_reached] by (simp add: ex_hold_def)

text \<open>
  C19. No data race: while the producer is about to write a slot, the consumer is never about to read the
  same one, and both slots are inside the buffer. The slot that is always left free makes this true for
  the replay logger's writer, which stores \<open>head_\<close> before it reads the line.
\<close>
theorem spsc_race_free:
  assumes "n < LENGTH('w :: len)" and "spsc_reach early (spsc_init x (2 ^ n :: 'w word)) s"
    and "sp_prod s = P_write y t" and "sp_cons s = C_got h \<or> sp_cons s = C_hold h"
  shows "t \<noteq> h \<and> unat t < length (sp_buffer s) \<and> unat h < length (sp_buffer s)"
proof -
  have ok: "spsc_ok n s" using spsc_ok_reach [OF assms(2) spsc_ok_init [OF assms(1)]] .
  have t: "unat t = stored_n s mod 2 ^ n" "stored_n s + 2 \<le> sp_seen_head s + 2 ^ n"
    using ok assms(3) by (auto simp: spsc_ok_def producer_ok_def)
  have h: "unat h = reading s mod 2 ^ n \<and> reading s < stored_n s"
    using ok assms(4) by (auto simp: spsc_ok_def consumer_ok_def reading_def)
  then have "unat h \<noteq> unat t" using slot_apart [OF ok t(2), of "reading s"] t(1) by simp
  then show ?thesis using t(1) h ok by (auto simp: spsc_ok_def)
qed

theorem spsc_race_free_witness: "(1 :: 32 word) \<noteq> 0 \<and> unat (1 :: 32 word) < length (sp_buffer ex_hold)"
  using spsc_race_free [OF _ ex_hold_reached, of 8 1 0] by (simp add: ex_hold_def)

end
