(* ===== verification/Exchange_Events.thy ===== *)
theory Exchange_Events
  imports Core_Types
begin

text \<open>
  The wire types of the exchange: inbound messages (\<^verbatim>\<open>src/events/order_message.hpp\<close>) and outbound
  events (\<^verbatim>\<open>src/events/exchange_events.hpp\<close>).
\<close>

datatype order_action = NewOrder | CancelOrder

record order_message =
  msg_order_id :: "64 word"
  msg_client_id :: "64 word"
  msg_symbol :: string
  msg_side :: side
  msg_type :: order_type
  msg_quantity :: "64 word"
  msg_price :: int
  msg_stop_price :: int
  msg_peak_qty :: "64 word"
  msg_timestamp :: "64 word"
  msg_action :: order_action

definition default_message :: order_message where
  "default_message = \<lparr> msg_order_id = 0, msg_client_id = 0, msg_symbol = '''', msg_side = Buy, msg_type = Limit,
     msg_quantity = 0, msg_price = 0, msg_stop_price = 0, msg_peak_qty = 0, msg_timestamp = 0, msg_action = NewOrder \<rparr>"

record order_accepted_event =
  acc_timestamp :: "64 word"
  acc_symbol :: string
  acc_order_id :: "64 word"
  acc_client_id :: "64 word"
  acc_price :: int
  acc_quantity :: "64 word"
  acc_side :: side
  acc_type :: order_type

record order_rejected_event =
  rjt_timestamp :: "64 word"
  rjt_symbol :: string
  rjt_order_id :: "64 word"
  rjt_client_id :: "64 word"
  rjt_reason :: reject_reason

record order_canceled_event =
  cxl_timestamp :: "64 word"
  cxl_symbol :: string
  cxl_order_id :: "64 word"
  cxl_remaining_qty :: "64 word"

record trade_executed_event =
  exe_timestamp :: "64 word"
  exe_symbol :: string
  exe_buy_order_id :: "64 word"
  exe_sell_order_id :: "64 word"
  exe_price :: int
  exe_quantity :: "64 word"

record book_updated_event =
  upd_timestamp :: "64 word"
  upd_symbol :: string
  upd_best_bid :: int
  upd_best_ask :: int
  upd_spread :: int
  upd_bid_levels :: nat
  upd_ask_levels :: nat

record snapshot_event =
  snp_timestamp :: "64 word"
  snp_symbol :: string
  snp_last_trade_price :: int
  snp_best_bid :: int
  snp_best_ask :: int
  snp_bids :: "(int \<times> 64 word) list"
  snp_asks :: "(int \<times> 64 word) list"

datatype exchange_event =
    OrderAccepted order_accepted_event
  | OrderRejected order_rejected_event
  | OrderCanceled order_canceled_event
  | TradeExecuted trade_executed_event
  | BookUpdated book_updated_event
  | Snapshot snapshot_event

section \<open>Values in range\<close>

text \<open>Every signed number of an event fits into 64 bits, and so do the numbers of levels.\<close>

fun event_typed :: "exchange_event \<Rightarrow> bool" where
  "event_typed (OrderAccepted e) = int64_ok (acc_price e)"
| "event_typed (OrderRejected e) = True"
| "event_typed (OrderCanceled e) = True"
| "event_typed (TradeExecuted e) = int64_ok (exe_price e)"
| "event_typed (BookUpdated e) = (int64_ok (upd_best_bid e) \<and> int64_ok (upd_best_ask e) \<and> int64_ok (upd_spread e) \<and>
     upd_bid_levels e < 2 ^ 64 \<and> upd_ask_levels e < 2 ^ 64)"
| "event_typed (Snapshot e) = (int64_ok (snp_last_trade_price e) \<and> int64_ok (snp_best_bid e) \<and> int64_ok (snp_best_ask e) \<and>
     list_all (\<lambda>(p, q). int64_ok p) (snp_bids e @ snp_asks e))"

text \<open>The symbol of an event, and plain text: characters of ASCII only.\<close>

fun event_symbol :: "exchange_event \<Rightarrow> string" where
  "event_symbol (OrderAccepted e) = acc_symbol e"
| "event_symbol (OrderRejected e) = rjt_symbol e"
| "event_symbol (OrderCanceled e) = cxl_symbol e"
| "event_symbol (TradeExecuted e) = exe_symbol e"
| "event_symbol (BookUpdated e) = upd_symbol e"
| "event_symbol (Snapshot e) = snp_symbol e"

definition plain_text :: "string \<Rightarrow> bool" where
  "plain_text s \<longleftrightarrow> list_all (\<lambda>c. (of_char c :: nat) < 128) s"

definition sendable :: "exchange_event \<Rightarrow> bool" where
  "sendable e \<longleftrightarrow> event_typed e \<and> plain_text (event_symbol e)"

end
