(* ===== verification/Exchange_Manager.thy ===== *)
theory Exchange_Manager
  imports Engine_Handlers Exchange_Events Text_Format
begin

text \<open>
  The exchange manager (\<^verbatim>\<open>src/gateway/exchange_manager.hpp\<close>, \<^verbatim>\<open>exchange_manager.cpp\<close>): one matching engine
  per instrument, routing by symbol, translation of engine results to exchange events, snapshots.
  \<open>now_ns\<close> reads a clock: its readings are arguments.
\<close>

definition kInstrumentCount :: nat where "kInstrumentCount = 25"

record exchange =
  instruments :: "(string \<times> engine) list"
  index :: "(string, nat) fmap"

definition symbol_name :: "nat \<Rightarrow> string" where
  "symbol_name i = ''STOCK_'' @ show_nat i"

fun add_instruments :: "engine_config \<Rightarrow> nat list \<Rightarrow> exchange \<Rightarrow> exchange" where
  "add_instruments cfg [] ex = ex"
| "add_instruments cfg (i # is) ex = (let sy = symbol_name i in
     add_instruments cfg is \<lparr> instruments = instruments ex @ [(sy, new_engine cfg)],
       index = fmupd sy (i - 1) (index ex) \<rparr>)"

definition new_exchange :: "engine_config \<Rightarrow> exchange" where
  "new_exchange cfg = add_instruments cfg [1..<kInstrumentCount + 1] \<lparr> instruments = [], index = fmempty \<rparr>"

definition has_symbol :: "string \<Rightarrow> exchange \<Rightarrow> bool" where
  "has_symbol sy ex \<longleftrightarrow> fmlookup (index ex) sy \<noteq> None"

section \<open>Translation of results\<close>

definition rejected_event :: "timestamp \<Rightarrow> order_message \<Rightarrow> rejection \<Rightarrow> exchange_event" where
  "rejected_event ts msg rej = OrderRejected \<lparr> rjt_timestamp = ts, rjt_symbol = msg_symbol msg,
     rjt_order_id = rej_order_id rej, rjt_client_id = msg_client_id msg, rjt_reason = rej_reason rej \<rparr>"

definition canceled_event :: "timestamp \<Rightarrow> order_message \<Rightarrow> execution_report \<Rightarrow> exchange_event" where
  "canceled_event ts msg rep = OrderCanceled \<lparr> cxl_timestamp = ts, cxl_symbol = msg_symbol msg,
     cxl_order_id = rep_order_id rep, cxl_remaining_qty = rep_remaining_qty rep \<rparr>"

definition executed_event :: "timestamp \<Rightarrow> order_message \<Rightarrow> trade \<Rightarrow> exchange_event" where
  "executed_event ts msg t = TradeExecuted \<lparr> exe_timestamp = ts, exe_symbol = msg_symbol msg,
     exe_buy_order_id = (if tr_aggressor_side t = AggBuy then tr_aggressor_id t else tr_passive_id t),
     exe_sell_order_id = (if tr_aggressor_side t = AggBuy then tr_passive_id t else tr_aggressor_id t),
     exe_price = tr_price t, exe_quantity = tr_quantity t \<rparr>"

definition accepted_event :: "timestamp \<Rightarrow> order_message \<Rightarrow> exchange_event" where
  "accepted_event ts msg = OrderAccepted \<lparr> acc_timestamp = ts, acc_symbol = msg_symbol msg,
     acc_order_id = msg_order_id msg, acc_client_id = msg_client_id msg, acc_price = msg_price msg,
     acc_quantity = msg_quantity msg, acc_side = msg_side msg, acc_type = msg_type msg \<rparr>"

definition value_or_0 :: "int option \<Rightarrow> int" where
  "value_or_0 v = (case v of None \<Rightarrow> 0 | Some x \<Rightarrow> x)"

definition updated_event :: "timestamp \<Rightarrow> order_message \<Rightarrow> order_book \<Rightarrow> fault + exchange_event" where
  "updated_event ts msg b = bind_res (spread b) (\<lambda>sp. Inr (BookUpdated \<lparr> upd_timestamp = ts,
     upd_symbol = msg_symbol msg, upd_best_bid = value_or_0 (best_bid b), upd_best_ask = value_or_0 (best_ask b),
     upd_spread = value_or_0 sp, upd_bid_levels = bid_level_count b, upd_ask_levels = ask_level_count b \<rparr>))"

definition translate_result ::
  "timestamp \<Rightarrow> order_message \<Rightarrow> match_result \<Rightarrow> order_book \<Rightarrow> fault + exchange_event list" where
  "translate_result ts msg res b = bind_res (updated_event ts msg b) (\<lambda>upd.
     Inr (map (rejected_event ts msg) (rejections res)
        @ map (canceled_event ts msg) (filter (\<lambda>rep. rep_status rep = Cancelled) (reports res))
        @ map (executed_event ts msg) (trades res)
        @ (if msg_action msg = NewOrder \<and> rejections res = [] then [accepted_event ts msg] else [])
        @ [upd]))"

section \<open>Routing\<close>

definition message_order :: "timestamp \<Rightarrow> order_message \<Rightarrow> order" where
  "message_order now msg = default_order\<lparr> ord_id := msg_order_id msg, ord_side := msg_side msg,
     ord_type := msg_type msg, ord_price := msg_price msg, ord_stop_price := msg_stop_price msg,
     ord_quantity := msg_quantity msg, ord_orig_qty := msg_quantity msg, ord_peak_qty := msg_peak_qty msg,
     ord_timestamp := (if msg_timestamp msg \<noteq> 0 then msg_timestamp msg else now), ord_status := New \<rparr>"

definition message_event :: "timestamp \<Rightarrow> order_message \<Rightarrow> order_event" where
  "message_event now msg = (if msg_action msg = CancelOrder
     then CancelOrderEvent \<lparr> cancel_order_id = msg_order_id msg, cancel_timestamp = msg_timestamp msg \<rparr>
     else NewOrderEvent (message_order now msg))"

definition process :: "timestamp \<Rightarrow> timestamp \<Rightarrow> order_message \<Rightarrow> exchange \<Rightarrow> fault + exchange_event list \<times> exchange" where
  "process now ts msg ex = (case fmlookup (index ex) (msg_symbol msg) of
     None \<Rightarrow> Inr ([], ex)
   | Some k \<Rightarrow>
       if k < length (instruments ex)
       then bind_res (submit (message_event now msg) (snd (instruments ex ! k))) (\<lambda>(res, s1).
         bind_res (translate_result ts msg res (book s1)) (\<lambda>evs.
           Inr (evs, ex\<lparr> instruments := (instruments ex)[k := (fst (instruments ex ! k), s1)] \<rparr>)))
       else Inl Missing_key)"

section \<open>Snapshots\<close>

definition snapshot :: "timestamp \<Rightarrow> string \<Rightarrow> exchange \<Rightarrow> fault + snapshot_event" where
  "snapshot ts sy ex = (case fmlookup (index ex) sy of
     None \<Rightarrow> Inl Missing_key
   | Some k \<Rightarrow>
       if k < length (instruments ex)
       then let b = book (snd (instruments ex ! k)) in
         Inr \<lparr> snp_timestamp = ts, snp_symbol = sy, snp_last_trade_price = last_trade_price b,
           snp_best_bid = value_or_0 (best_bid b), snp_best_ask = value_or_0 (best_ask b),
           snp_bids = map (\<lambda>(p, l). (p, lvl_volume l)) (bids b),
           snp_asks = map (\<lambda>(p, l). (p, lvl_volume l)) (asks b) \<rparr>
       else Inl Missing_key)"

fun snapshot_list :: "(nat \<Rightarrow> timestamp) \<Rightarrow> nat \<Rightarrow> string list \<Rightarrow> exchange \<Rightarrow> fault + snapshot_event list" where
  "snapshot_list clock n [] ex = Inr []"
| "snapshot_list clock n (sy # sys) ex = bind_res (snapshot (clock n) sy ex) (\<lambda>s1.
     bind_res (snapshot_list clock (n + 1) sys ex) (\<lambda>ss. Inr (s1 # ss)))"

definition snapshot_all :: "(nat \<Rightarrow> timestamp) \<Rightarrow> exchange \<Rightarrow> fault + snapshot_event list" where
  "snapshot_all clock ex = snapshot_list clock 0 (map fst (instruments ex)) ex"

section \<open>Well-formed exchanges\<close>

definition instruments_ok :: "exchange \<Rightarrow> bool" where
  "instruments_ok ex \<longleftrightarrow> distinct (map fst (instruments ex)) \<and>
     (\<forall>sy k. fmlookup (index ex) sy = Some k \<longleftrightarrow> k < length (instruments ex) \<and> fst (instruments ex ! k) = sy)"

definition engine_of :: "string \<Rightarrow> exchange \<Rightarrow> engine option" where
  "engine_of sy ex = map_of (instruments ex) sy"

lemma engine_of_lookup:
  assumes "instruments_ok ex"
  shows "engine_of sy ex = (case fmlookup (index ex) sy of
     None \<Rightarrow> None | Some k \<Rightarrow> Some (snd (instruments ex ! k)))"
proof (cases "fmlookup (index ex) sy")
  case None
  then have "\<forall>k<length (instruments ex). fst (instruments ex ! k) \<noteq> sy"
    using assms unfolding instruments_ok_def by (metis option.distinct(1))
  then have "sy \<notin> fst ` set (instruments ex)" by (force simp: in_set_conv_nth)
  then show ?thesis using None by (simp add: engine_of_def map_of_eq_None_iff)
next
  case (Some k)
  then have k: "k < length (instruments ex)" "fst (instruments ex ! k) = sy" "distinct (map fst (instruments ex))"
    using assms by (auto simp: instruments_ok_def)
  then have "(sy, snd (instruments ex ! k)) \<in> set (instruments ex)" by (metis nth_mem prod.collapse)
  then show ?thesis using Some k(3) by (simp add: engine_of_def)
qed

lemma has_symbol_engine: "instruments_ok ex \<Longrightarrow> has_symbol sy ex \<longleftrightarrow> engine_of sy ex \<noteq> None"
  by (simp add: has_symbol_def engine_of_lookup split: option.split)

lemma update_instrument:
  assumes ok: "instruments_ok ex" and k: "fmlookup (index ex) sy = Some k"
    and ex1: "ex1 = ex\<lparr> instruments := (instruments ex)[k := (fst (instruments ex ! k), s1)] \<rparr>"
  shows "instruments_ok ex1" and "engine_of sy' ex1 = (if sy' = sy then Some s1 else engine_of sy' ex)"
proof -
  have kk: "k < length (instruments ex)" "fst (instruments ex ! k) = sy"
    using ok k by (auto simp: instruments_ok_def)
  have keys: "map fst (instruments ex1) = map fst (instruments ex)"
    using kk(1) by (simp add: ex1 map_update) (metis kk(1) list_update_id map_update)
  have nth: "fst (instruments ex1 ! j) = fst (instruments ex ! j)" if "j < length (instruments ex)" for j
    using that kk(1) by (cases "j = k") (simp_all add: ex1)
  have same: "k1 < length (instruments ex1) \<and> fst (instruments ex1 ! k1) = s2 \<longleftrightarrow>
      k1 < length (instruments ex) \<and> fst (instruments ex ! k1) = s2" for k1 s2
    using nth [of k1] by (auto simp: ex1)
  have "index ex1 = index ex" by (simp add: ex1)
  then show ok1: "instruments_ok ex1"
    using ok unfolding instruments_ok_def keys same by simp
  show "engine_of sy' ex1 = (if sy' = sy then Some s1 else engine_of sy' ex)"
  proof (cases "fmlookup (index ex) sy'")
    case None
    then have "sy' \<noteq> sy" using k by auto
    then show ?thesis
      using None unfolding engine_of_lookup [OF ok] engine_of_lookup [OF ok1] by (simp add: ex1)
  next
    case (Some j)
    then have j: "j < length (instruments ex)" "fst (instruments ex ! j) = sy'" using ok by (auto simp: instruments_ok_def)
    have "j = k \<longleftrightarrow> sy' = sy" using Some k j(2) kk(2) by (metis option.inject)
    then show ?thesis
      using Some kk(1) unfolding engine_of_lookup [OF ok] engine_of_lookup [OF ok1] by (cases "j = k") (simp_all add: ex1)
  qed
qed

end
