(* ===== verification/Engine_Prices.thy ===== *)
theory Engine_Prices
  imports Engine_History
begin

text \<open>
  Prices are copied, never computed: a condition that holds for the last trade price, for the price of every order of
  the engine and of a new order (and for 0, the price of a stop turned into a market order) holds for every
  order and every trade later on, hence for the best prices. With prices from 0 to \<open>2 ^ 63 - 1\<close> the spread and, up to
  \<open>2 ^ 62 - 1\<close>, the mid price cannot overflow.
\<close>

definition priced :: "(price \<Rightarrow> bool) \<Rightarrow> order list \<Rightarrow> engine \<Rightarrow> bool" where
  "priced P X s \<longleftrightarrow> config_ok X s \<and> P (last_trade_price (book s)) \<and> (\<forall>o1\<in>set (X @ pending_stops s). P (ord_price o1))
     \<and> (\<forall>i o1. fmlookup (id_map (book s)) i = Some o1 \<longrightarrow> P (ord_price o1))"

definition tick_price :: "price \<Rightarrow> bool" where
  "tick_price p \<longleftrightarrow> 0 \<le> p \<and> p < 2 ^ 63"

lemma mstep_priced:
  assumes "mstep (X, s, r) (X1, s1, r1)" and inv: "priced P X s" and P0: "P 0"
  shows "priced P X1 s1"
proof -
  have ok: "config_ok X s" using inv by (simp add: priced_def)
  have ok1: "config_ok X1 s1" by (rule mstep_config_ok [OF assms(1) ok])
  show ?thesis
    using assms(1)
  proof (cases "(X, s, r)" "(X1, s1, r1)" rule: mstep.cases)
    case (fill a e j p s2 a1 t X)
    have ok': "config_ok (a # X) s" using ok fill(1) by simp
    note f = fill_effect [OF ok' fill(5,7,8)]
    have "last_trade_price (book s1) = ord_price p"
      using fill_facts [OF config_okD(1) [OF ok'] fill(5,7,8)] fill(2) by auto
    moreover have "P (ord_price o1)" if "fmlookup (id_map (book s1)) i = Some o1" for i o1
      using that inv f(3) passive_after_static
      by (cases "i = j") (auto simp: f(7) fill_map_same fill_map_other priced_def)
    ultimately show ?thesis using inv ok1 fill(1,2) f(1,3,8) by (auto simp: priced_def)
  next
    case (convert st X)
    then show ?thesis using inv ok1 P0 by (auto simp: priced_def prepare_convert_simps)
  qed (use inv ok1 in \<open>auto simp: priced_def rest_order_def\<close>)
qed

lemma mstep_priced_trades:
  assumes "mstep (X, s, r) (X1, s1, r1)" and inv: "priced P X s" and tr: "\<forall>t\<in>set (trades r). P (tr_price t)"
  shows "\<forall>t\<in>set (trades r1). P (tr_price t)"
  using assms(1)
proof (cases "(X, s, r)" "(X1, s1, r1)" rule: mstep.cases)
  case (fill a e j p s2 a1 t X)
  have ok: "config_ok (a # X) s" using inv fill(1) by (simp add: priced_def)
  have "P (ord_price p)" using inv fill_effect(3) [OF ok fill(5,7,8)] by (auto simp: priced_def)
  moreover have "tr_price t = ord_price p"
    using fill_facts [OF config_okD(1) [OF ok] fill(5,7,8)] by (auto simp: fill_trade_def)
  ultimately show ?thesis using tr fill(3) by (auto simp: push_trade_def)
qed (use tr in \<open>auto simp: push_rejection_def\<close>)

interpretation priced: step_invariant "\<lambda>X s r. P 0 \<and> priced P X s \<and> (\<forall>t\<in>set (trades r). P (tr_price t))" for P
  using mstep_priced mstep_priced_trades by unfold_locales blast

lemma priced_new:
  assumes "priced P [] s" and "P 0" and "P (ord_price o1)" and "fresh_id (ord_id o1) s"
    and run: "process_new_order n o1 s = Inr (r, s1)"
  shows "priced P [] s1" and "\<forall>t\<in>set (trades r). P (tr_price t)"
proof -
  have e: "engine_ok s" using assms(1) by (simp add: priced_def engine_ok_def)
  have "config_ok [prepare_order o1] s"
    using config_ok_ids [OF fresh_config [OF e assms(4)], of "prepare_order o1"] by simp
  moreover have "ord_price (prepare_order o1) = ord_price o1"
    by (simp add: prepare_order_def split_iceberg_def Let_def)
  ultimately have "priced P [prepare_order o1] s" using assms(1,3) by (auto simp: priced_def)
  then show "priced P [] s1" "\<forall>t\<in>set (trades r). P (tr_price t)"
    using priced.new_order [OF run engine_okD(3) [OF e], of P "[]" empty_result] assms(2)
    by (simp_all add: append_result_def empty_result_def)
qed

lemma priced_counted: "priced P X (s\<lparr> sequence := k \<rparr>) = priced P X s"
  by (simp add: priced_def)

lemma priced_cancel:
  assumes "priced P [] s" and "config_ok [] (snd (process_cancel e s))"
  shows "priced P [] (snd (process_cancel e s))"
proof (cases "take_stop (cancel_order_id e) (pending_stops s)")
  case None
  have "fmlookup (id_map (book s)) j = Some o1"
    if "fmlookup (id_map (snd (cancel_order i (book s)))) j = Some o1" for i j o1
    using that by (cases "fmlookup (id_map (book s)) i") (auto simp: cancel_order_None cancel_order_fields split: if_splits)
  moreover note cancel_order_fields(2)
  ultimately show ?thesis
    using assms None by (fastforce simp: process_cancel_def priced_def split: option.splits if_splits)
next
  case (Some p)
  obtain st ps where p: "p = (st, ps)" by fastforce
  from take_stop_Some [OF Some [unfolded p]] obtain xs ys
    where "pending_stops s = xs @ st # ys" "ps = xs @ ys" by blast
  then show ?thesis using Some p assms by (auto simp: process_cancel_def priced_def)
qed

lemma priced_start: "P 0 \<Longrightarrow> priced P [] (new_engine cfg)"
  using engine_ok_new [of cfg] by (simp add: priced_def engine_ok_def new_engine_def empty_book_def)

section \<open>The best prices are prices of orders\<close>

lemma level_has_order:
  assumes "book_ok b" and "(p, l) \<in> set (side_levels sd b)"
  shows "\<exists>i o1. fmlookup (id_map b) i = Some o1 \<and> ord_side o1 = sd \<and> ord_price o1 = p"
proof -
  have "queue_at (side_levels sd b) p \<noteq> []"
    using queue_at_nonempty [OF book_ok_levels [OF assms(1), of sd]] assms(2) by force
  then obtain i where i: "i \<in> set (queue_of b sd p)" by (metis last_in_set queue_of_def)
  then show ?thesis using assms(1) by (auto simp: book_ok_def)
qed

lemma best_prices_priced:
  assumes "priced P X s"
  shows "best_bid (book s) = Some p \<Longrightarrow> P p" and "best_ask (book s) = Some p \<Longrightarrow> P p"
  using assms level_has_order [of "book s" p _ Buy] level_has_order [of "book s" p _ Sell]
  by (force simp: priced_def config_ok_def best_bid_def best_ask_def split: list.splits)+

lemma level_prices:
  assumes "priced P X s" and "e \<in> set (bids (book s)) \<or> e \<in> set (asks (book s))"
  shows "P (fst e)"
  using assms level_has_order [of "book s" "fst e" "snd e" Buy] level_has_order [of "book s" "fst e" "snd e" Sell]
  by (force simp: priced_def config_ok_def)

text \<open>With prices from 0 to \<open>2 ^ 63 - 1\<close> there are at most \<open>2 ^ 63\<close> levels on a side.\<close>

lemma level_count_bound:
  assumes "priced tick_price X s"
  shows "length (bids (book s)) < 2 ^ 64" and "length (asks (book s)) < 2 ^ 64"
proof -
  have "book_ok (book s)" using assms by (simp add: priced_def config_ok_def)
  from book_ok_levels [OF this, of Buy] book_ok_levels [OF this, of Sell]
  have lv: "levels_ok (>) (bids (book s))" "levels_ok (<) (asks (book s))" by (simp_all add: better_Buy better_Sell)
  have bound: "length m < 2 ^ 64" if "distinct (map fst m)" "\<forall>e\<in>set m. tick_price (fst e)" for m :: levels
  proof -
    have "set (map fst m) \<subseteq> {0..<2 ^ 63}" using that(2) by (auto simp: tick_price_def)
    then have "card (set (map fst m)) \<le> card {0 :: int..<2 ^ 63}" by (intro card_mono) simp_all
    then show ?thesis using distinct_card [OF that(1)] by simp
  qed
  have "distinct (map fst (bids (book s)))" "distinct (map fst (asks (book s)))"
    using lv by (simp_all add: levels_ok_def ask_side.sorted_distinct bid_side.sorted_distinct)
  with bound show "length (bids (book s)) < 2 ^ 64" "length (asks (book s)) < 2 ^ 64"
    using level_prices [OF assms] by blast+
qed

lemma spread_in_range:
  assumes "priced tick_price X s"
  shows "\<exists>v. spread (book s) = Inr v"
  using best_prices_priced [OF assms]
  by (fastforce simp: spread_def tick_price_def int64_ok_def split: option.splits)

end
