(* ===== verification/Engine_Parties.thy ===== *)
theory Engine_Parties
  imports Engine_History
begin

text \<open>
  Who takes part in a trade and who can be rejected: every trade has a buyer whose order is on the buy
  side and a seller whose order is on the sell side; only market orders, and stops that turn into
  market orders, are rejected while matching.
\<close>

definition buyer :: "trade \<Rightarrow> order_id" where
  "buyer t = (if tr_aggressor_side t = AggBuy then tr_aggressor_id t else tr_passive_id t)"

definition seller :: "trade \<Rightarrow> order_id" where
  "seller t = (if tr_aggressor_side t = AggBuy then tr_passive_id t else tr_aggressor_id t)"

text \<open>\<open>F\<close> gives the side of every order the engine ever sees during one event.\<close>

definition sided :: "(order_id \<Rightarrow> side option) \<Rightarrow> order list \<Rightarrow> engine \<Rightarrow> match_result \<Rightarrow> bool" where
  "sided F X s r \<longleftrightarrow> config_ok X s
     \<and> (\<forall>o1\<in>set (X @ pending_stops s). F (ord_id o1) = Some (ord_side o1))
     \<and> (\<forall>i o1. fmlookup (id_map (book s)) i = Some o1 \<longrightarrow> F i = Some (ord_side o1))
     \<and> (\<forall>t\<in>set (trades r). F (buyer t) = Some Buy \<and> F (seller t) = Some Sell)"

lemma mstep_sided:
  assumes "mstep (X, s, r) (X1, s1, r1)" and inv: "sided F X s r"
  shows "sided F X1 s1 r1"
proof -
  have ok: "config_ok X s" using inv by (simp add: sided_def)
  have ok1: "config_ok X1 s1" by (rule mstep_config_ok [OF assms(1) ok])
  show ?thesis
    using assms(1)
  proof (cases "(X, s, r)" "(X1, s1, r1)" rule: mstep.cases)
    case (fill a e j p s2 a1 t X)
    have ok': "config_ok (a # X) s" using ok fill(1) by simp
    note f = fill_effect [OF ok' fill(5,7,8)]
    have sides: "F (ord_id a) = Some (ord_side a)" "F j = Some (opp (ord_side a))"
      using inv f(3,5) fill(1) by (auto simp: sided_def)
    have "F (buyer t) = Some Buy \<and> F (seller t) = Some Sell"
      using sides by (cases "ord_side a") (simp_all add: f(2,4) buyer_def seller_def is_buy_def)
    moreover have "F i = Some (ord_side o1)" if "fmlookup (id_map (book s1)) i = Some o1" for i o1
      using that inv f(3) passive_after_static
      by (cases "i = j") (auto simp: f(7) fill_map_same fill_map_other sided_def)
    ultimately show ?thesis using inv ok1 fill(1-3) f(1,8) by (auto simp: sided_def)
  next
    case (convert st X)
    then show ?thesis using inv ok1 by (auto simp: sided_def prepare_convert_simps)
  qed (use inv ok1 in \<open>auto simp: sided_def\<close>)
qed

interpretation sided: step_invariant "sided F" for F
  by unfold_locales (rule mstep_sided)

definition order_side :: "order \<Rightarrow> engine \<Rightarrow> order_id \<Rightarrow> side option" where
  "order_side o1 s i = (if i = ord_id o1 then Some (ord_side o1) else
     case fmlookup (id_map (book s)) i of Some o2 \<Rightarrow> Some (ord_side o2)
     | None \<Rightarrow> map_option ord_side (find (\<lambda>st. ord_id st = i) (pending_stops s)))"

lemma trade_parties:
  assumes e: "engine_ok s" and fr: "fresh_id (ord_id o1) s"
    and run: "submit (NewOrderEvent o1) s = Inr (r, s1)" and t: "t \<in> set (trades r)"
  shows "order_side o1 s (buyer t) = Some Buy \<and> order_side o1 s (seller t) = Some Sell"
proof -
  have st: "config_ok [prepare_order o1] (counted s)" by (rule start_ok [OF e fr])
  have "ord_side (prepare_order o1) = ord_side o1" by (simp add: prepare_order_def split_iceberg_def Let_def)
  moreover have "order_side o1 s (ord_id o2) = Some (ord_side o2)" if "o2 \<in> set (pending_stops s)" for o2
    using find_distinct [of ord_id "pending_stops s" o2] that config_ok_top(2) [OF st] engine_okD(2,4) [OF e]
    by (force simp: order_side_def)
  moreover have "order_side o1 s i = Some (ord_side o2)" if "fmlookup (id_map (book s)) i = Some o2" for i o2
    using that config_ok_top(1) [OF st] by (auto simp: order_side_def)
  ultimately have "sided (order_side o1 s) [prepare_order o1] (counted s) empty_result"
    using st by (auto simp: sided_def) (simp add: order_side_def)
  from sided.submitted_new [OF run engine_okD(3) [OF e] this] t show ?thesis by (simp add: sided_def)
qed

section \<open>Rejections\<close>

definition takes_market :: "order \<Rightarrow> bool" where
  "takes_market o1 \<longleftrightarrow> ord_type o1 = Market \<or> ord_type o1 = Stop"

definition rejects :: "order_id set \<Rightarrow> order list \<Rightarrow> engine \<Rightarrow> match_result \<Rightarrow> bool" where
  "rejects A X s r \<longleftrightarrow> (\<forall>o1\<in>set (X @ pending_stops s). takes_market o1 \<longrightarrow> ord_id o1 \<in> A)
     \<and> (\<forall>rj\<in>set (rejections r). rej_order_id rj \<in> A)"

lemma mstep_rejects:
  assumes "mstep (X, s, r) (X1, s1, r1)" and inv: "rejects A X s r"
  shows "rejects A X1 s1 r1"
  using assms(1)
proof (cases "(X, s, r)" "(X1, s1, r1)" rule: mstep.cases)
  case (fill a e j p s2 a1 t X)
  then show ?thesis
    using inv passive_front_frame [OF fill(7)] apply_fill_frame [OF fill(8)] apply_fill_aggr [OF fill(8)]
    by (auto simp: rejects_def takes_market_def)
next
  case (convert st X)
  then show ?thesis using inv by (auto simp: rejects_def takes_market_def prepare_convert_simps split: if_splits)
next
  case (mark a X z)
  then show ?thesis using inv by (auto simp: rejects_def takes_market_def)
next
  case (exhaust a)
  then show ?thesis using inv by (auto simp: rejects_def takes_market_def market_exhausted_def)
qed (use inv in \<open>auto simp: rejects_def\<close>)

interpretation rejects: step_invariant "rejects A" for A
  by unfold_locales (rule mstep_rejects)

lemma not_rejected:
  assumes "submit (NewOrderEvent o1) s = Inr (r, s1)" and "engine_ok s"
    and "\<not> takes_market o1" and "\<forall>st\<in>set (pending_stops s). \<not> takes_market st"
  shows "rejections r = []"
proof -
  have "\<not> takes_market (prepare_order o1)" using assms(3) by (simp add: takes_market_def prepare_order_simps)
  then have "rejects {} [prepare_order o1] (counted s) empty_result" using assms(4) by (simp add: rejects_def)
  from rejects.submitted_new [OF assms(1) engine_okD(3) [OF assms(2)] this] show ?thesis by (simp add: rejects_def)
qed

lemma no_reports:
  assumes "submit (NewOrderEvent o1) s = Inr (r, s1)" and "engine_ok s"
  shows "reports r = []"
  using fixed_fields.submitted_new [OF assms(1) engine_okD(3) [OF assms(2)], of "config s" "sequence (counted s)" "[]" "[]"]
  by simp

end
