(* ===== verification/Exchange_Properties.thy ===== *)
theory Exchange_Properties
  imports Exchange_Manager Engine_Prices Engine_Parties
begin

text \<open>
  The exchange as a whole: its instruments, what a message does and does not touch, runs of messages
  without faults, and what the published events say.
\<close>

section \<open>The instruments\<close>

lemma add_instruments_simps:
  "instruments (add_instruments cfg is ex) = instruments ex @ map (\<lambda>i. (symbol_name i, new_engine cfg)) is"
  "index (add_instruments cfg is ex) = fold (\<lambda>i m. fmupd (symbol_name i) (i - 1) m) is (index ex)"
  by (induction "is" arbitrary: ex) (simp_all add: Let_def)

lemma symbol_name_inj [simp]: "symbol_name i = symbol_name j \<longleftrightarrow> i = j"
  by (simp add: symbol_name_def)

lemma index_fold:
  "fmlookup (fold (\<lambda>i m. fmupd (symbol_name i) (i - 1) m) is m) sy =
     (if \<exists>i\<in>set is. sy = symbol_name i then Some ((THE i. sy = symbol_name i) - 1) else fmlookup m sy)"
  by (induction "is" arbitrary: m) auto

lemma new_exchange_simps:
  "instruments (new_exchange cfg) = map (\<lambda>i. (symbol_name i, new_engine cfg)) [1..<26]"
  "fmlookup (index (new_exchange cfg)) sy = Some k \<longleftrightarrow> k < 25 \<and> sy = symbol_name (k + 1)"
proof -
  have "sy = symbol_name i \<Longrightarrow> (THE i. sy = symbol_name i) = i" for i by auto
  then show "fmlookup (index (new_exchange cfg)) sy = Some k \<longleftrightarrow> k < 25 \<and> sy = symbol_name (k + 1)"
    unfolding new_exchange_def add_instruments_simps index_fold kInstrumentCount_def by force
qed (simp add: new_exchange_def add_instruments_simps kInstrumentCount_def)

lemma instruments_ok_new: "instruments_ok (new_exchange cfg)"
proof -
  have "distinct (map fst (instruments (new_exchange cfg)))"
    by (simp add: new_exchange_simps(1) comp_def distinct_map inj_on_def del: upt_rec_numeral)
  then show ?thesis
    unfolding instruments_ok_def new_exchange_simps
    by (auto simp del: upt_rec_numeral)
qed

lemma engine_of_new:
  "engine_of sy (new_exchange cfg) =
     (if \<exists>i. 1 \<le> i \<and> i \<le> kInstrumentCount \<and> sy = symbol_name i then Some (new_engine cfg) else None)"
proof (cases "fmlookup (index (new_exchange cfg)) sy")
  case None
  have "\<not> (1 \<le> i \<and> i \<le> kInstrumentCount \<and> sy = symbol_name i)" for i
  proof
    assume "1 \<le> i \<and> i \<le> kInstrumentCount \<and> sy = symbol_name i"
    then have "fmlookup (index (new_exchange cfg)) sy = Some (i - 1)"
      unfolding new_exchange_simps by (auto simp: kInstrumentCount_def)
    then show False using None by simp
  qed
  then show ?thesis using None by (simp add: engine_of_lookup [OF instruments_ok_new])
next
  case (Some k)
  then have k: "k < 25" "sy = symbol_name (k + 1)" by (simp_all add: new_exchange_simps)
  then have "\<exists>i. 1 \<le> i \<and> i \<le> kInstrumentCount \<and> sy = symbol_name i"
    by (intro exI [of _ "k + 1"]) (simp add: kInstrumentCount_def)
  then show ?thesis
    using Some k(1) by (simp add: engine_of_lookup [OF instruments_ok_new] new_exchange_simps(1) del: upt_rec_numeral)
qed

section \<open>One message\<close>

lemma process_unknown: "instruments_ok ex \<Longrightarrow> engine_of (msg_symbol msg) ex = None \<Longrightarrow> process now ts msg ex = Inr ([], ex)"
  by (simp add: process_def engine_of_lookup split: option.splits)

lemma process_known:
  assumes ok: "instruments_ok ex" and s: "engine_of (msg_symbol msg) ex = Some s"
  obtains put where "process now ts msg ex = bind_res (submit (message_event now msg) s) (\<lambda>(res, s1).
      bind_res (translate_result ts msg res (book s1)) (\<lambda>evs. Inr (evs, put s1)))"
    and "\<And>s1. instruments_ok (put s1)"
    and "\<And>s1 sy. engine_of sy (put s1) = (if sy = msg_symbol msg then Some s1 else engine_of sy ex)"
proof -
  obtain k where k: "fmlookup (index ex) (msg_symbol msg) = Some k" "s = snd (instruments ex ! k)"
    using s by (auto simp: engine_of_lookup [OF ok] split: option.splits)
  have kk: "k < length (instruments ex)" using k(1) ok by (simp add: instruments_ok_def)
  let ?put = "\<lambda>s1. ex\<lparr> instruments := (instruments ex)[k := (fst (instruments ex ! k), s1)] \<rparr>"
  show ?thesis
  proof (rule that [of ?put])
    show "process now ts msg ex = bind_res (submit (message_event now msg) s) (\<lambda>(res, s1).
      bind_res (translate_result ts msg res (book s1)) (\<lambda>evs. Inr (evs, ?put s1)))"
      using kk by (simp add: process_def k)
  qed (use update_instrument [OF ok k(1) refl] in auto)
qed

lemma process_result:
  assumes "instruments_ok ex" and "engine_of (msg_symbol msg) ex = Some s" and "process now ts msg ex = Inr (evs, ex1)"
  obtains res s1 where "submit (message_event now msg) s = Inr (res, s1)" "translate_result ts msg res (book s1) = Inr evs"
    "instruments_ok ex1" "\<And>sy. engine_of sy ex1 = (if sy = msg_symbol msg then Some s1 else engine_of sy ex)"
proof -
  from process_known [OF assms(1,2), of now ts] obtain put where
    run: "process now ts msg ex = bind_res (submit (message_event now msg) s) (\<lambda>(res, s1).
      bind_res (translate_result ts msg res (book s1)) (\<lambda>evs. Inr (evs, put s1)))"
    and put: "\<And>s1. instruments_ok (put s1)"
      "\<And>s1 sy. engine_of sy (put s1) = (if sy = msg_symbol msg then Some s1 else engine_of sy ex)" by blast
  from assms(3) [unfolded run] obtain res s1 where "submit (message_event now msg) s = Inr (res, s1)"
    "translate_result ts msg res (book s1) = Inr evs" "ex1 = put s1"
    by (auto simp: bind_res_Inr_iff)
  then show ?thesis using that put by blast
qed

lemma process_runs:
  assumes "instruments_ok ex" and "engine_of (msg_symbol msg) ex = Some s"
    and "submit (message_event now msg) s = Inr (res, s1)" and "translate_result ts msg res (book s1) = Inr evs"
  shows "\<exists>ex1. process now ts msg ex = Inr (evs, ex1) \<and> instruments_ok ex1 \<and>
    (\<forall>sy. engine_of sy ex1 = (if sy = msg_symbol msg then Some s1 else engine_of sy ex))"
  by (rule process_known [OF assms(1,2), of now ts]) (use assms(3,4) in auto)

definition exchange_ok :: "(string \<Rightarrow> order_id set) \<Rightarrow> exchange \<Rightarrow> bool" where
  "exchange_ok used ex \<longleftrightarrow> instruments_ok ex \<and>
     (\<forall>sy s. engine_of sy ex = Some s \<longrightarrow> history_ok (used sy) [] s \<and> priced tick_price [] s)"

definition message_ok :: "(string \<Rightarrow> order_id set) \<Rightarrow> order_message \<Rightarrow> bool" where
  "message_ok used msg \<longleftrightarrow> msg_action msg = NewOrder \<longrightarrow>
     msg_order_id msg \<notin> used (msg_symbol msg) \<and> tick_price (msg_price msg)"

definition use_id :: "order_message \<Rightarrow> (string \<Rightarrow> order_id set) \<Rightarrow> string \<Rightarrow> order_id set" where
  "use_id msg used = (if msg_action msg = NewOrder
     then used(msg_symbol msg := insert (msg_order_id msg) (used (msg_symbol msg))) else used)"

lemma message_order_simps [simp]:
  "ord_id (message_order now msg) = msg_order_id msg" "ord_price (message_order now msg) = msg_price msg"
  "ord_side (message_order now msg) = msg_side msg" "ord_type (message_order now msg) = msg_type msg"
  "ord_quantity (message_order now msg) = msg_quantity msg" "ord_peak_qty (message_order now msg) = msg_peak_qty msg"
  by (simp_all add: message_order_def)

lemma message_submit:
  assumes h: "history_ok (used (msg_symbol msg)) [] s" and p: "priced tick_price [] s" and m: "message_ok used msg"
  shows "\<exists>r s1. submit (message_event now msg) s = Inr (r, s1) \<and>
    history_ok (use_id msg used (msg_symbol msg)) [] s1 \<and> priced tick_price [] s1 \<and>
    (\<forall>t\<in>set (trades r). tick_price (tr_price t))"
proof (cases "msg_action msg")
  case NewOrder
  let ?o = "message_order now msg"
  have i: "ord_id ?o \<notin> used (msg_symbol msg)" and pr: "tick_price (ord_price ?o)"
    using m NewOrder by (simp_all add: message_ok_def)
  have e: "engine_ok s" using h by (simp add: history_ok_def engine_ok_def)
  note fresh = history_event_ok(2) [OF h i]
  obtain r s1 where run: "submit (NewOrderEvent ?o) s = Inr (r, s1)" using submit_returns [OF e, of "NewOrderEvent ?o"] fresh by auto
  have fr1: "fresh_id (ord_id ?o) (counted s)" using fresh by (simp add: fresh_id_def)
  have "history_ok (insert (ord_id ?o) (used (msg_symbol msg))) [] s1"
    using history_new [OF _ i run [unfolded submit_new_run]] h by (simp add: history_counted)
  moreover have "priced tick_price [] s1" "\<forall>t\<in>set (trades r). tick_price (tr_price t)"
    using priced_new [of tick_price, OF _ _ pr fr1 run [unfolded submit_new_run]] p by (simp_all add: priced_counted tick_price_def)
  ultimately show ?thesis using run NewOrder by (simp add: message_event_def use_id_def)
next
  case CancelOrder
  let ?e = "\<lparr> cancel_order_id = msg_order_id msg, cancel_timestamp = msg_timestamp msg \<rparr>"
  have "history_ok (used (msg_symbol msg)) [] (snd (process_cancel ?e (counted s)))"
    using history_cancel h by (simp add: history_counted)
  moreover from this have "priced tick_price [] (snd (process_cancel ?e (counted s)))"
    using priced_cancel [of tick_price "counted s"] p by (simp add: priced_counted history_ok_def)
  moreover have "trades (fst (process_cancel ?e (counted s))) = []"
    by (auto simp: process_cancel_def empty_result_def push_report_def push_rejection_def Let_def split: option.split)
  ultimately show ?thesis
    using CancelOrder by (cases "process_cancel ?e (counted s)")
      (simp add: message_event_def use_id_def submit_def submit_fuel_def)
qed

lemma translate_returns:
  assumes "priced tick_price [] s"
  shows "\<exists>evs. translate_result ts msg res (book s) = Inr evs"
  using spread_in_range [OF assms] by (auto simp: translate_result_def updated_event_def)

lemma process_ok:
  assumes ok: "exchange_ok used ex" and m: "message_ok used msg"
  shows "\<exists>evs ex1. process now ts msg ex = Inr (evs, ex1) \<and> exchange_ok (use_id msg used) ex1"
proof (cases "engine_of (msg_symbol msg) ex")
  case None
  then have "process now ts msg ex = Inr ([], ex)" using ok process_unknown by (simp add: exchange_ok_def)
  moreover have "exchange_ok (use_id msg used) ex" using ok None by (auto simp: exchange_ok_def use_id_def)
  ultimately show ?thesis by blast
next
  case (Some s)
  have ins: "instruments_ok ex" using ok by (simp add: exchange_ok_def)
  have "history_ok (used (msg_symbol msg)) [] s" "priced tick_price [] s" using ok Some by (auto simp: exchange_ok_def)
  from message_submit [OF this m] obtain r s1 where s1: "submit (message_event now msg) s = Inr (r, s1)"
    "history_ok (use_id msg used (msg_symbol msg)) [] s1" "priced tick_price [] s1" by blast
  from translate_returns [OF s1(3)] obtain evs where evs: "translate_result ts msg r (book s1) = Inr evs" by blast
  from process_runs [OF ins Some s1(1) evs] obtain ex1 where "process now ts msg ex = Inr (evs, ex1)" "instruments_ok ex1"
    "\<forall>sy. engine_of sy ex1 = (if sy = msg_symbol msg then Some s1 else engine_of sy ex)" by blast
  moreover from this have "exchange_ok (use_id msg used) ex1"
    using ok s1(2,3) by (auto simp: exchange_ok_def use_id_def)
  ultimately show ?thesis by blast
qed

section \<open>Runs of messages\<close>

text \<open>A message with the two readings of the clock that \<open>process\<close> takes.\<close>

type_synonym timed_message = "timestamp \<times> timestamp \<times> order_message"

fun messages :: "timed_message list \<Rightarrow> order_message list" where
  "messages [] = []"
| "messages ((now, ts, msg) # ms) = msg # messages ms"

lemma messages_append [simp]: "messages (ms @ ms') = messages ms @ messages ms'"
  by (induction ms rule: messages.induct) auto

lemma length_messages [simp]: "length (messages ms) = length ms"
  by (induction ms rule: messages.induct) auto

fun process_all :: "timed_message list \<Rightarrow> exchange \<Rightarrow> fault + exchange_event list list \<times> exchange" where
  "process_all [] ex = Inr ([], ex)"
| "process_all ((now, ts, msg) # ms) ex = bind_res (process now ts msg ex) (\<lambda>(evs, ex1).
     bind_res (process_all ms ex1) (\<lambda>(evss, ex2). Inr (evs # evss, ex2)))"

fun orderly :: "(string \<Rightarrow> order_id set) \<Rightarrow> order_message list \<Rightarrow> bool" where
  "orderly used [] = True"
| "orderly used (msg # ms) = (message_ok used msg \<and> orderly (use_id msg used) ms)"

lemma exchange_ok_new: "exchange_ok (\<lambda>_. {}) (new_exchange cfg)"
proof -
  have "priced tick_price [] (new_engine cfg)" by (rule priced_start) (simp add: tick_price_def)
  then show ?thesis
    using history_start by (auto simp: exchange_ok_def instruments_ok_new engine_of_new split: if_splits)
qed

lemma orderly_append: "orderly used (ms @ ms') \<longleftrightarrow> orderly used ms \<and> orderly (fold use_id ms used) ms'"
  by (induction ms arbitrary: used) auto

lemma process_all_append:
  "process_all (ms @ ms') ex = bind_res (process_all ms ex) (\<lambda>(evss, ex1).
     bind_res (process_all ms' ex1) (\<lambda>(evss', ex2). Inr (evss @ evss', ex2)))"
proof (induction ms arbitrary: ex)
  case Nil
  show ?case by (cases "process_all ms' ex") auto
next
  case (Cons m ms)
  obtain now ts msg where m: "m = (now, ts, msg)" by (cases m)
  show ?case
    by (cases "process now ts msg ex") (auto simp: m Cons.IH bind_res_assoc split_beta)
qed

lemma process_all_ok:
  "exchange_ok used ex \<Longrightarrow> orderly used (messages ms) \<Longrightarrow>
   \<exists>evss ex1. process_all ms ex = Inr (evss, ex1) \<and> exchange_ok (fold use_id (messages ms) used) ex1
     \<and> length evss = length ms"
proof (induction ms arbitrary: used ex)
  case Nil
  then show ?case by auto
next
  case (Cons m ms)
  obtain now ts msg where m: "m = (now, ts, msg)" by (cases m)
  have "message_ok used msg" using Cons.prems(2) m by simp
  from process_ok [OF Cons.prems(1) this] obtain evs ex1
    where "process now ts msg ex = Inr (evs, ex1)" and e1: "exchange_ok (use_id msg used) ex1" by blast
  moreover from Cons.IH [OF e1] Cons.prems(2) m obtain evss ex2
    where "process_all ms ex1 = Inr (evss, ex2)"
      "exchange_ok (fold use_id (messages ms) (use_id msg used)) ex2" "length evss = length ms" by auto
  ultimately show ?case using m by auto
qed

text \<open>No event of a message is a snapshot.\<close>

definition is_snapshot :: "exchange_event \<Rightarrow> bool" where
  "is_snapshot e \<longleftrightarrow> (case e of Snapshot sn \<Rightarrow> True | _ \<Rightarrow> False)"

lemma process_no_snapshot:
  assumes "process now ts msg ex = Inr (evs, ex1)" and "e \<in> set evs"
  shows "\<not> is_snapshot e"
proof -
  have "\<not> is_snapshot e" if "translate_result ts msg res b = Inr evs'" "e \<in> set evs'" for res b evs'
    using that by (auto simp: translate_result_def updated_event_def bind_res_Inr_iff rejected_event_def canceled_event_def
        accepted_event_def executed_event_def is_snapshot_def split: if_splits)
  then show ?thesis using assms by (auto simp: process_def bind_res_Inr_iff split: option.splits if_splits)
qed

section \<open>Snapshots\<close>

definition snapshot_of :: "timestamp \<Rightarrow> string \<Rightarrow> order_book \<Rightarrow> snapshot_event" where
  "snapshot_of ts sy b = \<lparr> snp_timestamp = ts, snp_symbol = sy, snp_last_trade_price = last_trade_price b,
     snp_best_bid = value_or_0 (best_bid b), snp_best_ask = value_or_0 (best_ask b),
     snp_bids = map (\<lambda>(p, l). (p, lvl_volume l)) (bids b), snp_asks = map (\<lambda>(p, l). (p, lvl_volume l)) (asks b) \<rparr>"

lemma snapshot_engine:
  assumes "instruments_ok ex"
  shows "snapshot ts sy ex = (case engine_of sy ex of None \<Rightarrow> Inl Missing_key | Some s \<Rightarrow> Inr (snapshot_of ts sy (book s)))"
proof (cases "fmlookup (index ex) sy")
  case None
  then show ?thesis by (simp add: snapshot_def engine_of_lookup [OF assms])
next
  case (Some k)
  then have "k < length (instruments ex)" using assms by (simp add: instruments_ok_def)
  then show ?thesis using Some by (simp add: snapshot_def engine_of_lookup [OF assms] snapshot_of_def Let_def)
qed

lemma snapshot_list_result:
  assumes "instruments_ok ex" and "set iss \<subseteq> set (instruments ex)"
  shows "\<exists>ss. snapshot_list clock n (map fst iss) ex = Inr ss \<and> length ss = length iss \<and>
    (\<forall>k<length iss. ss ! k = snapshot_of (clock (n + k)) (fst (iss ! k)) (book (snd (iss ! k))))"
  using assms(2)
proof (induction iss arbitrary: n)
  case (Cons x iss)
  obtain sy s where x: "x = (sy, s)" by fastforce
  have "engine_of sy ex = Some s"
    using Cons.prems assms(1) x by (simp add: engine_of_def instruments_ok_def)
  moreover from Cons.IH [of "n + 1"] Cons.prems obtain ss where "snapshot_list clock (n + 1) (map fst iss) ex = Inr ss"
    "length ss = length iss"
    "\<forall>k<length iss. ss ! k = snapshot_of (clock (n + 1 + k)) (fst (iss ! k)) (book (snd (iss ! k)))" by auto
  ultimately show ?case
    using x by (simp add: snapshot_engine [OF assms(1)]) (auto simp: nth_Cons split: nat.split)
qed simp

lemma snapshot_depth:
  assumes "book_ok b"
  shows "sorted_wrt (>) (map fst (snp_bids (snapshot_of ts sy b)))"
    and "sorted_wrt (<) (map fst (snp_asks (snapshot_of ts sy b)))"
    and "fst ` set (snp_bids (snapshot_of ts sy b)) = {p. queue_of b Buy p \<noteq> []}"
    and "fst ` set (snp_asks (snapshot_of ts sy b)) = {p. queue_of b Sell p \<noteq> []}"
    and "snp_best_bid (snapshot_of ts sy b) = (case snp_bids (snapshot_of ts sy b) of [] \<Rightarrow> 0 | q # _ \<Rightarrow> fst q)"
    and "snp_best_ask (snapshot_of ts sy b) = (case snp_asks (snapshot_of ts sy b) of [] \<Rightarrow> 0 | q # _ \<Rightarrow> fst q)"
proof -
  have ok: "levels_ok (>) (bids b)" "levels_ok (<) (asks b)"
    using book_ok_levels [OF assms, of Buy] book_ok_levels [OF assms, of Sell] by (simp_all add: better_Buy better_Sell)
  have keys: "map fst (map (\<lambda>(p, l). (p, lvl_volume l)) m) = map fst m" for m :: levels
    by (induction m) auto
  then have keys': "fst ` set (map (\<lambda>(p, l). (p, lvl_volume l)) m) = fst ` set m" for m :: levels
    by (metis list.set_map)
  show "sorted_wrt (>) (map fst (snp_bids (snapshot_of ts sy b)))" "sorted_wrt (<) (map fst (snp_asks (snapshot_of ts sy b)))"
    using ok by (simp_all only: snapshot_of_def snapshot_event.simps keys levels_ok_def)
  show "fst ` set (snp_bids (snapshot_of ts sy b)) = {p. queue_of b Buy p \<noteq> []}"
    "fst ` set (snp_asks (snapshot_of ts sy b)) = {p. queue_of b Sell p \<noteq> []}"
    using queue_at_nonempty [OF ok(1)] queue_at_nonempty [OF ok(2)]
    by (simp_all only: snapshot_of_def snapshot_event.simps keys' queue_of_def side_levels.simps Collect_mem_eq)
qed (auto simp: snapshot_of_def best_bid_def best_ask_def value_or_0_def split: list.split)

section \<open>Published values\<close>

lemma tick_int64: "tick_price p \<Longrightarrow> int64_ok p"
  by (simp add: tick_price_def int64_ok_def)

lemma best_values:
  assumes "priced tick_price X s"
  shows "tick_price (value_or_0 (best_bid (book s)))" and "tick_price (value_or_0 (best_ask (book s)))"
  using best_prices_priced [OF assms] by (simp_all add: value_or_0_def tick_price_def split: option.split)

lemma update_typed:
  assumes "priced tick_price X s" and "updated_event ts msg (book s) = Inr e"
  shows "\<exists>u. e = BookUpdated u \<and> event_typed e \<and> tick_price (upd_best_bid u) \<and> tick_price (upd_best_ask u) \<and>
    upd_spread u = (if upd_bid_levels u = 0 \<or> upd_ask_levels u = 0 then 0 else upd_best_ask u - upd_best_bid u)"
proof -
  from assms(2) obtain sp where sp: "spread (book s) = Inr sp" and e: "e = BookUpdated \<lparr> upd_timestamp = ts,
      upd_symbol = msg_symbol msg, upd_best_bid = value_or_0 (best_bid (book s)), upd_best_ask = value_or_0 (best_ask (book s)),
      upd_spread = value_or_0 sp, upd_bid_levels = length (bids (book s)), upd_ask_levels = length (asks (book s)) \<rparr>"
    by (auto simp: updated_event_def bind_res_Inr_iff bid_level_count_def ask_level_count_def)
  have "int64_ok (value_or_0 sp)" "value_or_0 sp = (if length (bids (book s)) = 0 \<or> length (asks (book s)) = 0 then 0
      else value_or_0 (best_ask (book s)) - value_or_0 (best_bid (book s)))"
    using sp by (auto simp: value_or_0_def spread_def best_bid_def best_ask_def int64_ok_def split: list.splits if_splits)
  then show ?thesis using best_values [OF assms(1)] level_count_bound [OF assms(1)] by (auto simp: e tick_int64)
qed

lemma translated_typed:
  assumes "priced tick_price X s" and "translate_result ts msg res (book s) = Inr evs"
    and "\<forall>t\<in>set (trades res). tick_price (tr_price t)" and "msg_action msg = NewOrder \<Longrightarrow> tick_price (msg_price msg)"
  shows "e \<in> set evs \<Longrightarrow> event_typed e"
    and "BookUpdated u \<in> set evs \<Longrightarrow> tick_price (upd_best_bid u) \<and> tick_price (upd_best_ask u) \<and>
      upd_spread u = (if upd_bid_levels u = 0 \<or> upd_ask_levels u = 0 then 0 else upd_best_ask u - upd_best_bid u)"
proof -
  from assms(2) obtain upd where upd: "updated_event ts msg (book s) = Inr upd"
    and evs: "evs = map (rejected_event ts msg) (rejections res)
        @ map (canceled_event ts msg) (filter (\<lambda>rep. rep_status rep = Cancelled) (reports res))
        @ map (executed_event ts msg) (trades res)
        @ (if msg_action msg = NewOrder \<and> rejections res = [] then [accepted_event ts msg] else []) @ [upd]"
    by (auto simp: translate_result_def bind_res_Inr_iff)
  note u = update_typed [OF assms(1) upd]
  show "e \<in> set evs \<Longrightarrow> event_typed e"
    using u assms(3,4) tick_int64
    by (auto simp: evs rejected_event_def canceled_event_def executed_event_def accepted_event_def split: if_splits)
  assume "BookUpdated u \<in> set evs"
  then have "upd = BookUpdated u"
    by (auto simp: evs rejected_event_def canceled_event_def executed_event_def accepted_event_def split: if_splits)
  with u show "tick_price (upd_best_bid u) \<and> tick_price (upd_best_ask u) \<and>
      upd_spread u = (if upd_bid_levels u = 0 \<or> upd_ask_levels u = 0 then 0 else upd_best_ask u - upd_best_bid u)" by simp
qed

lemma process_translates:
  assumes "exchange_ok used ex" and "message_ok used msg" and "process now ts msg ex = Inr (evs, ex1)" and "evs \<noteq> []"
  obtains res s1 where "engine_of (msg_symbol msg) ex \<noteq> None" "translate_result ts msg res (book s1) = Inr evs"
    "priced tick_price [] s1" "\<forall>t\<in>set (trades res). tick_price (tr_price t)"
proof (cases "engine_of (msg_symbol msg) ex")
  case None
  then have "evs = []" using process_unknown [of ex msg now ts] assms(1,3) by (simp add: exchange_ok_def)
  then show ?thesis using assms(4) by simp
next
  case (Some s)
  have "instruments_ok ex" and h: "history_ok (used (msg_symbol msg)) [] s" "priced tick_price [] s"
    using assms(1) Some by (auto simp: exchange_ok_def)
  from process_result [OF this(1) Some assms(3)] obtain res s1
    where sub: "submit (message_event now msg) s = Inr (res, s1)" "translate_result ts msg res (book s1) = Inr evs" by metis
  with message_submit [OF h assms(2), of now] show ?thesis by (auto intro: that simp: Some)
qed

lemma process_typed:
  assumes "exchange_ok used ex" and "message_ok used msg" and "process now ts msg ex = Inr (evs, ex1)" and "e \<in> set evs"
  shows "event_typed e"
proof -
  have "evs \<noteq> []" using assms(4) by auto
  from process_translates [OF assms(1-3) this] show ?thesis
    using translated_typed(1) assms(2,4) by (metis message_ok_def)
qed

lemma process_update:
  assumes "exchange_ok used ex" and "message_ok used msg" and "process now ts msg ex = Inr (evs, ex1)" and "BookUpdated u \<in> set evs"
  shows "tick_price (upd_best_bid u) \<and> tick_price (upd_best_ask u) \<and>
      upd_spread u = (if upd_bid_levels u = 0 \<or> upd_ask_levels u = 0 then 0 else upd_best_ask u - upd_best_bid u)"
proof -
  have "evs \<noteq> []" using assms(4) by auto
  from process_translates [OF assms(1-3) this] show ?thesis
    using translated_typed(2) assms(2,4) by (metis message_ok_def)
qed

lemma snapshots_typed:
  assumes "exchange_ok used ex" and "snapshot_all clock ex = Inr ss" and "sn \<in> set ss"
  shows "event_typed (Snapshot sn) \<and> snp_symbol sn \<in> fst ` set (instruments ex)"
proof -
  have ins: "instruments_ok ex" using assms(1) by (simp add: exchange_ok_def)
  from snapshot_list_result [OF ins subset_refl, of clock 0] assms(2) have ss: "length ss = length (instruments ex)"
    "\<forall>k<length ss. ss ! k = snapshot_of (clock k) (fst (instruments ex ! k)) (book (snd (instruments ex ! k)))"
    by (auto simp: snapshot_all_def)
  from assms(3) obtain k where k: "k < length ss" "sn = ss ! k" by (auto simp: in_set_conv_nth)
  have "engine_of (fst (instruments ex ! k)) ex = Some (snd (instruments ex ! k))"
    using ins k(1) ss(1) by (simp add: engine_of_def instruments_ok_def)
  then have pr: "priced tick_price [] (snd (instruments ex ! k))" using assms(1) by (auto simp: exchange_ok_def)
  then have "tick_price (last_trade_price (book (snd (instruments ex ! k))))" by (simp add: priced_def)
  then have "event_typed (Snapshot sn)"
    using k ss(2) best_values [OF pr] level_prices [OF pr] tick_int64 by (fastforce simp: snapshot_of_def list_all_iff)
  moreover have "snp_symbol sn \<in> fst ` set (instruments ex)" using k ss by (simp add: snapshot_of_def)
  ultimately show ?thesis by simp
qed

section \<open>Properties\<close>

text \<open>
  The instruments: a new exchange knows exactly the symbols \<open>STOCK_1\<close> to \<open>STOCK_25\<close>, each with an
  engine of its own, and its index is consistent.
\<close>
theorem exchange_symbols:
  "instruments_ok (new_exchange cfg) \<and> length (instruments (new_exchange cfg)) = kInstrumentCount \<and>
   (has_symbol sy (new_exchange cfg) \<longleftrightarrow> (\<exists>i. 1 \<le> i \<and> i \<le> 25 \<and> sy = ''STOCK_'' @ show_nat i))"
proof -
  have "length (instruments (new_exchange cfg)) = kInstrumentCount"
    by (simp add: new_exchange_simps(1) kInstrumentCount_def del: upt_rec_numeral)
  then show ?thesis
    using has_symbol_engine [OF instruments_ok_new, of sy cfg] instruments_ok_new [of cfg]
    by (simp add: engine_of_new symbol_name_def kInstrumentCount_def)
qed

text \<open>
  A message touches one instrument: a message with an unknown symbol changes nothing and publishes
  nothing; otherwise the engine of its symbol makes one \<open>submit\<close> and every other engine is unchanged.
\<close>
theorem process_routes:
  assumes "instruments_ok ex" and "process now ts msg ex = Inr (evs, ex1)"
  shows "instruments_ok ex1 \<and> (\<forall>sy. has_symbol sy ex1 = has_symbol sy ex) \<and>
    (\<forall>sy. sy \<noteq> msg_symbol msg \<longrightarrow> engine_of sy ex1 = engine_of sy ex) \<and>
    (case engine_of (msg_symbol msg) ex of None \<Rightarrow> evs = [] \<and> ex1 = ex
     | Some s \<Rightarrow> \<exists>res s1. submit (message_event now msg) s = Inr (res, s1) \<and>
         engine_of (msg_symbol msg) ex1 = Some s1 \<and> translate_result ts msg res (book s1) = Inr evs)"
proof (cases "engine_of (msg_symbol msg) ex")
  case None
  then show ?thesis using process_unknown [OF assms(1)] assms by simp
next
  case (Some s)
  from process_result [OF assms(1) Some assms(2)] obtain res s1
    where "submit (message_event now msg) s = Inr (res, s1)" "translate_result ts msg res (book s1) = Inr evs"
      "instruments_ok ex1" "\<And>sy. engine_of sy ex1 = (if sy = msg_symbol msg then Some s1 else engine_of sy ex)"
    by blast
  then show ?thesis using Some assms(1) by (auto simp: has_symbol_engine)
qed

text \<open>
  C23. The exchange never fails: from a new exchange, every sequence of messages in which a new order has
  an id not used before for its symbol and a non-negative price is processed to the end, whatever
  the symbols, the actions and the clock, and every engine stays well-formed.
\<close>
theorem exchange_run_safe:
  assumes "orderly (\<lambda>_. {}) (messages ms)"
  shows "\<exists>evss ex1. process_all ms (new_exchange cfg) = Inr (evss, ex1) \<and> length evss = length ms
    \<and> instruments_ok ex1 \<and> (\<forall>sy s. engine_of sy ex1 = Some s \<longrightarrow> engine_ok s)"
  using process_all_ok [OF exchange_ok_new assms, of cfg]
  by (auto simp: exchange_ok_def history_ok_def engine_ok_def)

text \<open>
  Trade events name the parties: in every published trade of a new order the buy order id is the id of
  a buy order and the sell order id that of a sell order, be it the new order, a resting order or a
  pending stop.
\<close>
theorem trade_events_name_parties:
  assumes "exchange_ok used ex" and "engine_of (msg_symbol msg) ex = Some s"
    and "message_ok used msg" and "msg_action msg = NewOrder"
    and "process now ts msg ex = Inr (evs, ex1)" and "TradeExecuted e \<in> set evs"
  shows "order_side (message_order now msg) s (exe_buy_order_id e) = Some Buy \<and>
    order_side (message_order now msg) s (exe_sell_order_id e) = Some Sell \<and> exe_symbol e = msg_symbol msg"
proof -
  have ins: "instruments_ok ex" and h: "history_ok (used (msg_symbol msg)) [] s"
    using assms(1,2) by (auto simp: exchange_ok_def)
  have fr: "fresh_id (ord_id (message_order now msg)) s"
    using history_event_ok(2) [OF h] assms(3,4) by (simp add: message_ok_def)
  have ok: "engine_ok s" using h by (simp add: history_ok_def engine_ok_def)
  from process_result [OF ins assms(2,5)] obtain res s1 where r: "submit (message_event now msg) s = Inr (res, s1)"
      and evs: "translate_result ts msg res (book s1) = Inr evs" by blast
  have run: "submit (NewOrderEvent (message_order now msg)) s = Inr (res, s1)"
    using r assms(4) by (simp add: message_event_def)
  obtain t where t: "t \<in> set (trades res)" "e = the (case executed_event ts msg t of TradeExecuted e \<Rightarrow> Some e | _ \<Rightarrow> None)"
    using evs assms(6)
    by (auto simp: translate_result_def updated_event_def bind_res_Inr_iff rejected_event_def canceled_event_def
        accepted_event_def executed_event_def split: if_splits)
  show ?thesis
    using trade_parties [OF ok fr run t(1)] t(2) by (simp add: executed_event_def buyer_def seller_def)
qed


text \<open>
  C27. Snapshots: the periodic snapshot never fails and covers every instrument, in order; each side lists
  exactly the prices with live orders, best first, and the best price is the first one listed.
\<close>
theorem snapshot_all_depth:
  assumes "exchange_ok used ex"
  shows "\<exists>ss. snapshot_all clock ex = Inr ss \<and> map snp_symbol ss = map fst (instruments ex) \<and>
    (\<forall>k<length ss. let sn = ss ! k; b = book (snd (instruments ex ! k)) in
       sorted_wrt (>) (map fst (snp_bids sn)) \<and> sorted_wrt (<) (map fst (snp_asks sn)) \<and>
       fst ` set (snp_bids sn) = {p. queue_of b Buy p \<noteq> []} \<and> fst ` set (snp_asks sn) = {p. queue_of b Sell p \<noteq> []} \<and>
       snp_best_bid sn = (case snp_bids sn of [] \<Rightarrow> 0 | q # _ \<Rightarrow> fst q) \<and>
       snp_best_ask sn = (case snp_asks sn of [] \<Rightarrow> 0 | q # _ \<Rightarrow> fst q))"
proof -
  have ins: "instruments_ok ex" using assms by (simp add: exchange_ok_def)
  from snapshot_list_result [OF ins subset_refl, of clock 0] obtain ss
    where ss: "snapshot_all clock ex = Inr ss" "length ss = length (instruments ex)"
      "\<forall>k<length ss. ss ! k = snapshot_of (clock k) (fst (instruments ex ! k)) (book (snd (instruments ex ! k)))"
    by (auto simp: snapshot_all_def)
  have "map snp_symbol ss = map fst (instruments ex)"
    by (rule nth_equalityI) (use ss(2,3) in \<open>auto simp: snapshot_of_def\<close>)
  moreover have "book_ok (book (snd (instruments ex ! k)))" if "k < length ss" for k
  proof -
    have "engine_of (fst (instruments ex ! k)) ex = Some (snd (instruments ex ! k))"
      using ins that ss(2) by (simp add: engine_of_def instruments_ok_def)
    then show ?thesis using assms by (auto simp: exchange_ok_def priced_def config_ok_def)
  qed
  ultimately show ?thesis
    using ss snapshot_depth by (auto simp: Let_def)
qed

text \<open>
  C26. Published prices have their type: when the orders come with unused ids and prices of at least 0, every price
  in every event fits its 64 bits and so do the numbers of levels, which \<open>size_t\<close> holds; every book update carries
  best prices from 0 to \<open>2 ^ 63 - 1\<close> and as spread the difference of the best prices when both sides have orders
  and 0 otherwise.
\<close>
theorem published_prices_typed:
  assumes "exchange_ok used ex" and "message_ok used msg" and "process now ts msg ex = Inr (evs, ex1)" and "e \<in> set evs"
  shows "event_typed e \<and>
    (\<forall>u. e = BookUpdated u \<longrightarrow> tick_price (upd_best_bid u) \<and> tick_price (upd_best_ask u) \<and>
       upd_spread u = (if upd_bid_levels u = 0 \<or> upd_ask_levels u = 0 then 0 else upd_best_ask u - upd_best_bid u))"
  using process_typed [OF assms] process_update [OF assms(1-3)] assms(4) by blast

section \<open>Witnesses\<close>

definition ex_msg :: "order_id \<Rightarrow> string \<Rightarrow> side \<Rightarrow> order_type \<Rightarrow> quantity \<Rightarrow> price \<Rightarrow> order_message" where
  "ex_msg i sy sd ty q p = default_message\<lparr> msg_order_id := i, msg_client_id := i + 100, msg_symbol := sy,
     msg_side := sd, msg_type := ty, msg_quantity := q, msg_price := p \<rparr>"

definition ex_sell_msg :: order_message where "ex_sell_msg = ex_msg 1 ''STOCK_1'' Sell Limit 5 101"
definition ex_buy_msg :: order_message where "ex_buy_msg = ex_msg 2 ''STOCK_1'' Buy Limit 3 101"

definition ex_exchange :: exchange where
  "ex_exchange = (case process 0 1 ex_sell_msg (new_exchange default_config) of
     Inl f \<Rightarrow> new_exchange default_config | Inr (evs, ex) \<Rightarrow> ex)"

lemma ex_exchange_ok: "exchange_ok (use_id ex_sell_msg (\<lambda>_. {})) ex_exchange"
proof -
  have "message_ok (\<lambda>_. {}) ex_sell_msg"
    by (simp add: message_ok_def ex_sell_msg_def ex_msg_def default_message_def tick_price_def)
  from process_ok [OF exchange_ok_new this, of 0 1 default_config] show ?thesis by (auto simp: ex_exchange_def)
qed

lemma ex_buy_ok:
  "message_ok (use_id ex_sell_msg (\<lambda>_. {})) ex_buy_msg" "msg_action ex_buy_msg = NewOrder"
  "engine_of (msg_symbol ex_buy_msg) ex_exchange = Some (the (engine_of ''STOCK_1'' ex_exchange))"
  "pending_stops (the (engine_of ''STOCK_1'' ex_exchange)) = []" "msg_type ex_buy_msg = Limit"
  by code_simp+

theorem process_routes_witness:
  "\<exists>evs ex1. process 0 2 ex_buy_msg ex_exchange = Inr (evs, ex1) \<and> engine_of ''STOCK_2'' ex1 = engine_of ''STOCK_2'' ex_exchange"
proof -
  have ok: "instruments_ok ex_exchange" using ex_exchange_ok by (simp add: exchange_ok_def)
  obtain evs ex1 where run: "process 0 2 ex_buy_msg ex_exchange = Inr (evs, ex1)"
    using process_ok [OF ex_exchange_ok ex_buy_ok(1)] by blast
  have "msg_symbol ex_buy_msg = ''STOCK_1''" by code_simp
  then show ?thesis using process_routes [OF ok run] run by auto
qed

theorem exchange_run_safe_witness:
  "\<exists>evss ex1. process_all [(0, 1, ex_sell_msg), (0, 2, ex_buy_msg), (0, 3, ex_msg 2 ''X'' Buy Market 3 0)]
     (new_exchange default_config) = Inr (evss, ex1) \<and> length evss = 3"
proof -
  let ?ms = "[(0, 1, ex_sell_msg), (0, 2, ex_buy_msg), (0, 3, ex_msg 2 ''X'' Buy Market 3 0)] :: timed_message list"
  have "orderly (\<lambda>_. {}) (messages ?ms)"
    by (simp add: ex_sell_msg_def ex_buy_msg_def ex_msg_def default_message_def message_ok_def use_id_def tick_price_def)
  from exchange_run_safe [OF this, of default_config] show ?thesis by auto
qed

theorem trade_events_name_parties_witness:
  "\<exists>evs ex1 e. process 0 2 ex_buy_msg ex_exchange = Inr (evs, ex1) \<and> TradeExecuted e \<in> set evs \<and>
     order_side (message_order 0 ex_buy_msg) (the (engine_of ''STOCK_1'' ex_exchange)) (exe_sell_order_id e) = Some Sell"
proof -
  have "case process 0 2 ex_buy_msg ex_exchange of Inl f \<Rightarrow> False | Inr (evs, ex1) \<Rightarrow>
      (case hd evs of TradeExecuted e \<Rightarrow> evs \<noteq> [] | _ \<Rightarrow> False)" by code_simp
  then obtain evs ex1 e where run: "process 0 2 ex_buy_msg ex_exchange = Inr (evs, ex1)" and "hd evs = TradeExecuted e" "evs \<noteq> []"
    by (auto split: sum.splits exchange_event.splits)
  then have "TradeExecuted e \<in> set evs" by (metis list.set_sel(1))
  from trade_events_name_parties [OF ex_exchange_ok ex_buy_ok(3,1,2) run this] run this show ?thesis by blast
qed


theorem snapshot_all_depth_witness:
  "\<exists>ss. snapshot_all (\<lambda>k. 7) ex_exchange = Inr ss \<and> map snp_symbol ss = map fst (instruments ex_exchange)"
  using snapshot_all_depth [OF ex_exchange_ok, of "\<lambda>k. 7"] by blast

theorem published_prices_typed_witness:
  "\<exists>evs ex1 e. process 0 2 ex_buy_msg ex_exchange = Inr (evs, ex1) \<and> BookUpdated e \<in> set evs \<and> tick_price (upd_best_ask e) \<and>
     int64_ok (upd_spread e)"
proof -
  have "case process 0 2 ex_buy_msg ex_exchange of Inl f \<Rightarrow> False | Inr (evs, ex1) \<Rightarrow>
      (case last evs of BookUpdated e \<Rightarrow> evs \<noteq> [] | _ \<Rightarrow> False)" by code_simp
  then obtain evs ex1 e where run: "process 0 2 ex_buy_msg ex_exchange = Inr (evs, ex1)" and "last evs = BookUpdated e" "evs \<noteq> []"
    by (auto split: sum.splits exchange_event.splits)
  then have "BookUpdated e \<in> set evs" by (metis last_in_set)
  from published_prices_typed [OF ex_exchange_ok ex_buy_ok(1) run this] run this show ?thesis by auto
qed

section \<open>Behaviour outside the assumptions\<close>

text \<open>
  Prices are not checked: a resting bid at a negative price and a resting ask near the top of the range
  make the spread of the book update overflow (\<open>int64_t\<close>, undefined behaviour).
\<close>
theorem negative_price_overflows:
  "process_all [(0, 1, ex_msg 1 ''STOCK_1'' Buy Limit 5 (-2)), (0, 2, ex_msg 2 ''STOCK_1'' Sell Limit 5 (2 ^ 63 - 1))]
     (new_exchange default_config) = Inl Signed_overflow"
  by code_simp

text \<open>
  A rejected stop hides an acceptance: a limit order that trades and sets off a stop of another client
  which runs out of liquidity is never acknowledged, and the rejection of the stop is published with
  the client of the limit order.
\<close>
theorem stop_rejection_hides_acceptance:
  "case process_all [(0, 1, ex_sell_msg),
       (0, 2, (ex_msg 3 ''STOCK_1'' Buy Stop 10 0)\<lparr> msg_stop_price := 101 \<rparr>), (0, 3, ex_buy_msg)]
     (new_exchange default_config) of
     Inl f \<Rightarrow> False
   | Inr (evss, ex) \<Rightarrow>
       list_ex (\<lambda>e. case e of TradeExecuted t \<Rightarrow> exe_buy_order_id t = msg_order_id ex_buy_msg | _ \<Rightarrow> False) (last evss)
     \<and> list_ex (\<lambda>e. case e of OrderRejected r \<Rightarrow> rjt_order_id r = 3 \<and> rjt_client_id r = msg_client_id ex_buy_msg
         | _ \<Rightarrow> False) (last evss)
     \<and> list_all (\<lambda>e. case e of OrderAccepted a \<Rightarrow> False | _ \<Rightarrow> True) (last evss)"
  by code_simp

end
