(* ===== verification/Queue_Flow.thy ===== *)
theory Queue_Flow
  imports Ring_Buffer "HOL-Library.Sublist"
begin

text \<open>
  What goes through a queue that drops when it is full: \<open>flows f E out pending d\<close> says that, of the
  elements \<open>E\<close> offered so far, some were dropped (\<open>d\<close> counts them, modulo \<open>2 ^ 64\<close> as the counters of
  the code do) and the others, in order, have left as \<open>out\<close> (after \<open>f\<close>) or are \<open>pending\<close>.
\<close>

definition flows :: "('a \<Rightarrow> 'b) \<Rightarrow> 'a list \<Rightarrow> 'b list \<Rightarrow> 'a list \<Rightarrow> 64 word \<Rightarrow> bool" where
  "flows f E out pending d \<longleftrightarrow> (\<exists>acc. subseq acc E \<and> map f acc = out @ map f pending
     \<and> d = of_nat (length E - length acc))"

lemma flows_start: "flows f [] [] [] 0"
  by (simp add: flows_def)

lemma flows_room: "flows f E out p d \<Longrightarrow> flows f (E @ [x]) out (p @ [x]) d"
proof -
  assume "flows f E out p d"
  then obtain acc where "subseq acc E" "map f acc = out @ map f p" "d = of_nat (length E - length acc)"
    by (auto simp: flows_def)
  then show ?thesis unfolding flows_def by (intro exI [of _ "acc @ [x]"]) (simp add: subseq_append')
qed

lemma flows_full: "flows f E out p d \<Longrightarrow> flows f (E @ [x]) out p (d + 1)"
proof -
  assume "flows f E out p d"
  then obtain acc where a: "subseq acc E" "map f acc = out @ map f p" "d = of_nat (length E - length acc)"
    by (auto simp: flows_def)
  have "length acc \<le> length E" using a(1) by (rule list_emb_length)
  then have "d + 1 = of_nat (length (E @ [x]) - length acc)" using a(3) by (simp add: Suc_diff_le)
  then show ?thesis using a unfolding flows_def by (intro exI [of _ acc]) (simp add: subseq_rev_drop_many)
qed

lemma flows_pop: "flows f E out (x # p) d \<longleftrightarrow> flows f E (out @ [f x]) p d"
  by (simp add: flows_def)

lemma flows_take_all: "flows f E out p d \<longleftrightarrow> flows f E (out @ map f p) [] d"
  by (simp add: flows_def)

text \<open>Without drops nothing is missing.\<close>

lemma flows_complete:
  assumes "flows f E out p 0" and "length E < 2 ^ 64"
  shows "map f E = out @ map f p"
proof -
  from assms(1) obtain acc where a: "subseq acc E" "map f acc = out @ map f p" "(0 :: 64 word) = of_nat (length E - length acc)"
    by (auto simp: flows_def)
  have "unat (of_nat (length E - length acc) :: 64 word) = length E - length acc"
    using assms(2) by (simp add: unsigned_of_nat take_bit_nat_eq_self)
  then have "length E - length acc = 0" using a(3) by simp
  then have "length acc = length E" using list_emb_length [OF a(1)] by simp
  then have "acc = E" using a(1) subseq_same_length by blast
  then show ?thesis using a(2) by simp
qed

context bounded_queue begin

lemma push_flows:
  assumes "ok q" and "flows f E out (items q) d"
  shows "\<exists>b q1. push x q = Inr (b, q1) \<and> ok q1 \<and> limit q1 = limit q \<and>
    flows f (E @ [x]) out (items q1) (if b then d else d + 1)"
proof (cases "length (items q) + 1 < limit q")
  case True
  from push_room [OF assms(1) True, of x] flows_room [OF assms(2), of x] show ?thesis by auto
next
  case False
  from push_full [OF assms(1) False, of x] flows_full [OF assms(2), of x] assms(1) show ?thesis by auto
qed

end

lemma ring_list_less: "ring_ok r \<Longrightarrow> length (ring_list r) < ring_capacity r"
  by (auto simp: ring_ok_def ring_size_def ring_capacity_def)

section \<open>Loops that drain a queue\<close>

text \<open>
  The contract of a loop that takes one element per iteration until nothing is left: the iteration says
  whether it found an element. With more fuel than elements the loop returns and nothing is left.
\<close>

locale drain_loop =
  fixes iterate :: "'s \<Rightarrow> fault + bool \<times> 's"
    and left :: "'s \<Rightarrow> nat"
    and inv :: "'s \<Rightarrow> bool"
    and loop :: "nat \<Rightarrow> 's \<Rightarrow> fault + 's"
  assumes loop_Suc: "loop (Suc n) s = bind_res (iterate s) (\<lambda>(more, s1). if more then loop n s1 else Inr s1)"
    and iterate_ok: "inv s \<Longrightarrow> \<exists>s1. iterate s = Inr (left s \<noteq> 0, s1) \<and> inv s1 \<and> left s1 = left s - 1"
begin

lemma drained: "inv s \<Longrightarrow> left s < n \<Longrightarrow> \<exists>s1. loop n s = Inr s1 \<and> inv s1 \<and> left s1 = 0"
proof (induction n arbitrary: s)
  case (Suc n)
  from iterate_ok [OF Suc.prems(1)] obtain s1
    where s1: "iterate s = Inr (left s \<noteq> 0, s1)" "inv s1" "left s1 = left s - 1" by blast
  then show ?case using Suc.IH [OF s1(2)] Suc.prems(2) by (cases "left s") (simp_all add: loop_Suc)
qed simp

end

end
