(* ===== verification/Serializer.thy ===== *)
theory Serializer
  imports Exchange_Events Text_Format "HOL-Library.Monad_Syntax" "HOL-Library.Sublist"
begin

text \<open>
  The wire format (\<^verbatim>\<open>src/serialization/serializer.hpp\<close>, \<^verbatim>\<open>serializer.cpp\<close>): names of enumerators, decoding
  of client messages, encoding of exchange events.

  The JSON library (nlohmann) is not part of the repository: a record \<open>json_lib\<close> of the functions the
  code calls is an argument. \<open>None\<close> stands for an exception. What \<open>deserialize_order\<close> relies on is
  the hypothesis \<open>reads_object\<close>: parsing a text gives a value whose members are read by \<open>at\<close> and \<open>value\<close>
  as the library documents it. What the published lines rely on is the hypothesis \<open>json_writes\<close>: the text that \<open>dump\<close>
  gives is the JSON text of the value, on one line.
\<close>

record 'j json_lib =
  js_parse :: "string \<Rightarrow> 'j option"                          \<comment> \<open>\<open>json::parse\<close>\<close>
  js_at_uint :: "'j \<Rightarrow> string \<Rightarrow> 64 word option"             \<comment> \<open>\<open>j.at(k).get<uint64_t>()\<close>\<close>
  js_at_string :: "'j \<Rightarrow> string \<Rightarrow> string option"            \<comment> \<open>\<open>j.at(k).get<std::string>()\<close>\<close>
  js_value_uint :: "'j \<Rightarrow> string \<Rightarrow> 64 word \<Rightarrow> 64 word option" \<comment> \<open>\<open>j.value(k, uint64_t{})\<close>\<close>
  js_value_int :: "'j \<Rightarrow> string \<Rightarrow> int \<Rightarrow> int option"          \<comment> \<open>\<open>j.value(k, int64_t{})\<close>\<close>
  js_uint :: "64 word \<Rightarrow> 'j"
  js_int :: "int \<Rightarrow> 'j"
  js_string :: "string \<Rightarrow> 'j"
  js_array :: "'j list \<Rightarrow> 'j"
  js_object :: "(string \<times> 'j) list \<Rightarrow> 'j"
  js_dump :: "'j \<Rightarrow> string"                                  \<comment> \<open>\<open>j.dump()\<close>\<close>

section \<open>Names\<close>

definition side_to_str :: "side \<Rightarrow> string" where
  "side_to_str s = (if s = Buy then ''BUY'' else ''SELL'')"

fun order_type_to_str :: "order_type \<Rightarrow> string" where
  "order_type_to_str Limit = ''LIMIT''"
| "order_type_to_str Market = ''MARKET''"
| "order_type_to_str Stop = ''STOP''"
| "order_type_to_str StopLimit = ''STOP_LIMIT''"
| "order_type_to_str Iceberg = ''ICEBERG''"

fun reject_reason_to_str :: "reject_reason \<Rightarrow> string" where
  "reject_reason_to_str InvalidPrice = ''INVALID_PRICE''"
| "reject_reason_to_str InvalidQuantity = ''INVALID_QUANTITY''"
| "reject_reason_to_str DuplicateOrderId = ''DUPLICATE_ORDER_ID''"
| "reject_reason_to_str OrderNotFound = ''ORDER_NOT_FOUND''"
| "reject_reason_to_str OrderNotCancellable = ''ORDER_NOT_CANCELLABLE''"
| "reject_reason_to_str InvalidModify = ''INVALID_MODIFY''"
| "reject_reason_to_str StopPriceInconsistent = ''STOP_PRICE_INCONSISTENT''"
| "reject_reason_to_str PriceBandViolation = ''PRICE_BAND_VIOLATION''"
| "reject_reason_to_str MaxSizeViolation = ''MAX_SIZE_VIOLATION''"
| "reject_reason_to_str MarketExhausted = ''MARKET_EXHAUSTED''"
| "reject_reason_to_str NoReason = ''NONE''"

definition parse_side :: "string \<Rightarrow> side option" where
  "parse_side s = (if s = ''BUY'' then Some Buy else if s = ''SELL'' then Some Sell else None)"

definition parse_order_type :: "string \<Rightarrow> order_type option" where
  "parse_order_type s =
     (if s = ''LIMIT'' then Some Limit
      else if s = ''MARKET'' then Some Market
      else if s = ''STOP'' then Some Stop
      else if s = ''STOP_LIMIT'' then Some StopLimit
      else if s = ''ICEBERG'' then Some Iceberg
      else None)"

definition parse_action :: "string \<Rightarrow> order_action option" where
  "parse_action s = (if s = ''NEW_ORDER'' then Some NewOrder
     else if s = ''CANCEL_ORDER'' then Some CancelOrder else None)"

section \<open>Decoding\<close>

definition deserialize_order :: "'j json_lib \<Rightarrow> string \<Rightarrow> order_message option" where
  "deserialize_order lib text = do {
     j \<leftarrow> js_parse lib text;
     oid \<leftarrow> js_at_uint lib j ''order_id'';
     cid \<leftarrow> js_at_uint lib j ''client_id'';
     sy \<leftarrow> js_at_string lib j ''symbol'';
     q \<leftarrow> js_at_uint lib j ''quantity'';
     p \<leftarrow> js_value_int lib j ''price'' 0;
     sp \<leftarrow> js_value_int lib j ''stop_price'' 0;
     pk \<leftarrow> js_value_uint lib j ''peak_qty'' 0;
     ts \<leftarrow> js_value_uint lib j ''timestamp'' 0;
     act \<leftarrow> Option.bind (js_at_string lib j ''action'') parse_action;
     sd \<leftarrow> Option.bind (js_at_string lib j ''side'') parse_side;
     ty \<leftarrow> Option.bind (js_at_string lib j ''type'') parse_order_type;
     Some \<lparr> msg_order_id = oid, msg_client_id = cid, msg_symbol = sy, msg_side = sd, msg_type = ty,
       msg_quantity = q, msg_price = p, msg_stop_price = sp, msg_peak_qty = pk, msg_timestamp = ts, msg_action = act \<rparr>
   }"

section \<open>Encoding\<close>

definition trade_json :: "'j json_lib \<Rightarrow> trade_executed_event \<Rightarrow> 'j" where
  "trade_json lib e = js_object lib [(''ts'', js_uint lib (exe_timestamp e)), (''type'', js_string lib ''TRADE''),
     (''symbol'', js_string lib (exe_symbol e)), (''buy_id'', js_uint lib (exe_buy_order_id e)),
     (''sell_id'', js_uint lib (exe_sell_order_id e)), (''price'', js_int lib (exe_price e)),
     (''qty'', js_uint lib (exe_quantity e))]"

definition book_json :: "'j json_lib \<Rightarrow> book_updated_event \<Rightarrow> 'j" where
  "book_json lib e = js_object lib [(''ts'', js_uint lib (upd_timestamp e)), (''type'', js_string lib ''BOOK''),
     (''symbol'', js_string lib (upd_symbol e)), (''best_bid'', js_int lib (upd_best_bid e)),
     (''best_ask'', js_int lib (upd_best_ask e)), (''spread'', js_int lib (upd_spread e)),
     (''bid_levels'', js_uint lib (of_nat (upd_bid_levels e))), (''ask_levels'', js_uint lib (of_nat (upd_ask_levels e)))]"

definition depth_json :: "'j json_lib \<Rightarrow> (int \<times> 64 word) list \<Rightarrow> 'j" where
  "depth_json lib lvls = js_array lib (map (\<lambda>(px, q). js_object lib [(''price'', js_int lib px), (''qty'', js_uint lib q)]) lvls)"

definition snapshot_json :: "'j json_lib \<Rightarrow> snapshot_event \<Rightarrow> 'j" where
  "snapshot_json lib e = js_object lib [(''ts'', js_uint lib (snp_timestamp e)), (''type'', js_string lib ''SNAPSHOT''),
     (''symbol'', js_string lib (snp_symbol e)), (''last_trade_price'', js_int lib (snp_last_trade_price e)),
     (''best_bid'', js_int lib (snp_best_bid e)), (''best_ask'', js_int lib (snp_best_ask e)),
     (''bids'', depth_json lib (snp_bids e)), (''asks'', depth_json lib (snp_asks e))]"

definition accepted_json :: "'j json_lib \<Rightarrow> order_accepted_event \<Rightarrow> 'j" where
  "accepted_json lib e = js_object lib [(''ts'', js_uint lib (acc_timestamp e)), (''type'', js_string lib ''ACCEPTED''),
     (''symbol'', js_string lib (acc_symbol e)), (''order_id'', js_uint lib (acc_order_id e)),
     (''cid'', js_uint lib (acc_client_id e)), (''price'', js_int lib (acc_price e)), (''qty'', js_uint lib (acc_quantity e)),
     (''side'', js_string lib (side_to_str (acc_side e))), (''otype'', js_string lib (order_type_to_str (acc_type e)))]"

definition rejected_json :: "'j json_lib \<Rightarrow> order_rejected_event \<Rightarrow> 'j" where
  "rejected_json lib e = js_object lib [(''ts'', js_uint lib (rjt_timestamp e)), (''type'', js_string lib ''REJECTED''),
     (''symbol'', js_string lib (rjt_symbol e)), (''order_id'', js_uint lib (rjt_order_id e)),
     (''cid'', js_uint lib (rjt_client_id e)), (''reason'', js_string lib (reject_reason_to_str (rjt_reason e)))]"

definition canceled_json :: "'j json_lib \<Rightarrow> order_canceled_event \<Rightarrow> 'j" where
  "canceled_json lib e = js_object lib [(''ts'', js_uint lib (cxl_timestamp e)), (''type'', js_string lib ''CANCELED''),
     (''symbol'', js_string lib (cxl_symbol e)), (''order_id'', js_uint lib (cxl_order_id e)),
     (''remaining_qty'', js_uint lib (cxl_remaining_qty e))]"

fun serialize_event :: "'j json_lib \<Rightarrow> exchange_event \<Rightarrow> string" where
  "serialize_event lib (TradeExecuted e) = ''TRADE '' @ js_dump lib (trade_json lib e)"
| "serialize_event lib (BookUpdated e) = ''BOOK '' @ js_dump lib (book_json lib e)"
| "serialize_event lib (Snapshot e) = ''SNAPSHOT '' @ js_dump lib (snapshot_json lib e)"
| "serialize_event lib (OrderAccepted e) = ''ACCEPTED '' @ js_dump lib (accepted_json lib e)"
| "serialize_event lib (OrderRejected e) = ''REJECTED '' @ js_dump lib (rejected_json lib e)"
| "serialize_event lib (OrderCanceled e) = ''CANCELED '' @ js_dump lib (canceled_json lib e)"

section \<open>What the library promises\<close>

text \<open>
  The library keeps a number without sign as unsigned and one with a sign as signed; \<open>get\<close> casts
  between the two, fails for a missing member or another type, and \<open>value\<close> falls back to the default for a
  missing member only.
\<close>

datatype json_member = M_uint "64 word" | M_int int | M_text string | M_other

fun member_uint :: "json_member \<Rightarrow> 64 word option" where
  "member_uint (M_uint w) = Some w"
| "member_uint (M_int i) = Some (word_of_int i)"
| "member_uint _ = None"

fun member_int :: "json_member \<Rightarrow> int option" where
  "member_int (M_uint w) = Some (sint w)"
| "member_int (M_int i) = Some i"
| "member_int _ = None"

fun member_text :: "json_member \<Rightarrow> string option" where
  "member_text (M_text s) = Some s"
| "member_text _ = None"

definition reads_object :: "'j json_lib \<Rightarrow> string \<Rightarrow> (string \<times> json_member) list \<Rightarrow> bool" where
  "reads_object lib text ms \<longleftrightarrow> (\<exists>j. js_parse lib text = Some j \<and> (\<forall>k.
     js_at_uint lib j k = Option.bind (map_of ms k) member_uint \<and>
     js_at_string lib j k = Option.bind (map_of ms k) member_text \<and>
     (\<forall>d. js_value_uint lib j k d = (case map_of ms k of None \<Rightarrow> Some d | Some m \<Rightarrow> member_uint m)) \<and>
     (\<forall>d. js_value_int lib j k d = (case map_of ms k of None \<Rightarrow> Some d | Some m \<Rightarrow> member_int m))))"

text \<open>The members of a client message; those with a default may be left out when they are zero.\<close>

definition number_member :: "int \<Rightarrow> json_member" where
  "number_member i = (if 0 \<le> i then M_uint (word_of_int i) else M_int i)"

definition action_str :: "order_action \<Rightarrow> string" where
  "action_str a = (case a of NewOrder \<Rightarrow> ''NEW_ORDER'' | CancelOrder \<Rightarrow> ''CANCEL_ORDER'')"

definition required_members :: "order_message \<Rightarrow> (string \<times> json_member) list" where
  "required_members msg = [(''order_id'', M_uint (msg_order_id msg)), (''client_id'', M_uint (msg_client_id msg)),
     (''symbol'', M_text (msg_symbol msg)), (''quantity'', M_uint (msg_quantity msg)),
     (''action'', M_text (action_str (msg_action msg))), (''side'', M_text (side_to_str (msg_side msg))),
     (''type'', M_text (order_type_to_str (msg_type msg)))]"

definition optional_members :: "order_message \<Rightarrow> (string \<times> json_member) list" where
  "optional_members msg = [(''price'', number_member (msg_price msg)), (''stop_price'', number_member (msg_stop_price msg)),
     (''peak_qty'', M_uint (msg_peak_qty msg)), (''timestamp'', M_uint (msg_timestamp msg))]"

definition encodes :: "(string \<times> json_member) list \<Rightarrow> order_message \<Rightarrow> bool" where
  "encodes ms msg \<longleftrightarrow> int64_ok (msg_price msg) \<and> int64_ok (msg_stop_price msg) \<and>
     list_all (\<lambda>(k, v). map_of ms k = Some v) (required_members msg) \<and>
     list_all (\<lambda>(k, v). map_of ms k = Some v \<or> v = M_uint 0 \<and> map_of ms k = None) (optional_members msg)"

text \<open>
  \<open>dump\<close>: the text of a number or string tells the number or string (of plain text, which is valid UTF-8), the text of an
  array tells the texts of its elements, that of an object the texts of its members; control characters are escaped.
\<close>

definition json_writes :: "'j json_lib \<Rightarrow> bool" where
  "json_writes lib \<longleftrightarrow>
     (\<forall>a b. js_dump lib (js_uint lib a) = js_dump lib (js_uint lib b) \<longrightarrow> a = b) \<and>
     (\<forall>a b. int64_ok a \<longrightarrow> int64_ok b \<longrightarrow> js_dump lib (js_int lib a) = js_dump lib (js_int lib b) \<longrightarrow> a = b) \<and>
     (\<forall>s t. plain_text s \<longrightarrow> plain_text t \<longrightarrow> js_dump lib (js_string lib s) = js_dump lib (js_string lib t) \<longrightarrow> s = t) \<and>
     (\<forall>xs ys. js_dump lib (js_array lib xs) = js_dump lib (js_array lib ys) \<longrightarrow> map (js_dump lib) xs = map (js_dump lib) ys) \<and>
     (\<forall>kvs kvs'. map fst kvs = map fst kvs' \<longrightarrow> distinct (map fst kvs) \<longrightarrow>
        js_dump lib (js_object lib kvs) = js_dump lib (js_object lib kvs') \<longrightarrow>
        map (js_dump lib \<circ> snd) kvs = map (js_dump lib \<circ> snd) kvs') \<and>
     (\<forall>j. CHR 0x0A \<notin> set (js_dump lib j))"

section \<open>Properties\<close>

lemma parse_side_str [simp]: "parse_side (side_to_str sd) = Some sd"
  by (cases sd) (simp_all add: parse_side_def side_to_str_def)

lemma parse_type_str [simp]: "parse_order_type (order_type_to_str ty) = Some ty"
  by (cases ty) (simp_all add: parse_order_type_def)

lemma parse_action_str [simp]: "parse_action (action_str a) = Some a"
  by (cases a) (simp_all add: parse_action_def action_str_def)

lemma number_member_int:
  assumes "int64_ok i"
  shows "member_int (number_member i) = Some i" and "number_member i = M_uint 0 \<Longrightarrow> i = 0"
proof -
  have "signed_take_bit 63 i = i" using assms by (simp add: int64_ok_def signed_take_bit_int_eq_self_iff)
  then show *: "member_int (number_member i) = Some i"
    by (simp add: number_member_def signed_of_int)
  show "number_member i = M_uint 0 \<Longrightarrow> i = 0" using * by simp
qed

lemma value_member:
  assumes "map_of ms k = Some v \<or> v = M_uint 0 \<and> map_of ms k = None"
  shows "(case map_of ms k of None \<Rightarrow> Some 0 | Some m \<Rightarrow> member_uint m) = member_uint v"
    and "(case map_of ms k of None \<Rightarrow> Some 0 | Some m \<Rightarrow> member_int m) = member_int v"
  using assms by auto

text \<open>
  C28. Round trip of the inbound format: a text the JSON library reads as an object with the members of a
  message, in any order, with or without further members, and with zero members left out or not, is decoded
  to that message.
\<close>
theorem deserialize_roundtrip:
  assumes "reads_object lib text ms" and "encodes ms msg"
  shows "deserialize_order lib text = Some msg"
proof -
  from assms(1) obtain j where j: "js_parse lib text = Some j"
    "\<And>k. js_at_uint lib j k = Option.bind (map_of ms k) member_uint"
    "\<And>k. js_at_string lib j k = Option.bind (map_of ms k) member_text"
    "\<And>k d. js_value_uint lib j k d = (case map_of ms k of None \<Rightarrow> Some d | Some m \<Rightarrow> member_uint m)"
    "\<And>k d. js_value_int lib j k d = (case map_of ms k of None \<Rightarrow> Some d | Some m \<Rightarrow> member_int m)"
    by (auto simp: reads_object_def)
  have req: "map_of ms k = Some v" if "(k, v) \<in> set (required_members msg)" for k v
    using assms(2) that by (auto simp: encodes_def list_all_iff)
  have opt: "map_of ms k = Some v \<or> v = M_uint 0 \<and> map_of ms k = None" if "(k, v) \<in> set (optional_members msg)" for k v
    using assms(2) that by (auto simp: encodes_def list_all_iff)
  have rng: "int64_ok (msg_price msg)" "int64_ok (msg_stop_price msg)" using assms(2) by (simp_all add: encodes_def)
  have "js_value_int lib j ''price'' 0 = Some (msg_price msg)"
    "js_value_int lib j ''stop_price'' 0 = Some (msg_stop_price msg)"
    "js_value_uint lib j ''peak_qty'' 0 = Some (msg_peak_qty msg)"
    "js_value_uint lib j ''timestamp'' 0 = Some (msg_timestamp msg)"
    using value_member [OF opt [of "''price''" "number_member (msg_price msg)"]]
      value_member [OF opt [of "''stop_price''" "number_member (msg_stop_price msg)"]]
      value_member [OF opt [of "''peak_qty''" "M_uint (msg_peak_qty msg)"]]
      value_member [OF opt [of "''timestamp''" "M_uint (msg_timestamp msg)"]] rng number_member_int
    by (simp_all add: j optional_members_def)
  then show ?thesis
    using req by (simp add: deserialize_order_def j(1-3) required_members_def)
qed

text \<open>
  A library that reads one text as an object and writes values in a simple form: a value is its text; in a sequence
  each character of an element is marked and the element ends with a comma.
\<close>

definition ex_members :: "(string \<times> json_member) list" where
  "ex_members = [(''action'', M_text ''NEW_ORDER''), (''order_id'', M_uint 7), (''client_id'', M_uint 3),
     (''symbol'', M_text ''STOCK_2''), (''side'', M_text ''SELL''), (''type'', M_text ''STOP_LIMIT''),
     (''quantity'', M_uint 40), (''price'', M_uint 5), (''stop_price'', M_int (-9)), (''note'', M_other)]"

definition ex_text :: string where
  \<open>ex_text = ''{"action":"NEW_ORDER","order_id":7,"client_id":3,"symbol":"STOCK_2","side":"SELL",'' @
     ''"type":"STOP_LIMIT","quantity":40,"price":5,"stop_price":-9,"note":null}''\<close>

definition ex_cell :: "string \<Rightarrow> string" where
  "ex_cell s = concat (map (\<lambda>c. [CHR ''~'', c]) s) @ '',''"

definition ex_escape :: "char \<Rightarrow> string" where
  "ex_escape c = (if c = CHR 0x0A then [CHR 0x5C, CHR ''n''] else if c = CHR 0x5C then [CHR 0x5C, CHR 0x5C] else [c])"

definition ex_object :: "string \<Rightarrow> (string \<times> json_member) list" where
  "ex_object t = (if t = ex_text then ex_members else [])"

definition ex_lib :: "string json_lib" where
  "ex_lib = \<lparr> js_parse = Some,
     js_at_uint = (\<lambda>j k. Option.bind (map_of (ex_object j) k) member_uint),
     js_at_string = (\<lambda>j k. Option.bind (map_of (ex_object j) k) member_text),
     js_value_uint = (\<lambda>j k d. case map_of (ex_object j) k of None \<Rightarrow> Some d | Some m \<Rightarrow> member_uint m),
     js_value_int = (\<lambda>j k d. case map_of (ex_object j) k of None \<Rightarrow> Some d | Some m \<Rightarrow> member_int m),
     js_uint = (\<lambda>w. show_nat (unat w)), js_int = show_int, js_string = (\<lambda>t. t),
     js_array = (\<lambda>js. concat (map ex_cell js)), js_object = (\<lambda>kvs. concat (map (\<lambda>(k, j). ex_cell k @ ex_cell j) kvs)),
     js_dump = (\<lambda>j. concat (map ex_escape j)) \<rparr>"

lemma ex_lib_reads: "reads_object ex_lib ex_text ex_members"
  by (auto simp: reads_object_def ex_lib_def ex_object_def)

lemma ex_cell_inj: "ex_cell s @ x = ex_cell t @ y \<longleftrightarrow> s = t \<and> x = y"
proof (induction s arbitrary: t)
  case Nil
  show ?case by (cases t) (auto simp: ex_cell_def)
next
  case (Cons c s)
  then show ?case by (cases t) (auto simp: ex_cell_def)
qed

lemma ex_cells_inj: "concat (map ex_cell xs) = concat (map ex_cell ys) \<longleftrightarrow> xs = ys"
proof (induction xs arbitrary: ys)
  case Nil
  show ?case by (cases ys) (auto simp: ex_cell_def)
next
  case (Cons x xs)
  then show ?case by (cases ys) (auto simp: ex_cell_inj, simp add: ex_cell_def)
qed

lemma ex_escape_inj: "concat (map ex_escape s) = concat (map ex_escape t) \<longleftrightarrow> s = t"
proof (induction s arbitrary: t)
  case Nil
  show ?case by (cases t) (auto simp: ex_escape_def)
next
  case (Cons c s)
  show ?case
  proof (cases t)
    case (Cons d u)
    then show ?thesis using Cons.IH [of u] by (auto simp: ex_escape_def)
  qed (simp add: ex_escape_def)
qed

lemma ex_lib_writes: "json_writes ex_lib"
proof -
  have "kvs = kvs'" if "concat (map (\<lambda>(k, j). ex_cell k @ ex_cell j) kvs) = concat (map (\<lambda>(k, j). ex_cell k @ ex_cell j) kvs')"
    "map fst kvs = map fst kvs'" for kvs kvs'
    using that
  proof (induction kvs arbitrary: kvs')
    case (Cons kv kvs)
    then show ?case by (cases kv; cases kvs') (auto simp: ex_cell_inj)
  qed simp
  moreover have "CHR 0x0A \<notin> set (ex_escape c)" for c by (simp add: ex_escape_def)
  ultimately show ?thesis by (auto simp: json_writes_def ex_lib_def ex_escape_inj ex_cells_inj word_unat_eq_iff)
qed

theorem deserialize_roundtrip_witness:
  "deserialize_order ex_lib ex_text = Some \<lparr> msg_order_id = 7, msg_client_id = 3, msg_symbol = ''STOCK_2'',
     msg_side = Sell, msg_type = StopLimit, msg_quantity = 40, msg_price = 5, msg_stop_price = - 9, msg_peak_qty = 0,
     msg_timestamp = 0, msg_action = NewOrder \<rparr>"
  by (rule deserialize_roundtrip [OF ex_lib_reads]) code_simp

fun event_topic :: "exchange_event \<Rightarrow> string" where
  "event_topic (TradeExecuted e) = ''TRADE''"
| "event_topic (BookUpdated e) = ''BOOK''"
| "event_topic (Snapshot e) = ''SNAPSHOT''"
| "event_topic (OrderAccepted e) = ''ACCEPTED''"
| "event_topic (OrderRejected e) = ''REJECTED''"
| "event_topic (OrderCanceled e) = ''CANCELED''"

lemma serialize_topic: "\<exists>payload. serialize_event lib e = event_topic e @ '' '' @ payload"
  by (cases e) auto

lemma serialize_nonempty [simp]: "serialize_event lib e \<noteq> []"
  by (cases e) auto

text \<open>
  Topics: a published message starts with its topic, followed by a space, and a subscription to the
  topic of one kind of event, which selects messages by prefix, receives exactly the events of this kind.
  No message is empty. A message never starts with an opening brace, although the replay log is
  documented as one JSON object per line.
\<close>
theorem topics_select_events:
  "takeWhile (\<lambda>c. c \<noteq> CHR '' '') (serialize_event lib e) = event_topic e
   \<and> (prefix (event_topic e') (serialize_event lib e) \<longleftrightarrow> event_topic e' = event_topic e)
   \<and> serialize_event lib e \<noteq> [] \<and> hd (serialize_event lib e) \<noteq> CHR ''{''"
proof -
  have "takeWhile (\<lambda>c. c \<noteq> CHR '' '') (serialize_event lib e) = event_topic e" by (cases e) simp_all
  moreover have "prefix (event_topic e') (serialize_event lib e) \<longleftrightarrow> event_topic e' = event_topic e"
    by (cases e; cases e') (simp_all add: prefix_def)
  moreover have "hd (serialize_event lib e) \<noteq> CHR ''{''" by (cases e) simp_all
  ultimately show ?thesis by simp
qed

end
