(* ===== verification/Event_Dispatcher.thy ===== *)
theory Event_Dispatcher
  imports Queue_Flow Serializer
begin

text \<open>
  The event dispatcher (\<^verbatim>\<open>src/gateway/event_dispatcher.hpp\<close>, \<^verbatim>\<open>event_dispatcher.cpp\<close>): a ring of events
  between the exchange thread and the publisher thread. \<open>dsp_sent\<close> holds the messages given to
  \<open>zmq_send\<close>, in order; whether \<open>zmq_bind\<close> succeeds is an argument of \<open>dispatcher_start\<close>.
\<close>

record dispatcher =
  dsp_ring :: "(exchange_event, 32 word) ring"
  dsp_drops :: "64 word"
  dsp_running :: bool
  dsp_sent :: "string list"

text \<open>The value of a slot that was never written: the first alternative of the variant, all fields zero.\<close>

definition default_event :: exchange_event where
  "default_event = OrderAccepted \<lparr> acc_timestamp = 0, acc_symbol = [], acc_order_id = 0, acc_client_id = 0,
     acc_price = 0, acc_quantity = 0, acc_side = Buy, acc_type = Limit \<rparr>"

definition new_dispatcher :: "32 word \<Rightarrow> dispatcher" where
  "new_dispatcher capacity = \<lparr> dsp_ring = new_ring default_event capacity, dsp_drops = 0, dsp_running = False, dsp_sent = [] \<rparr>"

definition dispatcher_start :: "bool \<Rightarrow> string \<Rightarrow> dispatcher \<Rightarrow> string + dispatcher" where
  "dispatcher_start bind_ok endpoint d = (if bind_ok then Inr (d\<lparr> dsp_running := True \<rparr>)
     else Inl (''EventDispatcher: zmq_bind failed on '' @ endpoint))"

definition dispatcher_enqueue :: "exchange_event \<Rightarrow> dispatcher \<Rightarrow> fault + dispatcher" where
  "dispatcher_enqueue ev d = bind_res (ring_push ev (dsp_ring d)) (\<lambda>(room, r).
     Inr (d\<lparr> dsp_ring := r, dsp_drops := (if room then dsp_drops d else dsp_drops d + 1) \<rparr>))"

fun dispatcher_enqueue_all :: "exchange_event list \<Rightarrow> dispatcher \<Rightarrow> fault + dispatcher" where
  "dispatcher_enqueue_all [] d = Inr d"
| "dispatcher_enqueue_all (ev # evs) d = bind_res (dispatcher_enqueue ev d) (dispatcher_enqueue_all evs)"

text \<open>One iteration of the publisher: \<open>False\<close> when the ring was empty.\<close>

definition publish_one :: "'j json_lib \<Rightarrow> dispatcher \<Rightarrow> fault + bool \<times> dispatcher" where
  "publish_one lib d = bind_res (ring_pop (dsp_ring d)) (\<lambda>(x, r). case x of
     None \<Rightarrow> Inr (False, d)
   | Some ev \<Rightarrow> let msg = serialize_event lib ev; d1 = d\<lparr> dsp_ring := r \<rparr> in
       Inr (True, if msg \<noteq> [] then d1\<lparr> dsp_sent := dsp_sent d1 @ [msg] \<rparr> else d1))"

fun publisher_drain :: "nat \<Rightarrow> 'j json_lib \<Rightarrow> dispatcher \<Rightarrow> fault + dispatcher" where
  "publisher_drain 0 lib d = Inl Out_of_fuel"
| "publisher_drain (Suc n) lib d = bind_res (publish_one lib d) (\<lambda>(more, d1).
     if more then publisher_drain n lib d1 else Inr d1)"

text \<open>
  \<open>stop\<close> clears the flag and joins the publisher, whose last act is the drain. The fuel is the
  capacity, which is more than a ring can hold.
\<close>

definition dispatcher_stop :: "'j json_lib \<Rightarrow> dispatcher \<Rightarrow> fault + dispatcher" where
  "dispatcher_stop lib d = (if dsp_running d
     then publisher_drain (ring_capacity (dsp_ring d)) lib (d\<lparr> dsp_running := False \<rparr>) else Inr d)"

section \<open>What is published\<close>

definition dispatcher_ok :: "'j json_lib \<Rightarrow> exchange_event list \<Rightarrow> dispatcher \<Rightarrow> bool" where
  "dispatcher_ok lib E d \<longleftrightarrow> ring_ok (dsp_ring d) \<and>
     flows (serialize_event lib) E (dsp_sent d) (ring_list (dsp_ring d)) (dsp_drops d)"

lemma dispatcher_ok_new: "n < 32 \<Longrightarrow> dispatcher_ok lib [] (new_dispatcher (2 ^ n))"
  by (simp add: dispatcher_ok_def new_dispatcher_def new_ring_ok flows_start)

lemma dispatcher_enqueue_ok:
  assumes "dispatcher_ok lib E d"
  shows "\<exists>d1. dispatcher_enqueue ev d = Inr d1 \<and> dispatcher_ok lib (E @ [ev]) d1 \<and> dsp_running d1 = dsp_running d"
  using ring.push_flows [of "dsp_ring d" "serialize_event lib" E "dsp_sent d" "dsp_drops d" ev] assms
  by (auto simp: dispatcher_ok_def dispatcher_enqueue_def)

lemma dispatcher_enqueue_all_ok:
  "dispatcher_ok lib E d \<Longrightarrow> \<exists>d1. dispatcher_enqueue_all evs d = Inr d1 \<and> dispatcher_ok lib (E @ evs) d1
     \<and> dsp_running d1 = dsp_running d"
proof (induction evs arbitrary: E d)
  case (Cons ev evs)
  from dispatcher_enqueue_ok [OF Cons.prems, of ev] obtain d1 where d1: "dispatcher_enqueue ev d = Inr d1"
    "dispatcher_ok lib (E @ [ev]) d1" "dsp_running d1 = dsp_running d" by blast
  from Cons.IH [OF d1(2)] d1(1,3) show ?case by auto
qed simp

lemma publish_one_ok:
  assumes "dispatcher_ok lib E d"
  shows "\<exists>d1. publish_one lib d = Inr (ring_list (dsp_ring d) \<noteq> [], d1) \<and> dispatcher_ok lib E d1
    \<and> dsp_running d1 = dsp_running d \<and> ring_list (dsp_ring d1) = tl (ring_list (dsp_ring d))"
proof (cases "ring_list (dsp_ring d)")
  case Nil
  then show ?thesis using ring_pop_none [of "dsp_ring d"] assms by (simp add: dispatcher_ok_def publish_one_def)
next
  case (Cons x xs)
  from ring_pop_some [OF _ Cons] assms show ?thesis
    using Cons by (auto simp: dispatcher_ok_def publish_one_def Let_def flows_pop)
qed

interpretation publisher: drain_loop "publish_one lib" "\<lambda>d. length (ring_list (dsp_ring d))"
    "\<lambda>d. dispatcher_ok lib E d \<and> dsp_running d = b" "\<lambda>n. publisher_drain n lib" for lib E b
proof (unfold_locales, goal_cases)
  case (2 d)
  then show ?case using publish_one_ok [of lib E d] by (fastforce simp del: ring_list_length)
qed simp

lemma dispatcher_stop_ok:
  assumes "dispatcher_ok lib E d" and "dsp_running d"
  shows "\<exists>d1. dispatcher_stop lib d = Inr d1 \<and> dispatcher_ok lib E d1 \<and> ring_list (dsp_ring d1) = [] \<and> \<not> dsp_running d1"
proof -
  let ?d = "d\<lparr> dsp_running := False \<rparr>"
  have "dispatcher_ok lib E ?d \<and> dsp_running ?d = False" "length (ring_list (dsp_ring ?d)) < ring_capacity (dsp_ring d)"
    using assms ring_list_less by (auto simp: dispatcher_ok_def simp del: ring_list_length)
  from publisher.drained [OF this] assms(2) show ?thesis by (auto simp: dispatcher_stop_def simp del: ring_list_length)
qed

end
