(* ===== verification/Replay_Logger.thy ===== *)
theory Replay_Logger
  imports Event_Dispatcher
begin

text \<open>
  The replay logger (\<^verbatim>\<open>src/gateway/replay_logger.hpp\<close>, \<^verbatim>\<open>replay_logger.cpp\<close>): events are serialized on the
  exchange thread, kept as strings in a ring, and written line by line by the writer thread.
  \<open>rpl_file\<close> is what has been appended to the file.
\<close>

record replay_logger =
  rpl_ring :: "(string, 32 word) ring"
  rpl_drops :: "64 word"
  rpl_running :: bool
  rpl_path :: string
  rpl_file :: string

definition new_replay_logger :: "string \<Rightarrow> 32 word \<Rightarrow> replay_logger" where
  "new_replay_logger path capacity = \<lparr> rpl_ring = new_ring [] capacity, rpl_drops = 0, rpl_running = False,
     rpl_path = path, rpl_file = [] \<rparr>"

definition replay_start :: "replay_logger \<Rightarrow> replay_logger" where
  "replay_start l = l\<lparr> rpl_running := True \<rparr>"

definition replay_log :: "'j json_lib \<Rightarrow> exchange_event \<Rightarrow> replay_logger \<Rightarrow> fault + replay_logger" where
  "replay_log lib ev l = bind_res (ring_push (serialize_event lib ev) (rpl_ring l)) (\<lambda>(room, r).
     Inr (l\<lparr> rpl_ring := r, rpl_drops := (if room then rpl_drops l else rpl_drops l + 1) \<rparr>))"

fun replay_log_all :: "'j json_lib \<Rightarrow> exchange_event list \<Rightarrow> replay_logger \<Rightarrow> fault + replay_logger" where
  "replay_log_all lib [] l = Inr l"
| "replay_log_all lib (ev # evs) l = bind_res (replay_log lib ev l) (replay_log_all lib evs)"

definition newline :: char where "newline = char_of (10 :: nat)"

definition write_one :: "replay_logger \<Rightarrow> fault + bool \<times> replay_logger" where
  "write_one l = bind_res (ring_pop (rpl_ring l)) (\<lambda>(x, r). case x of
     None \<Rightarrow> Inr (False, l)
   | Some row \<Rightarrow> let l1 = l\<lparr> rpl_ring := r \<rparr> in
       Inr (True, if row \<noteq> [] then l1\<lparr> rpl_file := rpl_file l1 @ row @ [newline] \<rparr> else l1))"

fun writer_drain :: "nat \<Rightarrow> replay_logger \<Rightarrow> fault + replay_logger" where
  "writer_drain 0 l = Inl Out_of_fuel"
| "writer_drain (Suc n) l = bind_res (write_one l) (\<lambda>(more, l1). if more then writer_drain n l1 else Inr l1)"

definition replay_stop :: "replay_logger \<Rightarrow> fault + replay_logger" where
  "replay_stop l = (if rpl_running l then writer_drain (ring_capacity (rpl_ring l)) (l\<lparr> rpl_running := False \<rparr>) else Inr l)"

section \<open>What is written\<close>

definition file_lines :: "string list \<Rightarrow> string" where
  "file_lines rows = concat (map (\<lambda>row. row @ [newline]) rows)"

definition replay_ok :: "'j json_lib \<Rightarrow> exchange_event list \<Rightarrow> replay_logger \<Rightarrow> bool" where
  "replay_ok lib E l \<longleftrightarrow> ring_ok (rpl_ring l) \<and> list_all (\<lambda>row. row \<noteq> []) (ring_list (rpl_ring l)) \<and>
     (\<exists>out. rpl_file l = file_lines out \<and> flows id (map (serialize_event lib) E) out (ring_list (rpl_ring l)) (rpl_drops l))"

lemma replay_ok_new: "n < 32 \<Longrightarrow> replay_ok lib [] (new_replay_logger path (2 ^ n))"
  by (auto simp: replay_ok_def new_replay_logger_def new_ring_ok flows_start file_lines_def intro!: exI [of _ "[]"])

lemma replay_log_ok:
  assumes "replay_ok lib E l"
  shows "\<exists>l1. replay_log lib ev l = Inr l1 \<and> replay_ok lib (E @ [ev]) l1 \<and> rpl_running l1 = rpl_running l"
proof -
  from assms obtain out where o: "ring_ok (rpl_ring l)" "list_all (\<lambda>row. row \<noteq> []) (ring_list (rpl_ring l))"
    "rpl_file l = file_lines out" "flows id (map (serialize_event lib) E) out (ring_list (rpl_ring l)) (rpl_drops l)"
    by (auto simp: replay_ok_def)
  from ring.push_flows [OF o(1,4), of "serialize_event lib ev"] obtain b r1
    where r1: "ring_push (serialize_event lib ev) (rpl_ring l) = Inr (b, r1)" "ring_ok r1"
      "flows id (map (serialize_event lib) E @ [serialize_event lib ev]) out (ring_list r1) (if b then rpl_drops l else rpl_drops l + 1)"
    by blast
  have "ring_list r1 = ring_list (rpl_ring l) \<or> ring_list r1 = ring_list (rpl_ring l) @ [serialize_event lib ev]"
    using ring_push_room [OF o(1), of "serialize_event lib ev"] ring_push_full [OF o(1), of "serialize_event lib ev"] r1(1)
    by (cases "length (ring_list (rpl_ring l)) + 1 < ring_capacity (rpl_ring l)") auto
  then show ?thesis using o r1 by (auto simp: replay_ok_def replay_log_def)
qed

lemma replay_log_all_ok:
  "replay_ok lib E l \<Longrightarrow> \<exists>l1. replay_log_all lib evs l = Inr l1 \<and> replay_ok lib (E @ evs) l1 \<and> rpl_running l1 = rpl_running l"
proof (induction evs arbitrary: E l)
  case (Cons ev evs)
  from replay_log_ok [OF Cons.prems, of ev] obtain l1 where l1: "replay_log lib ev l = Inr l1"
    "replay_ok lib (E @ [ev]) l1" "rpl_running l1 = rpl_running l" by blast
  from Cons.IH [OF l1(2)] l1(1,3) show ?case by auto
qed simp

lemma write_one_ok:
  assumes "replay_ok lib E l"
  shows "\<exists>l1. write_one l = Inr (ring_list (rpl_ring l) \<noteq> [], l1) \<and> replay_ok lib E l1
    \<and> rpl_running l1 = rpl_running l \<and> ring_list (rpl_ring l1) = tl (ring_list (rpl_ring l))"
proof (cases "ring_list (rpl_ring l)")
  case Nil
  then show ?thesis using ring_pop_none [of "rpl_ring l"] assms by (auto simp: replay_ok_def write_one_def)
next
  case (Cons x xs)
  from assms obtain out where o: "ring_ok (rpl_ring l)" "x \<noteq> []" "list_all (\<lambda>row. row \<noteq> []) xs"
    "rpl_file l = file_lines out" "flows id (map (serialize_event lib) E) (out @ [x]) xs (rpl_drops l)"
    using Cons by (auto simp: replay_ok_def flows_pop)
  have "file_lines out @ x @ [newline] = file_lines (out @ [x])" by (simp add: file_lines_def)
  with ring_pop_some [OF o(1) Cons] o show ?thesis
    using Cons by (fastforce simp: replay_ok_def write_one_def Let_def)
qed

interpretation writer: drain_loop write_one "\<lambda>l. length (ring_list (rpl_ring l))"
    "\<lambda>l. replay_ok lib E l \<and> rpl_running l = b" writer_drain for lib E b
proof (unfold_locales, goal_cases)
  case (2 l)
  then show ?case using write_one_ok [of lib E l] by (fastforce simp del: ring_list_length)
qed simp

lemma replay_stop_ok:
  assumes "replay_ok lib E l" and "rpl_running l"
  shows "\<exists>l1. replay_stop l = Inr l1 \<and> replay_ok lib E l1 \<and> ring_list (rpl_ring l1) = [] \<and> \<not> rpl_running l1"
proof -
  let ?l = "l\<lparr> rpl_running := False \<rparr>"
  have "replay_ok lib E ?l \<and> rpl_running ?l = False" "length (ring_list (rpl_ring ?l)) < ring_capacity (rpl_ring l)"
    using assms ring_list_less by (auto simp: replay_ok_def simp del: ring_list_length)
  from writer.drained [OF this] assms(2) show ?thesis by (auto simp: replay_stop_def simp del: ring_list_length)
qed

section \<open>The slot that is read late\<close>

text \<open>
  The writer keeps a reference into the buffer and releases the slot before it writes the line to the file. That is
  safe, and \<open>write_one\<close> may read the line at once, because a push never writes the slot just behind the head: the
  queue counts as full when that slot is the only free one.
\<close>

lemma released_slot_stable:
  assumes "ring_push x r = Inr (room, r1)" and "ring_next (ring_mask r) k = ring_head r"
  shows "ring_buffer r1 ! unat k = ring_buffer r ! unat k"
  using assms by (cases "k = ring_tail r") (auto simp: ring_push_def Let_def nth_list_update word_unat_eq_iff split: if_splits)

end
