(* ===== verification/Gateway.thy ===== *)
theory Gateway
  imports Exchange_Properties Replay_Logger
begin

text \<open>
  The gateway (\<^verbatim>\<open>src/gateway/gateway.hpp\<close>, \<^verbatim>\<open>gateway.cpp\<close>): the receiver thread (T1) decodes messages and
  pushes them into the inbound ring, the exchange thread (T2) processes them and hands the events to
  the replay logger and the dispatcher, the publisher (T3) and the writer (T4) empty their rings.

  The threads interleave between calls on the rings; that such calls can be taken as atomic is what
  \<^verbatim>\<open>Spsc_Protocol\<close> shows. ZeroMQ is outside: what \<open>zmq_msg_recv\<close> delivers is an argument. Clock
  readings are arguments, in nanoseconds. Times of \<open>std::chrono\<close> are signed 64-bit numbers: \<open>snapshot_time\<close> faults where
  its arithmetic overflows.

  \<open>gw_accepted\<close>, \<open>gw_processed\<close> and \<open>gw_events\<close> are history variables: the messages that entered the
  inbound ring, the messages processed (with the clock readings of \<open>process\<close>), and the events offered to
  the two outbound queues. No operation reads them, except that \<open>exchange_drain\<close> uses the number of
  processed messages to index the clock readings.
\<close>

record gateway_config =
  pull_endpoint :: string
  pub_endpoint :: string
  snapshot_interval_ms :: "64 word"
  replay_log_path :: string
  gw_engine_config :: engine_config
  inbound_queue_capacity :: "32 word"
  outbound_queue_capacity :: "32 word"
  replay_queue_capacity :: "32 word"

definition default_gateway_config :: gateway_config where
  "default_gateway_config = \<lparr> pull_endpoint = ''tcp://*:5555'', pub_endpoint = ''tcp://*:5556'',
     snapshot_interval_ms = 100, replay_log_path = ''logs/replay.ndjson'', gw_engine_config = default_config,
     inbound_queue_capacity = 65536, outbound_queue_capacity = 65536, replay_queue_capacity = 65536 \<rparr>"

datatype receiver = R_off | R_loop | R_push order_message | R_exit

text \<open>\<open>X_start\<close>: the exchange thread is running but has not yet set the time of its first snapshot.\<close>

datatype exchanger = X_off | X_start | X_loop | X_drain | X_exit

record gateway =
  gw_config :: gateway_config
  gw_exchange :: exchange
  gw_dispatcher :: dispatcher
  gw_replay :: replay_logger
  gw_running :: bool
  gw_inbound :: "(order_message, 32 word) ring"
  gw_inbound_drops :: "64 word"
  gw_next_snapshot :: int
  gw_receiver :: receiver
  gw_exchanger :: exchanger
  gw_accepted :: "order_message list"
  gw_processed :: "timed_message list"
  gw_events :: "exchange_event list"

definition new_gateway :: "gateway_config \<Rightarrow> gateway" where
  "new_gateway cfg = \<lparr> gw_config = cfg, gw_exchange = new_exchange (gw_engine_config cfg),
     gw_dispatcher = new_dispatcher (outbound_queue_capacity cfg),
     gw_replay = new_replay_logger (replay_log_path cfg) (replay_queue_capacity cfg), gw_running = False,
     gw_inbound = new_ring default_message (inbound_queue_capacity cfg), gw_inbound_drops = 0, gw_next_snapshot = 0,
     gw_receiver = R_off, gw_exchanger = X_off, gw_accepted = [], gw_processed = [], gw_events = [] \<rparr>"

definition gateway_start :: "bool \<Rightarrow> bool \<Rightarrow> gateway \<Rightarrow> string + gateway" where
  "gateway_start pull_ok pub_ok g =
     (if \<not> pull_ok then Inl (''Gateway: zmq_bind (PULL) failed on '' @ pull_endpoint (gw_config g))
      else bind_res (dispatcher_start pub_ok (pub_endpoint (gw_config g)) (gw_dispatcher g)) (\<lambda>d.
        Inr (g\<lparr> gw_replay := replay_start (gw_replay g), gw_dispatcher := d, gw_running := True,
          gw_exchanger := X_start, gw_receiver := R_loop \<rparr>)))"

section \<open>The inbound queue\<close>

definition inbound_push :: "order_message \<Rightarrow> gateway \<Rightarrow> fault + bool \<times> gateway" where
  "inbound_push msg g = bind_res (ring_push msg (gw_inbound g)) (\<lambda>(room, r).
     Inr (room, g\<lparr> gw_inbound := r, gw_inbound_drops := (if room then gw_inbound_drops g else gw_inbound_drops g + 1) \<rparr>))"

definition inbound_pop :: "gateway \<Rightarrow> fault + order_message option \<times> gateway" where
  "inbound_pop g = bind_res (ring_pop (gw_inbound g)) (\<lambda>(m, r). Inr (m, g\<lparr> gw_inbound := r \<rparr>))"

section \<open>The receiver\<close>

text \<open>The message one iteration of \<open>receiver_loop\<close> pushes, if any; \<open>None\<close> is an empty socket.\<close>

definition receive :: "'j json_lib \<Rightarrow> string option \<Rightarrow> exchange \<Rightarrow> order_message option" where
  "receive lib raw ex = (case raw of None \<Rightarrow> None | Some text \<Rightarrow>
     (case deserialize_order lib text of None \<Rightarrow> None
      | Some msg \<Rightarrow> if has_symbol (msg_symbol msg) ex then Some msg else None))"

section \<open>The exchange thread\<close>

text \<open>One \<open>inbound_pop\<close> of the loops of \<open>exchange_loop\<close> and, when it delivers a message, the body.\<close>

definition exchange_one :: "'j json_lib \<Rightarrow> timestamp \<Rightarrow> timestamp \<Rightarrow> gateway \<Rightarrow> fault + bool \<times> gateway" where
  "exchange_one lib now ts g = bind_res (inbound_pop g) (\<lambda>(m, g1). case m of
     None \<Rightarrow> Inr (False, g1)
   | Some msg \<Rightarrow>
       bind_res (process now ts msg (gw_exchange g1)) (\<lambda>(evs, ex).
       bind_res (replay_log_all lib evs (gw_replay g1)) (\<lambda>rl.
       bind_res (dispatcher_enqueue_all evs (gw_dispatcher g1)) (\<lambda>d.
       Inr (True, g1\<lparr> gw_exchange := ex, gw_replay := rl, gw_dispatcher := d,
         gw_processed := gw_processed g1 @ [(now, ts, msg)], gw_events := gw_events g1 @ evs \<rparr>)))))"

fun emit_snapshots :: "'j json_lib \<Rightarrow> snapshot_event list \<Rightarrow> gateway \<Rightarrow> fault + gateway" where
  "emit_snapshots lib [] g = Inr g"
| "emit_snapshots lib (sn # sns) g =
     bind_res (replay_log lib (Snapshot sn) (gw_replay g)) (\<lambda>rl.
     bind_res (dispatcher_enqueue (Snapshot sn) (gw_dispatcher g)) (\<lambda>d.
     emit_snapshots lib sns (g\<lparr> gw_replay := rl, gw_dispatcher := d, gw_events := gw_events g @ [Snapshot sn] \<rparr>)))"

text \<open>
  \<open>now + snap_interval\<close>: the unsigned interval becomes a signed number of milliseconds, which is scaled to
  nanoseconds and added to the clock reading.
\<close>

definition snapshot_time :: "int \<Rightarrow> 64 word \<Rightarrow> fault + int" where
  "snapshot_time now ms = (let ns = sint ms * 1000000
     in if int64_ok ns \<and> int64_ok (now + ns) then Inr (now + ns) else Inl Signed_overflow)"

text \<open>What \<open>exchange_loop\<close> does before its loop.\<close>

definition exchange_begin :: "int \<Rightarrow> gateway \<Rightarrow> fault + gateway" where
  "exchange_begin now g = bind_res (snapshot_time now (snapshot_interval_ms (gw_config g))) (\<lambda>next.
     Inr (g\<lparr> gw_next_snapshot := next, gw_exchanger := X_loop \<rparr>))"

definition snapshot_due :: "'j json_lib \<Rightarrow> (nat \<Rightarrow> timestamp) \<Rightarrow> int \<Rightarrow> gateway \<Rightarrow> fault + gateway" where
  "snapshot_due lib clock now g = (if gw_next_snapshot g \<le> now
     then bind_res (snapshot_all clock (gw_exchange g)) (\<lambda>snaps.
       bind_res (emit_snapshots lib snaps g) (\<lambda>g1.
       bind_res (snapshot_time now (snapshot_interval_ms (gw_config g))) (\<lambda>next.
       Inr (g1\<lparr> gw_next_snapshot := next \<rparr>))))
     else Inr g)"

text \<open>The final drain; \<open>clk k\<close> are the clock readings for the message processed after \<open>k\<close> others.\<close>

fun exchange_drain :: "nat \<Rightarrow> 'j json_lib \<Rightarrow> (nat \<Rightarrow> timestamp \<times> timestamp) \<Rightarrow> gateway \<Rightarrow> fault + gateway" where
  "exchange_drain 0 lib clk g = Inl Out_of_fuel"
| "exchange_drain (Suc n) lib clk g =
     bind_res (exchange_one lib (fst (clk (length (gw_processed g)))) (snd (clk (length (gw_processed g)))) g)
       (\<lambda>(more, g1). if more then exchange_drain n lib clk g1 else Inr g1)"

section \<open>Shutdown\<close>

definition gateway_finish :: "'j json_lib \<Rightarrow> gateway \<Rightarrow> fault + gateway" where
  "gateway_finish lib g = bind_res (dispatcher_stop lib (gw_dispatcher g)) (\<lambda>d.
     bind_res (replay_stop (gw_replay g)) (\<lambda>rl. Inr (g\<lparr> gw_dispatcher := d, gw_replay := rl \<rparr>)))"

text \<open>
  \<open>stop\<close> when the receiver is between two messages and the exchange thread in its loop: both leave their
  loops, the exchange thread makes its final drain, then the two outbound queues are stopped. The capacity of
  the ring is enough fuel.
\<close>

definition gateway_stop :: "'j json_lib \<Rightarrow> (nat \<Rightarrow> timestamp \<times> timestamp) \<Rightarrow> gateway \<Rightarrow> fault + gateway" where
  "gateway_stop lib clk g = (if gw_running g
     then bind_res (exchange_drain (ring_capacity (gw_inbound g)) lib clk
         (g\<lparr> gw_running := False, gw_receiver := R_exit, gw_exchanger := X_drain \<rparr>)) (\<lambda>g1.
       gateway_finish lib (g1\<lparr> gw_exchanger := X_exit \<rparr>))
     else Inr g)"

section \<open>All interleavings\<close>

inductive gw_step :: "'j json_lib \<Rightarrow> gateway \<Rightarrow> gateway \<Rightarrow> bool" for lib where
  r_recv: "gw_receiver g = R_loop \<Longrightarrow> gw_running g \<Longrightarrow> receive lib raw (gw_exchange g) = Some msg \<Longrightarrow>
     gw_step lib g (g\<lparr> gw_receiver := R_push msg \<rparr>)"
| r_push: "gw_receiver g = R_push msg \<Longrightarrow> inbound_push msg g = Inr (room, g1) \<Longrightarrow>
     gw_step lib g (g1\<lparr> gw_receiver := R_loop, gw_accepted := gw_accepted g @ (if room then [msg] else []) \<rparr>)"
| r_exit: "gw_receiver g = R_loop \<Longrightarrow> \<not> gw_running g \<Longrightarrow> gw_step lib g (g\<lparr> gw_receiver := R_exit \<rparr>)"
| x_begin: "gw_exchanger g = X_start \<Longrightarrow> exchange_begin now g = Inr g1 \<Longrightarrow> gw_step lib g g1"
| x_one: "gw_exchanger g = X_loop \<or> gw_exchanger g = X_drain \<Longrightarrow> exchange_one lib now ts g = Inr (found, g1) \<Longrightarrow>
     gw_step lib g g1"
| x_snap: "gw_exchanger g = X_loop \<Longrightarrow> snapshot_due lib clock t g = Inr g1 \<Longrightarrow> gw_step lib g g1"
| x_leave: "gw_exchanger g = X_loop \<Longrightarrow> \<not> gw_running g \<Longrightarrow> gw_step lib g (g\<lparr> gw_exchanger := X_drain \<rparr>)"
| x_exit: "gw_exchanger g = X_drain \<Longrightarrow> inbound_pop g = Inr (None, g1) \<Longrightarrow>
     gw_step lib g (g1\<lparr> gw_exchanger := X_exit \<rparr>)"
| p_one: "publish_one lib (gw_dispatcher g) = Inr (found, d) \<Longrightarrow> gw_step lib g (g\<lparr> gw_dispatcher := d \<rparr>)"
| w_one: "write_one (gw_replay g) = Inr (found, rl) \<Longrightarrow> gw_step lib g (g\<lparr> gw_replay := rl \<rparr>)"
| stop: "gw_step lib g (g\<lparr> gw_running := False \<rparr>)"
| join: "gw_receiver g = R_exit \<Longrightarrow> gw_exchanger g = X_exit \<Longrightarrow> gateway_finish lib g = Inr g1 \<Longrightarrow> gw_step lib g g1"

abbreviation gw_reach :: "'j json_lib \<Rightarrow> gateway \<Rightarrow> gateway \<Rightarrow> bool" where
  "gw_reach lib \<equiv> (gw_step lib)\<^sup>*\<^sup>*"

end
