(* ===== verification/Gateway_Properties.thy ===== *)
theory Gateway_Properties
  imports Gateway
begin

text \<open>
  The gateway under all interleavings of its four threads: what was accepted is processed in order, the
  exchange is the one the processed messages lead to, and both outbound streams carry the events in
  order, less the counted drops. Then shutdown.
\<close>

section \<open>The invariant\<close>

definition gw_inv :: "'j json_lib \<Rightarrow> gateway_config \<Rightarrow> gateway \<Rightarrow> bool" where
  "gw_inv lib cfg g \<longleftrightarrow> ring_ok (gw_inbound g) \<and> gw_accepted g = messages (gw_processed g) @ ring_list (gw_inbound g)
     \<and> (\<exists>evss. process_all (gw_processed g) (new_exchange (gw_engine_config cfg)) = Inr (evss, gw_exchange g)
          \<and> filter (\<lambda>e. \<not> is_snapshot e) (gw_events g) = concat evss)
     \<and> dispatcher_ok lib (gw_events g) (gw_dispatcher g) \<and> replay_ok lib (gw_events g) (gw_replay g)"

definition capacities_ok :: "gateway_config \<Rightarrow> bool" where
  "capacities_ok cfg \<longleftrightarrow> (\<exists>a<32. inbound_queue_capacity cfg = 2 ^ a) \<and> (\<exists>b<32. outbound_queue_capacity cfg = 2 ^ b)
     \<and> (\<exists>c<32. replay_queue_capacity cfg = 2 ^ c)"

lemma gw_inv_new:
  assumes "capacities_ok cfg"
  shows "gw_inv lib cfg (new_gateway cfg)"
proof -
  from assms obtain a b c where "a < 32" "inbound_queue_capacity cfg = 2 ^ a" "b < 32" "outbound_queue_capacity cfg = 2 ^ b"
    "c < 32" "replay_queue_capacity cfg = 2 ^ c" by (auto simp: capacities_ok_def)
  then show ?thesis
    by (auto simp: gw_inv_def new_gateway_def new_ring_ok dispatcher_ok_new replay_ok_new)
qed

lemma gw_inv_flags [simp]:
  "gw_inv lib cfg (g\<lparr> gw_receiver := rc \<rparr>) = gw_inv lib cfg g"
  "gw_inv lib cfg (g\<lparr> gw_exchanger := xc \<rparr>) = gw_inv lib cfg g"
  "gw_inv lib cfg (g\<lparr> gw_running := r \<rparr>) = gw_inv lib cfg g"
  "gw_inv lib cfg (g\<lparr> gw_next_snapshot := t \<rparr>) = gw_inv lib cfg g"
  "gw_inv lib cfg (g\<lparr> gw_receiver := rc, gw_accepted := acc \<rparr>) = gw_inv lib cfg (g\<lparr> gw_accepted := acc \<rparr>)"
  by (simp_all add: gw_inv_def)

lemma dispatcher_ok_running [simp]: "dispatcher_ok lib E (d\<lparr> dsp_running := b \<rparr>) = dispatcher_ok lib E d"
  by (simp add: dispatcher_ok_def)

lemma gw_inv_start:
  assumes "capacities_ok cfg" and "gateway_start True True (new_gateway cfg) = Inr g"
  shows "gw_inv lib cfg g"
  using gw_inv_new [OF assms(1), of lib] assms(2)
  by (auto simp: gateway_start_def dispatcher_start_def replay_start_def gw_inv_def replay_ok_def)

text \<open>The parts of the state each operation leaves alone.\<close>

definition same_control :: "gateway \<Rightarrow> gateway \<Rightarrow> bool" where
  "same_control g g1 \<longleftrightarrow> gw_running g1 = gw_running g \<and> gw_receiver g1 = gw_receiver g \<and> gw_exchanger g1 = gw_exchanger g
     \<and> dsp_running (gw_dispatcher g1) = dsp_running (gw_dispatcher g) \<and> rpl_running (gw_replay g1) = rpl_running (gw_replay g)
     \<and> gw_config g1 = gw_config g \<and> gw_accepted g1 = gw_accepted g"

lemma inbound_push_inv:
  assumes "gw_inv lib cfg g"
  shows "\<exists>room g1. inbound_push msg g = Inr (room, g1) \<and> same_control g g1 \<and>
    gw_inv lib cfg (g1\<lparr> gw_accepted := gw_accepted g @ (if room then [msg] else []) \<rparr>) \<and>
    ring_list (gw_inbound g1) = ring_list (gw_inbound g) @ (if room then [msg] else [])"
proof (cases "length (ring_list (gw_inbound g)) + 1 < ring_capacity (gw_inbound g)")
  case True
  have "ring_ok (gw_inbound g)" using assms by (simp add: gw_inv_def)
  from ring_push_room [OF this True, of msg] assms show ?thesis
    by (auto simp: inbound_push_def gw_inv_def same_control_def simp del: ring_list_length)
next
  case False
  have "ring_ok (gw_inbound g)" using assms by (simp add: gw_inv_def)
  from ring_push_full [OF this False, of msg] assms show ?thesis
    by (auto simp: inbound_push_def gw_inv_def same_control_def simp del: ring_list_length)
qed

text \<open>
  One message through the exchange thread: when \<open>process\<close> returns, the queues do too, and the processed
  message moves from the ring to the history.
\<close>

lemma exchange_one_none:
  assumes "gw_inv lib cfg g" and "ring_list (gw_inbound g) = []"
  shows "inbound_pop g = Inr (None, g)" and "exchange_one lib now ts g = Inr (False, g)"
  using ring_pop_none [of "gw_inbound g"] assms by (simp_all add: inbound_pop_def exchange_one_def gw_inv_def)

lemma exchange_one_some:
  assumes inv: "gw_inv lib cfg g" and ms: "ring_list (gw_inbound g) = msg # rest"
    and run: "process now ts msg (gw_exchange g) = Inr (evs, ex)"
  shows "\<exists>g1. exchange_one lib now ts g = Inr (True, g1) \<and> gw_inv lib cfg g1 \<and> same_control g g1 \<and>
    ring_list (gw_inbound g1) = rest \<and> ring_capacity (gw_inbound g1) = ring_capacity (gw_inbound g)"
proof -
  from ring_pop_some [OF _ ms] inv obtain r where r: "ring_pop (gw_inbound g) = Inr (Some msg, r)" "ring_ok r"
    "ring_list r = rest" "ring_capacity r = ring_capacity (gw_inbound g)" by (auto simp: gw_inv_def)
  from inv obtain evss where evss: "process_all (gw_processed g) (new_exchange (gw_engine_config cfg)) = Inr (evss, gw_exchange g)"
    "filter (\<lambda>e. \<not> is_snapshot e) (gw_events g) = concat evss" by (auto simp: gw_inv_def)
  from replay_log_all_ok [of lib "gw_events g" "gw_replay g" evs] inv obtain rl where
    rl: "replay_log_all lib evs (gw_replay g) = Inr rl" "replay_ok lib (gw_events g @ evs) rl" "rpl_running rl = rpl_running (gw_replay g)"
    by (auto simp: gw_inv_def)
  from dispatcher_enqueue_all_ok [of lib "gw_events g" "gw_dispatcher g" evs] inv obtain d where
    d: "dispatcher_enqueue_all evs (gw_dispatcher g) = Inr d" "dispatcher_ok lib (gw_events g @ evs) d"
      "dsp_running d = dsp_running (gw_dispatcher g)"
    by (auto simp: gw_inv_def)
  have "filter (\<lambda>e. \<not> is_snapshot e) evs = evs" using process_no_snapshot [OF run] by (simp add: filter_id_conv)
  then have "filter (\<lambda>e. \<not> is_snapshot e) (gw_events g @ evs) = concat (evss @ [evs])" using evss(2) by simp
  moreover have "process_all (gw_processed g @ [(now, ts, msg)]) (new_exchange (gw_engine_config cfg)) = Inr (evss @ [evs], ex)"
    using evss(1) run by (simp add: process_all_append)
  ultimately show ?thesis
    using r rl d run inv ms
    by (auto simp: exchange_one_def inbound_pop_def gw_inv_def same_control_def simp del: ring_list_length)
qed

lemma exchange_one_inv:
  assumes inv: "gw_inv lib cfg g" and run: "exchange_one lib now ts g = Inr (found, g1)"
  shows "gw_inv lib cfg g1 \<and> same_control g g1 \<and> ring_list (gw_inbound g1) = tl (ring_list (gw_inbound g))"
proof (cases "ring_list (gw_inbound g)")
  case Nil
  then show ?thesis using exchange_one_none [OF inv Nil] run inv by (simp add: same_control_def)
next
  case (Cons msg rest)
  from ring_pop_some [OF _ Cons] inv have "\<exists>r. ring_pop (gw_inbound g) = Inr (Some msg, r)" by (auto simp: gw_inv_def)
  then obtain evs ex where "process now ts msg (gw_exchange g) = Inr (evs, ex)"
    using run by (auto simp: exchange_one_def inbound_pop_def bind_res_Inr_iff)
  from exchange_one_some [OF inv Cons this] run Cons show ?thesis by auto
qed

lemma emit_snapshots_inv:
  "gw_inv lib cfg g \<Longrightarrow> \<exists>g1. emit_snapshots lib sns g = Inr g1 \<and> gw_inv lib cfg g1 \<and> same_control g g1
     \<and> gw_inbound g1 = gw_inbound g"
proof (induction sns arbitrary: g)
  case Nil
  then show ?case by (simp add: same_control_def)
next
  case (Cons sn sns)
  from replay_log_ok [of lib "gw_events g" "gw_replay g" "Snapshot sn"] Cons.prems obtain rl where
    rl: "replay_log lib (Snapshot sn) (gw_replay g) = Inr rl" "replay_ok lib (gw_events g @ [Snapshot sn]) rl"
      "rpl_running rl = rpl_running (gw_replay g)" by (auto simp: gw_inv_def)
  from dispatcher_enqueue_ok [of lib "gw_events g" "gw_dispatcher g" "Snapshot sn"] Cons.prems obtain d where
    d: "dispatcher_enqueue (Snapshot sn) (gw_dispatcher g) = Inr d" "dispatcher_ok lib (gw_events g @ [Snapshot sn]) d"
      "dsp_running d = dsp_running (gw_dispatcher g)" by (auto simp: gw_inv_def)
  let ?g = "g\<lparr> gw_replay := rl, gw_dispatcher := d, gw_events := gw_events g @ [Snapshot sn] \<rparr>"
  have "gw_inv lib cfg ?g" using Cons.prems rl(2) d(2) by (auto simp: gw_inv_def is_snapshot_def)
  from Cons.IH [OF this] rl(1,3) d(1,3) show ?case by (auto simp: same_control_def)
qed

lemma exchange_begin_inv:
  assumes "gw_inv lib cfg g" and "exchange_begin now g = Inr g1"
  shows "gw_inv lib cfg g1 \<and> same_control g (g1\<lparr> gw_exchanger := gw_exchanger g \<rparr>) \<and> gw_exchanger g1 = X_loop \<and>
    gw_inbound g1 = gw_inbound g"
  using assms by (auto simp: exchange_begin_def bind_res_Inr_iff same_control_def gw_inv_def)

lemma snapshot_due_inv:
  assumes "gw_inv lib cfg g" and "snapshot_due lib clock t g = Inr g1"
  shows "gw_inv lib cfg g1 \<and> same_control g g1 \<and> gw_inbound g1 = gw_inbound g"
proof (cases "gw_next_snapshot g \<le> t")
  case True
  with assms(2) obtain snaps g2 t1 where "emit_snapshots lib snaps g = Inr g2" "g1 = g2\<lparr> gw_next_snapshot := t1 \<rparr>"
    by (auto simp: snapshot_due_def bind_res_Inr_iff)
  then show ?thesis using emit_snapshots_inv [OF assms(1), of snaps] by (auto simp: same_control_def)
next
  case False
  then show ?thesis using assms by (simp add: snapshot_due_def same_control_def)
qed

lemma gateway_finish_inv:
  assumes inv: "gw_inv lib cfg g"
  shows "\<exists>g1. gateway_finish lib g = Inr g1 \<and> gw_inv lib cfg g1 \<and> gw_inbound g1 = gw_inbound g
    \<and> gw_processed g1 = gw_processed g \<and> gw_accepted g1 = gw_accepted g \<and> gw_events g1 = gw_events g
    \<and> gw_running g1 = gw_running g \<and> gw_receiver g1 = gw_receiver g \<and> gw_exchanger g1 = gw_exchanger g
    \<and> gw_exchange g1 = gw_exchange g
    \<and> (dsp_running (gw_dispatcher g) \<longrightarrow> ring_list (dsp_ring (gw_dispatcher g1)) = [])
    \<and> (rpl_running (gw_replay g) \<longrightarrow> ring_list (rpl_ring (gw_replay g1)) = [])"
proof -
  have ok: "dispatcher_ok lib (gw_events g) (gw_dispatcher g)" "replay_ok lib (gw_events g) (gw_replay g)"
    using inv by (simp_all add: gw_inv_def)
  from dispatcher_stop_ok [OF ok(1)] ok(1) obtain d where d: "dispatcher_stop lib (gw_dispatcher g) = Inr d"
    "dispatcher_ok lib (gw_events g) d" "dsp_running (gw_dispatcher g) \<longrightarrow> ring_list (dsp_ring d) = []"
    by (cases "dsp_running (gw_dispatcher g)") (auto simp: dispatcher_stop_def)
  from replay_stop_ok [OF ok(2)] ok(2) obtain rl where rl: "replay_stop (gw_replay g) = Inr rl"
    "replay_ok lib (gw_events g) rl" "rpl_running (gw_replay g) \<longrightarrow> ring_list (rpl_ring rl) = []"
    by (cases "rpl_running (gw_replay g)") (auto simp: replay_stop_def)
  show ?thesis using inv d rl by (simp add: gateway_finish_def gw_inv_def)
qed

section \<open>Every step keeps it\<close>

text \<open>
  The threads at shutdown: the outbound queues run as long as the gateway does; after the final drain the
  receiver can push at most the one message it already had in its hands.
\<close>

definition control_ok :: "gateway \<Rightarrow> bool" where
  "control_ok g \<longleftrightarrow> (gw_running g \<longrightarrow> dsp_running (gw_dispatcher g) \<and> rpl_running (gw_replay g))
     \<and> (gw_exchanger g = X_drain \<longrightarrow> \<not> gw_running g)
     \<and> (gw_exchanger g = X_exit \<longrightarrow> \<not> gw_running g \<and>
          length (ring_list (gw_inbound g)) \<le> (case gw_receiver g of R_push msg \<Rightarrow> 0 | _ \<Rightarrow> 1))"

lemma gw_step_inv:
  assumes "gw_step lib g g1" and inv: "gw_inv lib cfg g"
  shows "gw_inv lib cfg g1"
  using assms(1)
proof cases
  case (r_push msg room g2)
  then show ?thesis using inbound_push_inv [OF inv, of msg] by auto
next
  case (x_begin now)
  then show ?thesis using exchange_begin_inv [OF inv] by blast
next
  case (x_one now ts found)
  then show ?thesis using exchange_one_inv [OF inv] by blast
next
  case (x_snap clock t)
  then show ?thesis using snapshot_due_inv [OF inv] by blast
next
  case (x_exit g2)
  then have "ring_list (gw_inbound g) = []"
    using ring_pop_some [of "gw_inbound g"] inv
    by (cases "ring_list (gw_inbound g)") (auto simp: inbound_pop_def bind_res_Inr_iff gw_inv_def)
  then show ?thesis using x_exit exchange_one_none [OF inv] inv by simp
next
  case (p_one found d)
  then show ?thesis using publish_one_ok [of lib "gw_events g" "gw_dispatcher g"] inv by (auto simp: gw_inv_def)
next
  case (w_one found rl)
  then show ?thesis using write_one_ok [of lib "gw_events g" "gw_replay g"] inv by (auto simp: gw_inv_def)
next
  case join
  then show ?thesis using gateway_finish_inv [OF inv] by auto
qed (use inv in simp_all)

lemma gw_step_control:
  assumes "gw_step lib g g1" and inv: "gw_inv lib cfg g" and c: "control_ok g"
  shows "control_ok g1"
  using assms(1)
proof cases
  case (r_push msg room g2)
  then show ?thesis using inbound_push_inv [OF inv, of msg] c
    by (auto simp: control_ok_def same_control_def simp del: ring_list_length)
next
  case (x_begin now)
  then show ?thesis using exchange_begin_inv [OF inv x_begin(2)] c by (auto simp: control_ok_def same_control_def)
next
  case (x_one now ts found)
  then show ?thesis using exchange_one_inv [OF inv x_one(2)] c
    by (auto simp: control_ok_def same_control_def simp del: ring_list_length)
next
  case (x_snap clock t)
  then show ?thesis using snapshot_due_inv [OF inv x_snap(2)] c
    by (auto simp: control_ok_def same_control_def)
next
  case (x_exit g2)
  then have "ring_list (gw_inbound g) = []"
    using ring_pop_some [of "gw_inbound g"] inv
    by (cases "ring_list (gw_inbound g)") (auto simp: inbound_pop_def bind_res_Inr_iff gw_inv_def)
  then show ?thesis using x_exit exchange_one_none [OF inv] c
    by (auto simp: control_ok_def simp del: ring_list_length split: receiver.splits)
next
  case (p_one found d)
  then show ?thesis using publish_one_ok [of lib "gw_events g" "gw_dispatcher g"] inv c
    by (auto simp: gw_inv_def control_ok_def)
next
  case (w_one found rl)
  then show ?thesis using write_one_ok [of lib "gw_events g" "gw_replay g"] inv c by (auto simp: gw_inv_def control_ok_def)
next
  case join
  then show ?thesis using gateway_finish_inv [OF inv] c by (auto simp: control_ok_def)
qed (use c in \<open>auto simp: control_ok_def\<close>)

lemma gw_reach_inv:
  "gw_reach lib g g1 \<Longrightarrow> gw_inv lib cfg g \<Longrightarrow> control_ok g \<Longrightarrow> gw_inv lib cfg g1 \<and> control_ok g1"
  by (induction rule: rtranclp_induct) (auto intro: gw_step_inv gw_step_control)

lemma control_ok_start: "gateway_start True True (new_gateway cfg) = Inr g \<Longrightarrow> control_ok g \<and> gw_config g = cfg"
  by (auto simp: gateway_start_def dispatcher_start_def replay_start_def control_ok_def new_gateway_def)

lemmas gw_started = gw_reach_inv [OF _ gw_inv_start conjunct1 [OF control_ok_start]]

section \<open>The final drain\<close>

lemma inv_exchange_ok:
  assumes "gw_inv lib cfg g" and "orderly (\<lambda>_. {}) (gw_accepted g)"
  shows "exchange_ok (fold use_id (messages (gw_processed g)) (\<lambda>_. {})) (gw_exchange g)"
    and "ring_list (gw_inbound g) = msg # rest \<Longrightarrow> message_ok (fold use_id (messages (gw_processed g)) (\<lambda>_. {})) msg"
proof -
  have acc: "gw_accepted g = messages (gw_processed g) @ ring_list (gw_inbound g)"
    and run: "\<exists>evss. process_all (gw_processed g) (new_exchange (gw_engine_config cfg)) = Inr (evss, gw_exchange g)"
    using assms(1) by (auto simp: gw_inv_def)
  have ord: "orderly (\<lambda>_. {}) (messages (gw_processed g))" "orderly (fold use_id (messages (gw_processed g)) (\<lambda>_. {})) (ring_list (gw_inbound g))"
    using assms(2) acc by (simp_all add: orderly_append)
  show "exchange_ok (fold use_id (messages (gw_processed g)) (\<lambda>_. {})) (gw_exchange g)"
    using process_all_ok [OF exchange_ok_new ord(1), of "gw_engine_config cfg"] run by auto
  show "ring_list (gw_inbound g) = msg # rest \<Longrightarrow> message_ok (fold use_id (messages (gw_processed g)) (\<lambda>_. {})) msg"
    using ord(2) by simp
qed

lemma exchange_one_orderly:
  assumes inv: "gw_inv lib cfg g" and ord: "orderly (\<lambda>_. {}) (gw_accepted g)"
  shows "\<exists>g1. exchange_one lib now ts g = Inr (ring_list (gw_inbound g) \<noteq> [], g1) \<and> gw_inv lib cfg g1 \<and> same_control g g1
    \<and> ring_list (gw_inbound g1) = tl (ring_list (gw_inbound g))"
proof (cases "ring_list (gw_inbound g)")
  case Nil
  then show ?thesis using exchange_one_none [OF inv Nil] inv by (simp add: same_control_def)
next
  case (Cons msg rest)
  obtain evs ex where "process now ts msg (gw_exchange g) = Inr (evs, ex)"
    using process_ok [OF inv_exchange_ok(1) [OF inv ord] inv_exchange_ok(2) [OF inv ord Cons]] by blast
  from exchange_one_some [OF inv Cons this] Cons show ?thesis by auto
qed

interpretation inbound: drain_loop
    "\<lambda>g. exchange_one lib (fst (clk (length (gw_processed g)))) (snd (clk (length (gw_processed g)))) g"
    "\<lambda>g. length (ring_list (gw_inbound g))"
    "\<lambda>g. gw_inv lib cfg g \<and> orderly (\<lambda>_. {}) (gw_accepted g) \<and> same_control g0 g"
    "\<lambda>n. exchange_drain n lib clk" for lib clk cfg g0
proof (unfold_locales, goal_cases)
  case (2 g)
  then show ?case using exchange_one_orderly [of lib cfg g] by (fastforce simp: same_control_def simp del: ring_list_length)
qed simp

section \<open>Properties\<close>



text \<open>
  Shutdown from any point: once the receiver and the exchange thread have both left, at most one
  accepted message is unprocessed.
\<close>
theorem shutdown_loses_at_most_one:
  assumes "capacities_ok cfg" and "gateway_start True True (new_gateway cfg) = Inr g0" and "gw_reach lib g0 g"
    and "gw_receiver g = R_exit" and "gw_exchanger g = X_exit"
  shows "length (gw_accepted g) \<le> length (gw_processed g) + 1"
  using gw_started [OF assms(3,1,2,2)] assms(4,5) by (simp add: gw_inv_def control_ok_def)

section \<open>Snapshot intervals out of range\<close>

text \<open>
  The interval is an unsigned number of milliseconds on the command line and in the configuration. An interval of
  9223372036855 ms or a little more overflows when it is scaled to nanoseconds, before the exchange thread enters its
  loop; the largest interval counts as minus one millisecond, so that a snapshot of every instrument is due in each
  iteration.
\<close>
theorem snapshot_interval_limits:
  "exchange_begin now (new_gateway (default_gateway_config\<lparr> snapshot_interval_ms := 9223372036855 \<rparr>)) = Inl Signed_overflow \<and>
   (0 \<le> now \<and> now < 2 ^ 63 \<longrightarrow> snapshot_time now (- 1) = Inr (now - 1000000))"
proof -
  have "sint (9223372036855 :: 64 word) = 9223372036855" by simp
  then show ?thesis
    by (auto simp: exchange_begin_def new_gateway_def snapshot_time_def Let_def int64_ok_def)
qed

section \<open>A run that loses a message\<close>

definition ex_gw_config :: gateway_config where
  "ex_gw_config = default_gateway_config\<lparr> inbound_queue_capacity := 2, outbound_queue_capacity := 4, replay_queue_capacity := 4 \<rparr>"

lemma ex_capacities: "capacities_ok ex_gw_config"
proof -
  have "\<exists>a<32. (2 :: 32 word) = 2 ^ a" by (rule exI [of _ 1]) simp
  moreover have "\<exists>a<32. (4 :: 32 word) = 2 ^ a" by (rule exI [of _ 2]) simp
  ultimately show ?thesis by (simp add: capacities_ok_def ex_gw_config_def)
qed

definition ex_gw :: gateway where
  "ex_gw = (case gateway_start True True (new_gateway ex_gw_config) of Inl e \<Rightarrow> new_gateway ex_gw_config | Inr g \<Rightarrow> g)"

lemma ex_gw_started: "gateway_start True True (new_gateway ex_gw_config) = Inr ex_gw"
  by (simp add: ex_gw_def gateway_start_def dispatcher_start_def)

definition ex_in :: order_message where
  "ex_in = (case deserialize_order ex_lib ex_text of None \<Rightarrow> default_message | Some msg \<Rightarrow> msg)"

lemma ex_gw_fields:
  "gw_receiver ex_gw = R_loop" "gw_exchanger ex_gw = X_start" "gw_running ex_gw" "gw_accepted ex_gw = []" "gw_processed ex_gw = []"
  "gw_config ex_gw = ex_gw_config" "gw_inbound ex_gw = new_ring default_message (2 ^ 1)" "gw_exchange ex_gw = new_exchange default_config" "gw_inbound_drops ex_gw = 0"
  by (simp_all add: ex_gw_def gateway_start_def dispatcher_start_def new_gateway_def ex_gw_config_def default_gateway_config_def)

lemma ex_receive: "receive ex_lib (Some ex_text) (gw_exchange ex_gw) = Some ex_in"
proof -
  have "receive ex_lib (Some ex_text) (new_exchange default_config) = Some ex_in" by code_simp
  then show ?thesis by (simp add: ex_gw_fields)
qed

text \<open>The exchange thread in its loop.\<close>

definition ex_loop :: gateway where
  "ex_loop = ex_gw\<lparr> gw_next_snapshot := 100000000, gw_exchanger := X_loop \<rparr>"

lemma ex_loop_fields:
  "gw_receiver ex_loop = R_loop" "gw_exchanger ex_loop = X_loop" "gw_running ex_loop" "gw_accepted ex_loop = []" "gw_processed ex_loop = []"
  "gw_inbound ex_loop = new_ring default_message (2 ^ 1)" "gw_exchange ex_loop = gw_exchange ex_gw" "gw_inbound_drops ex_loop = 0"
  by (simp_all add: ex_loop_def ex_gw_fields)

lemma ex_begin: "gw_step ex_lib ex_gw ex_loop"
proof -
  have "snapshot_interval_ms ex_gw_config = 100" by (simp add: ex_gw_config_def default_gateway_config_def)
  then have "exchange_begin 0 ex_gw = Inr ex_loop"
    by (simp add: exchange_begin_def snapshot_time_def ex_gw_fields ex_loop_def int64_ok_def)
  then show ?thesis by (rule x_begin [OF ex_gw_fields(2)])
qed

text \<open>
  The receiver has taken a message from the socket; \<open>stop\<close> clears the flag; the exchange thread sees it,
  finds the queue empty and leaves; only then the receiver pushes the message and leaves, too.
\<close>

lemma ex_lost:
  "\<exists>g. gw_reach ex_lib ex_gw g \<and> gw_receiver g = R_exit \<and> gw_exchanger g = X_exit \<and>
     gw_accepted g = [ex_in] \<and> gw_processed g = [] \<and> gw_inbound_drops g = 0"
proof -
  note rg = new_ring_ok [of 1 default_message, where 'w = 32]
  let ?g1 = "ex_loop\<lparr> gw_receiver := R_push ex_in \<rparr>"
  let ?g2 = "?g1\<lparr> gw_running := False \<rparr>"
  let ?g3 = "?g2\<lparr> gw_exchanger := X_drain \<rparr>"
  let ?g4 = "?g3\<lparr> gw_exchanger := X_exit \<rparr>"
  obtain r where r: "ring_push ex_in (gw_inbound ex_loop) = Inr (True, r)"
    using ring_push_room [of "gw_inbound ex_loop" ex_in] rg by (auto simp: ex_loop_fields simp del: ring_list_length)
  let ?g5 = "?g4\<lparr> gw_inbound := r, gw_receiver := R_loop, gw_accepted := [ex_in] \<rparr>"
  let ?g6 = "?g5\<lparr> gw_receiver := R_exit \<rparr>"
  note ex_begin
  moreover have "gw_step ex_lib ex_loop ?g1" by (rule r_recv [OF _ _ ex_receive [folded ex_loop_fields(7)]]) (simp_all add: ex_loop_fields)
  moreover have "gw_step ex_lib ?g1 ?g2" by (rule gw_step.stop)
  moreover have "gw_step ex_lib ?g2 ?g3" by (rule x_leave) (simp_all add: ex_loop_fields)
  moreover have "gw_step ex_lib ?g3 ?g4"
    using x_exit [of ?g3 ?g3 ex_lib] ring_pop_none [OF rg(1)] rg(2) by (simp add: inbound_pop_def ex_loop_fields)
  moreover have "gw_step ex_lib ?g4 ?g5"
    using gw_step.r_push [of ?g4 ex_in True "?g4\<lparr> gw_inbound := r \<rparr>" ex_lib] r by (simp add: inbound_push_def ex_loop_fields)
  moreover have "gw_step ex_lib ?g5 ?g6" using r_exit [of ?g5 ex_lib] by simp
  ultimately have "gw_reach ex_lib ex_gw ?g6"
    by (meson converse_rtranclp_into_rtranclp rtranclp.rtrancl_refl)
  then show ?thesis by (rule exI [of _ ?g6, OF conjI]) (simp add: ex_loop_fields)
qed

text \<open>
  The final drain can miss a message: there is a run in which both threads have left, a message was
  received before the flag was cleared and accepted by the inbound queue, yet it is never processed and no drop
  is counted.
\<close>
theorem late_message_lost:
  "\<exists>g0 g. gateway_start True True (new_gateway ex_gw_config) = Inr g0 \<and> gw_reach ex_lib g0 g \<and>
     gw_receiver g = R_exit \<and> gw_exchanger g = X_exit \<and> gw_accepted g = [ex_in] \<and> gw_processed g = [] \<and> gw_inbound_drops g = 0"
  using ex_gw_started ex_lost by blast


theorem shutdown_loses_at_most_one_witness:
  "\<exists>g. gw_reach ex_lib ex_gw g \<and> length (gw_accepted g) = 1 \<and> length (gw_accepted g) \<le> length (gw_processed g) + 1"
proof -
  from ex_lost obtain g where g: "gw_reach ex_lib ex_gw g" "gw_receiver g = R_exit" "gw_exchanger g = X_exit" "gw_accepted g = [ex_in]"
    by blast
  from shutdown_loses_at_most_one [OF ex_capacities ex_gw_started g(1-3)] g show ?thesis by auto
qed

text \<open>A gateway that has received a message and waits.\<close>

lemma ex_waiting:
  "\<exists>g. gw_reach ex_lib ex_gw g \<and> gw_running g \<and> gw_receiver g = R_loop \<and> gw_exchanger g = X_loop \<and> gw_accepted g = [ex_in]"
proof -
  note rg = new_ring_ok [of 1 default_message, where 'w = 32]
  let ?g1 = "ex_loop\<lparr> gw_receiver := R_push ex_in \<rparr>"
  obtain r where r: "ring_push ex_in (gw_inbound ex_loop) = Inr (True, r)"
    using ring_push_room [of "gw_inbound ex_loop" ex_in] rg by (auto simp: ex_loop_fields simp del: ring_list_length)
  let ?g2 = "?g1\<lparr> gw_inbound := r, gw_receiver := R_loop, gw_accepted := [ex_in] \<rparr>"
  note ex_begin
  moreover have "gw_step ex_lib ex_loop ?g1" by (rule r_recv [OF _ _ ex_receive [folded ex_loop_fields(7)]]) (simp_all add: ex_loop_fields)
  moreover have "gw_step ex_lib ?g1 ?g2"
    using gw_step.r_push [of ?g1 ex_in True "?g1\<lparr> gw_inbound := r \<rparr>" ex_lib] r by (simp add: inbound_push_def ex_loop_fields)
  ultimately have "gw_reach ex_lib ex_gw ?g2"
    by (meson converse_rtranclp_into_rtranclp rtranclp.rtrancl_refl)
  then show ?thesis by (rule exI [of _ ?g2, OF conjI]) (simp add: ex_loop_fields)
qed


end
