(* ===== verification/Text_Input.thy ===== *)
theory Text_Input
  imports Text_Format
begin

text \<open>
  Reading text, as the readers of the repository do with the standard library: lines and fields by
  \<open>std::getline\<close>, numbers by \<open>std::stoull\<close> and \<open>std::stoll\<close>.
\<close>

section \<open>Lines and fields\<close>

text \<open>
  \<open>std::getline\<close> with a delimiter: fails at the end of the stream, otherwise takes everything up to the next
  delimiter and removes the delimiter. So a delimiter at the very end does not start another token.
\<close>

definition getline :: "char \<Rightarrow> string \<Rightarrow> (string \<times> string) option" where
  "getline d s = (if s = [] then None else Some (takeWhile (\<lambda>c. c \<noteq> d) s, tl (dropWhile (\<lambda>c. c \<noteq> d) s)))"

lemma getline_shrinks: "getline d s = Some (x, rest) \<Longrightarrow> length rest < length s"
  using length_dropWhile_le [of "\<lambda>c. c \<noteq> d" s] by (cases s) (auto simp: getline_def split: if_splits)

function split_on :: "char \<Rightarrow> string \<Rightarrow> string list" where
  "split_on d s = (case getline d s of None \<Rightarrow> [] | Some (x, rest) \<Rightarrow> x # split_on d rest)"
  by pat_completeness auto
termination
  by (relation "measure (\<lambda>(d, s). length s)") (auto dest: getline_shrinks)

declare split_on.simps [simp del]

lemma split_on_Nil [simp]: "split_on d [] = []"
  by (simp add: split_on.simps [of d "[]"] getline_def)

lemma split_on_token:
  assumes "d \<notin> set x"
  shows "split_on d (x @ d # s) = x # split_on d s" and "x \<noteq> [] \<Longrightarrow> split_on d x = [x]"
proof -
  have x: "\<forall>c\<in>set x. c \<noteq> d" using assms by auto
  then have "getline d (x @ d # s) = Some (x, s)" by (simp add: getline_def takeWhile_append2 dropWhile_append2)
  then show "split_on d (x @ d # s) = x # split_on d s" by (simp add: split_on.simps [of d "x @ d # s"])
  have "takeWhile (\<lambda>c. c \<noteq> d) x = x" "dropWhile (\<lambda>c. c \<noteq> d) x = []"
    using x by (simp_all add: takeWhile_eq_all_conv dropWhile_eq_Nil_conv)
  then have "x \<noteq> [] \<Longrightarrow> getline d x = Some (x, [])" by (simp only: getline_def if_False list.sel)
  then show "x \<noteq> [] \<Longrightarrow> split_on d x = [x]" by (simp add: split_on.simps [of d x])
qed

text \<open>Fields joined by a delimiter; the last one must not be empty.\<close>

fun join_with :: "char \<Rightarrow> string list \<Rightarrow> string" where
  "join_with d [] = []"
| "join_with d [x] = x"
| "join_with d (x # y # xs) = x @ d # join_with d (y # xs)"

lemma split_join:
  "xs \<noteq> [] \<Longrightarrow> last xs \<noteq> [] \<Longrightarrow> list_all (\<lambda>x. d \<notin> set x) xs \<Longrightarrow> split_on d (join_with d xs) = xs"
  by (induction d xs rule: join_with.induct) (auto simp: split_on_token)

section \<open>Reading numbers\<close>

text \<open>
  \<open>std::stoull\<close> and \<open>std::stoll\<close>: leading white space, an optional sign, as many digits as there are (anything
  may follow), an exception without digits or out of range. \<open>stoull\<close> accepts a minus sign and negates
  modulo \<open>2 ^ 64\<close>.
\<close>

datatype number_error = Invalid_argument | Out_of_range

definition is_space :: "char \<Rightarrow> bool" where
  "is_space c \<longleftrightarrow> (let k = of_char c :: nat in k = 32 \<or> 9 \<le> k \<and> k \<le> 13)"

definition sign_split :: "string \<Rightarrow> bool \<times> string" where
  "sign_split s = (case s of [] \<Rightarrow> (False, s)
     | c # r \<Rightarrow> if c = CHR ''-'' then (True, r) else if c = CHR ''+'' then (False, r) else (False, s))"

definition scan_number :: "string \<Rightarrow> (bool \<times> nat) option" where
  "scan_number s = (let (neg, r) = sign_split (dropWhile is_space s); ds = takeWhile is_digit r in
     if ds = [] then None else Some (neg, read_digits ds))"

definition stoull :: "string \<Rightarrow> number_error + 64 word" where
  "stoull s = (case scan_number s of None \<Rightarrow> Inl Invalid_argument
     | Some (neg, v) \<Rightarrow> if 2 ^ 64 \<le> v then Inl Out_of_range else Inr (if neg then - of_nat v else of_nat v))"

definition stoll :: "string \<Rightarrow> number_error + int" where
  "stoll s = (case scan_number s of None \<Rightarrow> Inl Invalid_argument
     | Some (neg, v) \<Rightarrow> let i = (if neg then - int v else int v) in
         if int64_ok i then Inr i else Inl Out_of_range)"

lemma digit_facts: "is_digit c \<Longrightarrow> \<not> is_space c \<and> c \<noteq> CHR ''-'' \<and> c \<noteq> CHR ''+'' \<and> c \<noteq> CHR '',''"
  by (auto simp: is_digit_def is_space_def Let_def)

lemma take_show_nat [simp]: "takeWhile is_digit (show_nat n) = show_nat n"
  by (rule takeWhile_eq_all_conv [THEN iffD2]) (simp add: show_nat_digits)

lemma scan_show_nat: "scan_number (show_nat n) = Some (False, n)"
proof -
  obtain c r where c: "show_nat n = c # r" using show_nat_nonempty [of n] by (metis list.exhaust)
  then have "is_digit c" using show_nat_digits [of c n] by simp
  then have "dropWhile is_space (show_nat n) = show_nat n" "sign_split (show_nat n) = (False, show_nat n)"
    using digit_facts [of c] c by (simp_all add: sign_split_def)
  then show ?thesis by (simp add: scan_number_def Let_def show_nat_nonempty)
qed

lemma scan_minus_nat: "scan_number (CHR ''-'' # show_nat n) = Some (True, n)"
  by (simp add: scan_number_def sign_split_def is_space_def Let_def show_nat_nonempty)

lemma stoull_show [simp]: "stoull (show_nat (unat w)) = Inr w"
proof -
  have "unat w < 2 ^ 64" using unsigned_less [of w, where ?'a = nat] by simp
  then show ?thesis by (simp add: stoull_def scan_show_nat)
qed

lemma stoll_show: "int64_ok i \<Longrightarrow> stoll (show_int i) = Inr i"
  by (auto simp: stoll_def show_int_def scan_show_nat scan_minus_nat Let_def)

end
