(* ===== verification/Exchange_Startup.thy ===== *)
theory Exchange_Startup
  imports Gateway_Properties Text_Input
begin

text \<open>
  The arguments of the exchange program and the start of its gateway (\<^verbatim>\<open>src/exchange_main.cpp\<close>); its run is in
  \<^verbatim>\<open>Exchange_Program\<close>. Arguments come without the program name. An exception of \<open>std::stoull\<close> leaves \<open>main\<close>.
\<close>

section \<open>The exchange program\<close>

datatype exchange_cmd = Run_exchange gateway_config | Help | Unknown_argument string | Throws number_error

fun exchange_args :: "string list \<Rightarrow> gateway_config \<Rightarrow> exchange_cmd" where
  "exchange_args [] cfg = Run_exchange cfg"
| "exchange_args [a] cfg = (if a = ''--help'' \<or> a = ''-h'' then Help else Unknown_argument a)"
| "exchange_args (a # v # args) cfg =
     (if a = ''--pull'' then exchange_args args (cfg\<lparr> pull_endpoint := v \<rparr>)
      else if a = ''--pub'' then exchange_args args (cfg\<lparr> pub_endpoint := v \<rparr>)
      else if a = ''--snapshot-interval'' then
        (case stoull v of Inl e \<Rightarrow> Throws e | Inr ms \<Rightarrow> exchange_args args (cfg\<lparr> snapshot_interval_ms := ms \<rparr>))
      else if a = ''--log-path'' then exchange_args args (cfg\<lparr> replay_log_path := v \<rparr>)
      else if a = ''--help'' \<or> a = ''-h'' then Help
      else Unknown_argument a)"

text \<open>Up to the loop that waits for a signal; \<open>None\<close> when the arguments end the program.\<close>

definition exchange_boot :: "bool \<Rightarrow> bool \<Rightarrow> string list \<Rightarrow> (string + gateway) option" where
  "exchange_boot pull_ok pub_ok args = (case exchange_args args default_gateway_config of
     Run_exchange cfg \<Rightarrow> Some (gateway_start pull_ok pub_ok (new_gateway cfg))
   | Help \<Rightarrow> None
   | Unknown_argument a \<Rightarrow> None
   | Throws e \<Rightarrow> None)"

section \<open>The inbound queue of the program\<close>

lemma exchange_args_keep:
  "exchange_args args cfg = Run_exchange cfg1 \<Longrightarrow> inbound_queue_capacity cfg1 = inbound_queue_capacity cfg \<and>
     outbound_queue_capacity cfg1 = outbound_queue_capacity cfg \<and> replay_queue_capacity cfg1 = replay_queue_capacity cfg"
  by (induction args cfg rule: exchange_args.induct) (auto split: if_splits sum.splits)

lemma exchange_capacities:
  assumes "exchange_args args default_gateway_config = Run_exchange cfg"
  shows "inbound_queue_capacity cfg = 2 ^ 16" and "capacities_ok cfg"
proof -
  have "inbound_queue_capacity cfg = 2 ^ 16" "outbound_queue_capacity cfg = 2 ^ 16" "replay_queue_capacity cfg = 2 ^ 16"
    using exchange_args_keep [OF assms] by (simp_all add: default_gateway_config_def)
  then show "inbound_queue_capacity cfg = 2 ^ 16" "capacities_ok cfg"
    unfolding capacities_ok_def by (simp, intro conjI exI [of _ "16 :: nat"]) simp_all
qed

lemma ring_lengths:
  "ring_push x r = Inr (room, r1) \<Longrightarrow> length (ring_buffer r1) = length (ring_buffer r)"
  "ring_pop r = Inr (m, r1) \<Longrightarrow> length (ring_buffer r1) = length (ring_buffer r)"
  by (auto simp: ring_push_def ring_pop_def Let_def split: if_splits)

definition inbound_length :: "gateway \<Rightarrow> nat" where
  "inbound_length g = length (ring_buffer (gw_inbound g))"

lemma inbound_calls:
  "inbound_push msg g = Inr (room, g1) \<Longrightarrow> inbound_length g1 = inbound_length g"
  "inbound_pop g = Inr (m, g1) \<Longrightarrow> inbound_length g1 = inbound_length g"
  by (auto simp: inbound_push_def inbound_pop_def inbound_length_def bind_res_Inr_iff dest: ring_lengths)

lemma exchange_calls:
  "exchange_one lib now ts g = Inr (found, g1) \<Longrightarrow> inbound_length g1 = inbound_length g"
  "emit_snapshots lib sns g = Inr g1 \<Longrightarrow> inbound_length g1 = inbound_length g"
proof -
  show "inbound_length g1 = inbound_length g" if "exchange_one lib now ts g = Inr (found, g1)"
    using that inbound_calls(2) [of g]
    by (fastforce simp: exchange_one_def bind_res_Inr_iff inbound_length_def split: option.splits)
  show "emit_snapshots lib sns g = Inr g1 \<Longrightarrow> inbound_length g1 = inbound_length g"
    by (induction lib sns g rule: emit_snapshots.induct) (auto simp: bind_res_Inr_iff inbound_length_def)
qed

lemma step_inbound: "gw_step lib g g1 \<Longrightarrow> inbound_length g1 = inbound_length g"
proof (induction rule: gw_step.induct)
  case (x_begin g now g1)
  then show ?case by (auto simp: exchange_begin_def bind_res_Inr_iff inbound_length_def)
next
  case (x_snap g clock t g1)
  then show ?case
    using exchange_calls(2) by (fastforce simp: snapshot_due_def bind_res_Inr_iff inbound_length_def split: if_splits)
next
  case (join g g1)
  then show ?case by (auto simp: gateway_finish_def bind_res_Inr_iff inbound_length_def)
qed (use inbound_calls exchange_calls(1) in \<open>auto simp: inbound_length_def\<close>)

lemma waiting_bound:
  assumes cfg: "exchange_args args default_gateway_config = Run_exchange cfg"
    and st: "gateway_start True True (new_gateway cfg) = Inr g0" and reach: "gw_reach lib g0 g"
  shows "length (gw_accepted g) \<le> length (gw_processed g) + 65535"
proof -
  note caps = exchange_capacities(1) [OF cfg] and ok = exchange_capacities(2) [OF cfg]
  note inv = gw_started [OF reach ok st st]
  have "inbound_length g = inbound_length g0" using reach by (induction rule: rtranclp_induct) (simp_all add: step_inbound)
  also have "\<dots> = 65536"
    using st caps by (auto simp: gateway_start_def new_gateway_def new_ring_def inbound_length_def bind_res_Inr_iff)
  finally have "length (ring_list (gw_inbound g)) < 65536"
    using ring_list_less [of "gw_inbound g"] inv by (simp add: gw_inv_def inbound_length_def ring_capacity_def)
  then show ?thesis using inv by (simp add: gw_inv_def)
qed

text \<open>
  Whatever the arguments of the exchange program, at any time at most 65535 messages that the inbound queue has
  accepted wait to be processed.
\<close>
theorem exchange_backlog:
  assumes "exchange_boot True True args = Some (Inr g0)" and "gw_reach lib g0 g"
  shows "length (gw_accepted g) \<le> length (gw_processed g) + 65535"
  using assms waiting_bound [of args _ g0 lib g] by (auto simp: exchange_boot_def split: exchange_cmd.splits)

theorem exchange_backlog_witness:
  "\<exists>g0. exchange_boot True True [''--snapshot-interval'', ''250'', ''--log-path'', ''x.ndjson''] = Some (Inr g0) \<and>
     length (gw_accepted g0) \<le> length (gw_processed g0) + 65535"
proof -
  have "scan_number ''250'' = Some (False, 250)" by code_simp
  then have "stoull ''250'' = Inr 250" by (simp add: stoull_def)
  then have "\<exists>g0. exchange_boot True True [''--snapshot-interval'', ''250'', ''--log-path'', ''x.ndjson''] = Some (Inr g0)"
    by (simp add: exchange_boot_def gateway_start_def dispatcher_start_def)
  then show ?thesis using exchange_backlog [OF _ rtranclp.rtrancl_refl] by blast
qed

end
