(* ===== verification/Price_Time.thy ===== *)
theory Price_Time
  imports Engine_Properties
begin

text \<open>
  Price-time priority as a refinement. \<open>depth sd b\<close> is what a trader sees of one side of the book: the
  orders of each price in order of arrival, best price first. \<open>sweep\<close> is the textbook matching
  algorithm on it: always the first order of the first price, until the aggressor is filled or the
  price is beyond its limit; an iceberg that shows a new peak goes to the end of its price. With no
  stop order pending, the engine's loops compute exactly \<open>sweep\<close>.
\<close>

section \<open>The depth of a side\<close>

definition queues :: "side \<Rightarrow> order_book \<Rightarrow> (price \<times> order_id list) list" where
  "queues sd b = map (\<lambda>(p, l). (p, live_ids l)) (side_levels sd b)"

definition depth :: "side \<Rightarrow> order_book \<Rightarrow> order list list" where
  "depth sd b = map (\<lambda>(p, ids). map (\<lambda>i. the (fmlookup (id_map b) i)) ids) (queues sd b)"

definition front_after :: "order \<Rightarrow> quantity \<Rightarrow> order list \<Rightarrow> order list" where
  "front_after p q ps = (case passive_after p q of
     None \<Rightarrow> ps
   | Some p1 \<Rightarrow> if replenishes p q then ps @ [p1] else p1 # ps)"

definition out_of_reach :: "order \<Rightarrow> order \<Rightarrow> bool" where
  "out_of_reach a p \<longleftrightarrow> ord_type a \<noteq> Market \<and> \<not> within_limit (ord_side a) (ord_price a) (ord_price p)"

lemma front_after_weight:
  assumes "ord_quantity a \<noteq> 0"
  shows "sum_list (map order_weight (front_after p (min (ord_quantity a) (ord_quantity p)) ps))
    < order_weight p + sum_list (map order_weight ps)"
proof (cases "passive_after p (min (ord_quantity a) (ord_quantity p))")
  case None
  then show ?thesis by (simp add: front_after_def order_weight_def)
next
  case (Some p1)
  have "order_weight p1 < order_weight p"
    using passive_after_weight [OF Some] assms by (auto simp: min_def)
  then show ?thesis using Some by (simp add: front_after_def)
qed

function sweep :: "order \<Rightarrow> order list list \<Rightarrow> trade list \<times> order \<times> order list list" where
  "sweep a [] = ([], a, [])"
| "sweep a ([] # d) = sweep a d"
| "sweep a ((p # ps) # d) =
     (if ord_quantity a = 0 \<or> out_of_reach a p then ([], a, (p # ps) # d)
      else let q = min (ord_quantity a) (ord_quantity p);
               (ts, a1, d1) = sweep (a\<lparr> ord_quantity := ord_quantity a - q \<rparr>) (front_after p q ps # d)
           in (fill_trade a p q # ts, a1, d1))"
  by pat_completeness auto

termination
  by (relation "measure (\<lambda>(a, d). sum_list (map order_weight (concat d)) + length d)")
     (auto simp: front_after_weight)

section \<open>Sorted association lists\<close>

context price_order begin

lemma sorted_map_unique:
  "sorted_wrt lt (map fst m) \<Longrightarrow> sorted_wrt lt (map fst n) \<Longrightarrow> map_of m = map_of n \<Longrightarrow> m = n"
proof (induction m arbitrary: n)
  case Nil
  then show ?case by (cases n) (auto simp: fun_eq_iff split: if_splits)
next
  case (Cons e m)
  obtain k v where e: "e = (k, v)" by fastforce
  have "map_of n k = Some v" using Cons.prems(3) e by (metis map_of_Cons_code(2))
  then obtain k1 v1 n1 where n: "n = (k1, v1) # n1" by (cases n) auto
  have dm: "distinct (map fst (e # m))" and dn: "distinct (map fst n)"
    using Cons.prems sorted_distinct by blast+
  have "k \<in> fst ` set n" using \<open>map_of n k = Some v\<close> by (metis map_of_eq_None_iff option.distinct(1))
  moreover have "map_of (e # m) k1 = Some v1" using fun_cong [OF Cons.prems(3), of k1] n by simp
  then have "k1 \<in> fst ` set (e # m)" by (metis map_of_eq_None_iff option.distinct(1))
  ultimately have kk: "k = k1"
    using Cons.prems(1,2) e n trans [of k k1 k] irrefl [of k] by (cases "k = k1") auto
  then have "v = v1" using \<open>map_of n k = Some v\<close> n by simp
  have none: "map_of m k = None" "map_of n1 k = None"
    using dm dn e n kk by (simp_all add: map_of_eq_None_iff)
  have "map_of m x = map_of n1 x" for x
    using fun_cong [OF Cons.prems(3), of x] none e n kk by (cases "x = k") simp_all
  then have "map_of m = map_of n1" by blast
  then show ?case using Cons.IH [of n1] Cons.prems(1,2) e n kk \<open>v = v1\<close> by simp
qed

end

lemma sd_unique:
  "sorted_wrt (better sd) (map fst m) \<Longrightarrow> sorted_wrt (better sd) (map fst n) \<Longrightarrow> map_of m = map_of n \<Longrightarrow> m = n"
  using bid_side.sorted_map_unique ask_side.sorted_map_unique by (cases sd) (simp_all add: better_Buy better_Sell)

lemma queues_sorted: "book_ok b \<Longrightarrow> sorted_wrt (better sd) (map fst (queues sd b))"
  using book_ok_levels [of b sd] by (simp add: queues_def levels_ok_def comp_def case_prod_unfold)

lemma queues_map_of:
  assumes "book_ok b"
  shows "map_of (queues sd b) p = (if queue_of b sd p = [] then None else Some (queue_of b sd p))"
proof -
  have "map_of (queues sd b) p = map_option live_ids (map_of (side_levels sd b) p)"
    by (simp add: queues_def map_of_map)
  then show ?thesis
    using levels_okD [OF book_ok_levels [OF assms], of sd p]
    by (auto simp: queue_of_def queue_at_def level_wf_def split: option.split)
qed

lemma queues_eqI:
  assumes "book_ok b" and "sorted_wrt (better sd) (map fst m)"
    and "\<And>p. map_of m p = (if queue_of b sd p = [] then None else Some (queue_of b sd p))"
  shows "queues sd b = m"
  using sd_unique [OF queues_sorted [OF assms(1)] assms(2)] assms(3) queues_map_of [OF assms(1)]
  by (simp add: fun_eq_iff)

section \<open>A fill on the depth\<close>

lemma map_of_cons_queue:
  "map_of ((p0, v) # m) p = (if p = p0 then Some v else map_of m p)"
  by simp

lemma queues_mem:
  assumes "book_ok b" and "(pr, x) \<in> set (queues sd b)"
  shows "x = queue_of b sd pr"
proof -
  have "distinct (map fst (queues sd b))"
    using queues_sorted [OF assms(1), of sd] bid_side.sorted_distinct ask_side.sorted_distinct
    by (cases sd) (simp_all add: better_Buy better_Sell)
  then have "map_of (queues sd b) pr = Some x" using assms(2) by simp
  then show ?thesis using queues_map_of [OF assms(1), of sd pr] by (auto split: if_splits)
qed

lemma queued_once:
  assumes "book_ok b" and "fmlookup (id_map b) i = Some p" and "(pr, x) \<in> set (queues sd b)" and "i \<in> set x"
  shows "sd = ord_side p" and "pr = ord_price p"
  using queues_mem [OF assms(1,3)] book_ok_queue [OF assms(1)] assms(2,4) by auto

text \<open>The passive order is at the head of the first queue.\<close>

lemma queues_passive:
  assumes ok: "book_ok b" and pass: "is_passive a b i p"
  obtains ids m where "queues (ord_side p) b = (ord_price p, i # ids) # m"
    and "queue_of b (ord_side p) (ord_price p) = i # ids"
    and "ord_price p \<notin> fst ` set m"
proof -
  let ?sd = "ord_side p" let ?pr = "ord_price p"
  obtain ids where q: "queue_of b ?sd ?pr = i # ids" using pass by (auto simp: is_passive_def)
  have best: "queue_of b ?sd pr \<noteq> [] \<Longrightarrow> pr = ?pr \<or> better ?sd ?pr pr" for pr
    using pass unfolding is_passive_def by blast
  have mo: "map_of (queues ?sd b) ?pr = Some (i # ids)" using queues_map_of [OF ok] q by simp
  obtain p0 v m where qs: "queues ?sd b = (p0, v) # m" using mo by (cases "queues ?sd b") auto
  have srt: "sorted_wrt (better ?sd) (p0 # map fst m)" using queues_sorted [OF ok, of ?sd] qs by simp
  have "p0 = ?pr"
  proof (rule ccontr)
    assume ne: "p0 \<noteq> ?pr"
    then have "?pr \<in> fst ` set m"
      using mo qs by (metis map_of_cons_queue map_of_eq_None_iff option.distinct(1))
    then have "better ?sd p0 ?pr" using srt by auto
    moreover have "queue_of b ?sd p0 \<noteq> []"
      using queues_map_of [OF ok, of ?sd p0] qs by (auto split: if_splits)
    then have "better ?sd ?pr p0" using best ne by blast
    ultimately show False by (cases ?sd) auto
  qed
  moreover have "p0 \<notin> fst ` set m" using srt by (cases ?sd) auto
  ultimately show ?thesis using that qs mo q by simp
qed

text \<open>A fill changes the first queue by \<open>queue_after\<close>, and no queue of the other side.\<close>

lemma queues_fill:
  assumes ok: "book_ok b" and ok2: "book_ok b2"
    and qs: "queues (ord_side p) b = (ord_price p, i # ids) # m"
    and q: "queue_of b (ord_side p) (ord_price p) = i # ids" and prm: "ord_price p \<notin> fst ` set m"
    and qu: "queue_of b2 = (\<lambda>sd pr. if sd = ord_side p \<and> pr = ord_price p
        then queue_after p q (queue_of b sd pr) else queue_of b sd pr)"
  shows "queues (ord_side p) b2 = (if queue_after p q (i # ids) = [] then m
      else (ord_price p, queue_after p q (i # ids)) # m)"
    and "sd \<noteq> ord_side p \<Longrightarrow> queues sd b2 = queues sd b"
proof -
  let ?sd = "ord_side p" let ?pr = "ord_price p" let ?q2 = "queue_after p q (i # ids)"
  have srt: "sorted_wrt (better ?sd) (?pr # map fst m)" using queues_sorted [OF ok, of ?sd] qs by simp
  show "queues ?sd b2 = (if ?q2 = [] then m else (?pr, ?q2) # m)"
  proof (rule queues_eqI [OF ok2])
    show "sorted_wrt (better ?sd) (map fst (if ?q2 = [] then m else (?pr, ?q2) # m))" using srt by simp
    show "map_of (if ?q2 = [] then m else (?pr, ?q2) # m) pr =
        (if queue_of b2 ?sd pr = [] then None else Some (queue_of b2 ?sd pr))" for pr
      using queues_map_of [OF ok, of ?sd pr] qs q qu map_of_eq_None_iff [of m ?pr] prm
      by (cases "pr = ?pr") simp_all
  qed
  show "queues sd b2 = queues sd b" if "sd \<noteq> ?sd"
    using that queues_eqI [OF ok2 queues_sorted [OF ok, of sd]] queues_map_of [OF ok] qu by simp
qed

text \<open>
  The whole effect of a fill: the first order of the side is the passive one, the head of the depth
  changes by \<open>front_after\<close>, and the aggressor's own side does not change.
\<close>

lemma depth_fill:
  assumes ok: "book_ok b" and ok2: "book_ok b2" and pass: "is_passive a b i p"
    and mp: "id_map b2 = fill_map i p q (id_map b)"
    and qu: "queue_of b2 = (\<lambda>sd pr. if sd = ord_side p \<and> pr = ord_price p
        then queue_after p q (queue_of b sd pr) else queue_of b sd pr)"
  obtains ps d where "depth (opp (ord_side a)) b = (p # ps) # d"
    and "depth (opp (ord_side a)) b2 = (if front_after p q ps = [] then d else front_after p q ps # d)"
    and "depth (ord_side a) b2 = depth (ord_side a) b"
proof -
  let ?sd = "ord_side p"
  let ?f = "\<lambda>i. the (fmlookup (id_map b) i)" let ?f2 = "\<lambda>i. the (fmlookup (id_map b2) i)"
  have p: "fmlookup (id_map b) i = Some p" and sd: "?sd = opp (ord_side a)"
    using pass by (simp_all add: is_passive_def)
  obtain ids m where qs: "queues ?sd b = (ord_price p, i # ids) # m"
    and q: "queue_of b ?sd (ord_price p) = i # ids" and prm: "ord_price p \<notin> fst ` set m"
    using queues_passive [OF ok pass] .
  note q2 = queues_fill [OF ok ok2 qs q prm qu]
  have other: "i \<notin> set x \<Longrightarrow> map ?f2 x = map ?f x" for x by (auto simp: mp intro!: fill_map_other arg_cong [of _ _ the])
  have dist: "i \<notin> set ids" using queue_distinct [OF ok, of ?sd "ord_price p"] q by simp
  have im: "i \<notin> set x" if "(pr, x) \<in> set m" for pr x
    using queued_once(2) [OF ok p, of pr x ?sd] that qs prm by force
  let ?d = "map (\<lambda>(p, ids). map ?f ids) m" let ?ps = "map ?f ids"
  have fr: "map ?f2 (queue_after p q (i # ids)) = front_after p q ?ps"
    using other [OF dist]
    by (auto simp: queue_after_def front_after_def mp fill_map_same passive_after_def split: option.split)
  then have nil: "queue_after p q (i # ids) = [] \<longleftrightarrow> front_after p q ?ps = []" by (metis map_is_Nil_conv)
  have dc: "map (\<lambda>(p, ids). map ?f2 ids) k = map (\<lambda>(p, ids). map ?f ids) k"
    if "\<And>pr x. (pr, x) \<in> set k \<Longrightarrow> i \<notin> set x" for k :: "(price \<times> order_id list) list"
  proof (rule map_cong [OF refl])
    fix e assume "e \<in> set k"
    then show "(case e of (p, ids) \<Rightarrow> map ?f2 ids) = (case e of (p, ids) \<Rightarrow> map ?f ids)"
      using other [OF that, of "fst e" "snd e"] by (simp add: case_prod_unfold)
  qed
  have ne: "ord_side a \<noteq> ?sd" using sd by (cases "ord_side a") simp_all
  have io: "i \<notin> set x" if "(pr, x) \<in> set (queues (ord_side a) b)" for pr x
    using queued_once(1) [OF ok p that] ne by blast
  show ?thesis
  proof
    show "depth (opp (ord_side a)) b = (p # ?ps) # ?d" using p qs sd by (simp add: depth_def)
    show "depth (opp (ord_side a)) b2 = (if front_after p q ?ps = [] then ?d else front_after p q ?ps # ?d)"
      using q2(1) nil fr dc [OF im] sd by (simp add: depth_def)
    show "depth (ord_side a) b2 = depth (ord_side a) b"
      using q2(2) [OF ne] dc [OF io] by (simp add: depth_def)
  qed
qed

section \<open>The loops compute the sweep\<close>

lemma depth_empty_iff: "depth sd b = [] \<longleftrightarrow> side_levels sd b = []"
  by (simp add: depth_def queues_def)

text \<open>The first order of the depth is one of the best price.\<close>

lemma depth_front:
  assumes ok: "book_ok b" and lev: "side_levels sd b = (pr, l) # m"
  obtains p ps d where "depth sd b = (p # ps) # d" and "ord_price p = pr" and "lvl_price l = pr"
proof -
  have wf: "live_ids l \<noteq> []" "lvl_price l = pr"
    using book_ok_levels [OF ok, of sd] lev by (simp_all add: levels_ok_def level_wf_def)
  then obtain i ids where ids: "live_ids l = i # ids" by (cases "live_ids l") auto
  then have "i \<in> set (queue_of b sd pr)" using lev by (simp add: queue_of_def queue_at_def)
  then obtain p where p: "fmlookup (id_map b) i = Some p" "ord_price p = pr" using book_ok_queue [OF ok] by blast
  then have "depth sd b = (p # map (\<lambda>i. the (fmlookup (id_map b) i)) ids)
      # map (\<lambda>(p, ids). map (\<lambda>i. the (fmlookup (id_map b) i)) ids) (map (\<lambda>(p, l). (p, live_ids l)) m)"
    using lev ids by (simp add: depth_def queues_def)
  then show ?thesis using that p(2) wf(2) by blast
qed

text \<open>A fill with no pending stop is one unfolding of \<open>sweep\<close>.\<close>

lemma sweep_fill:
  assumes ok: "config_ok (a # X) s" and nz: "ord_quantity a \<noteq> 0"
    and lev: "passive_level a (book s) = Some e"
    and reach: "ord_type a = Market \<or> \<not> beyond_limit a (snd e)"
    and front: "passive_front a e s = Inr (i, p, s1)"
    and fill: "apply_fill a i (min (ord_quantity a) (ord_quantity p)) s1 = Inr (a1, t, s2)"
  shows "sweep a (depth (opp (ord_side a)) (book s)) =
      (let (ts, a2, d) = sweep a1 (depth (opp (ord_side a)) (book s2)) in (t # ts, a2, d))"
    and "depth (ord_side a) (book s2) = depth (ord_side a) (book s)"
proof -
  let ?q = "min (ord_quantity a) (ord_quantity p)"
  note f = fill_effect [OF ok lev front fill]
  from fill_facts [OF config_okD(1) [OF ok] lev front fill]
  have g: "is_passive a (book s) i p" "book_ok (book s2)"
    "id_map (book s2) = fill_map i p ?q (id_map (book s))"
    "queue_of (book s2) = (\<lambda>sd pr. if sd = ord_side p \<and> pr = ord_price p
        then queue_after p ?q (queue_of (book s) sd pr) else queue_of (book s) sd pr)" by auto
  obtain ps d where d: "depth (opp (ord_side a)) (book s) = (p # ps) # d"
    "depth (opp (ord_side a)) (book s2) = (if front_after p ?q ps = [] then d else front_after p ?q ps # d)"
    "depth (ord_side a) (book s2) = depth (ord_side a) (book s)"
    using depth_fill [OF config_okD(1) [OF ok] g(2) g(1) g(3,4)] .
  have "\<not> out_of_reach a p"
    using reach not_beyond_within [of a "snd e"] f(6) by (auto simp: out_of_reach_def)
  then show "sweep a (depth (opp (ord_side a)) (book s)) =
      (let (ts, a2, d) = sweep a1 (depth (opp (ord_side a)) (book s2)) in (t # ts, a2, d))"
    using nz d(1,2) f(1,2) by (auto simp: Let_def)
  show "depth (ord_side a) (book s2) = depth (ord_side a) (book s)" by (rule d(3))
qed

text \<open>Where the loop stops, so does the sweep.\<close>

lemma sweep_done:
  assumes ok: "book_ok (book s)" and "ord_quantity a = 0 \<or> passive_level a (book s) = None \<or>
      ord_type a \<noteq> Market \<and> match_done a (book s)"
  shows "sweep a (depth (opp (ord_side a)) (book s)) = ([], a, depth (opp (ord_side a)) (book s))"
proof (cases "side_levels (opp (ord_side a)) (book s)")
  case Nil
  then show ?thesis by (simp add: depth_def queues_def)
next
  case (Cons e m)
  let ?sd = "opp (ord_side a)"
  obtain pr l where e: "e = (pr, l)" by fastforce
  obtain p ps d where d: "depth ?sd (book s) = (p # ps) # d" and p: "ord_price p = pr" "lvl_price l = pr"
    using depth_front [OF ok] Cons e by blast
  have "ord_quantity a = 0 \<or> out_of_reach a p"
    using assms(2) Cons e p
    by (cases "ord_side a") (auto simp: match_done_def passive_level_sd out_of_reach_def beyond_limit_def
        is_buy_def is_sell_def)
  then show ?thesis using d by simp
qed

lemma evaluate_none: "pending_stops s = [] \<Longrightarrow> evaluate_stop_triggers n r s = Inr (r, s)"
  by (simp add: evaluate_stop_triggers.simps)

text \<open>
  One statement for both loops: the run from a configuration without stops adds the outcome of the
  sweep, leaves its remainder and its depth, and does not touch the aggressor's side.
\<close>

definition settled :: "order \<Rightarrow> order" where
  "settled a = (if ord_quantity a = 0 then a\<lparr> ord_status := Filled \<rparr> else a)"

text \<open>The result of a new order: its trades, and a rejection when a market order finds no more orders.\<close>

definition outcome :: "trade list \<Rightarrow> order \<Rightarrow> match_result" where
  "outcome ts a = \<lparr> trades = ts, reports = [],
     rejections = if ord_type a = Market \<and> ord_quantity a \<noteq> 0 then [market_exhausted a] else [] \<rparr>"

lemma outcome_push: "append_result (push_trade t r) (outcome ts a) = append_result r (outcome (t # ts) a)"
  by (simp add: outcome_def append_result_def push_trade_def)

lemma outcome_none: "ord_type a \<noteq> Market \<or> ord_quantity a = 0 \<Longrightarrow> append_result r (outcome [] a) = r"
  by (auto simp: outcome_def append_result_def)

lemma outcome_exhausted:
  "ord_type a = Market \<Longrightarrow> ord_quantity a \<noteq> 0 \<Longrightarrow> append_result r (outcome [] a) = push_rejection (market_exhausted a) r"
  by (simp add: outcome_def append_result_def push_rejection_def)

definition swept :: "order \<Rightarrow> engine \<Rightarrow> match_result \<Rightarrow> order \<Rightarrow> engine \<Rightarrow> match_result \<Rightarrow> bool" where
  "swept a s r a1 s1 r1 \<longleftrightarrow> (\<exists>ts a2. sweep a (depth (opp (ord_side a)) (book s)) =
       (ts, a2, depth (opp (ord_side a)) (book s1))
     \<and> r1 = append_result r (outcome ts a2) \<and> (ord_type a \<noteq> Market \<longrightarrow> a1 = settled a2)
     \<and> depth (ord_side a) (book s1) = depth (ord_side a) (book s) \<and> pending_stops s1 = [])"

lemma swept_fill:
  assumes ok: "config_ok (a # X) s" and nz: "ord_quantity a \<noteq> 0"
    and lev: "passive_level a (book s) = Some e"
    and reach: "ord_type a = Market \<or> \<not> beyond_limit a (snd e)"
    and front: "passive_front a e s = Inr (i, p, s1)" and np: "pending_stops s = []"
    and run: "execute_fill n a i (min (ord_quantity a) (ord_quantity p)) r s1 = Inr (a1, r1, s2)"
  shows "config_ok (a1 # X) s2" and "pending_stops s2 = []" and "ord_type a1 = ord_type a"
    and "swept a1 s2 r1 a' s' r' \<Longrightarrow> swept a s r a' s' r'"
proof -
  let ?q = "min (ord_quantity a) (ord_quantity p)"
  from run obtain t s3 where f: "apply_fill a i ?q s1 = Inr (a1, t, s3)"
    and ev: "evaluate_stop_triggers n (push_trade t r) s3 = Inr (r1, s2)"
    by (auto simp: execute_fill.simps bind_res_Inr_iff)
  note e = fill_effect [OF ok lev front f]
  have eq: "s2 = s3" "r1 = push_trade t r" using ev evaluate_none [of s3] e(8) np by simp_all
  show "config_ok (a1 # X) s2" using config_ok_fill [OF ok lev front f] eq by simp
  show "pending_stops s2 = []" using e(8) np eq by simp
  show "ord_type a1 = ord_type a" by (simp add: e(1))
  have "ord_side a1 = ord_side a" "ord_type a1 = ord_type a" by (simp_all add: e(1))
  then show "swept a s r a' s' r'" if "swept a1 s2 r1 a' s' r'"
    using that sweep_fill [OF ok nz lev reach front f] eq by (auto simp: swept_def outcome_push)
qed

lemma match_limit_sweeps:
  "match_limit n a r s = Inr (a', r', s') \<Longrightarrow> config_ok (a # X) s \<Longrightarrow> pending_stops s = [] \<Longrightarrow>
   ord_type a \<noteq> Market \<Longrightarrow> swept a s r a' s' r'"
proof (induction n arbitrary: a r s)
  case 0
  then show ?case by (simp add: engine_simps)
next
  case (Suc n)
  note bk = config_okD(1) [OF Suc.prems(2)]
  from Suc.prems(1) show ?case
  proof (cases rule: match_limit_SucE)
    case zero
    then show ?thesis using sweep_done [OF bk, of a] Suc.prems by (simp add: swept_def settled_def outcome_none)
  next
    case stop
    then show ?thesis using sweep_done [OF bk, of a] Suc.prems by (simp add: swept_def settled_def outcome_none)
  next
    case (iterate e i p s1 a1 r1 s2)
    have "ord_type a = Market \<or> \<not> beyond_limit a (snd e)" using iterate(3) by simp
    note f = swept_fill [OF Suc.prems(2) iterate(1,2) this iterate(4) Suc.prems(3) iterate(5)]
    show ?thesis using f(4) Suc.IH [OF iterate(6) f(1,2)] f(3) Suc.prems(4) by simp
  qed
qed

lemma match_market_sweeps:
  "match_market n a r s = Inr (a', r', s') \<Longrightarrow> config_ok (a # X) s \<Longrightarrow> pending_stops s = [] \<Longrightarrow>
   ord_type a = Market \<Longrightarrow> swept a s r a' s' r'"
proof (induction n arbitrary: a r s)
  case 0
  then show ?case by (simp add: engine_simps)
next
  case (Suc n)
  note bk = config_okD(1) [OF Suc.prems(2)]
  from Suc.prems(1) show ?case
  proof (cases rule: match_market_SucE)
    case zero
    then show ?thesis using sweep_done [OF bk, of a] Suc.prems by (simp add: swept_def settled_def outcome_none)
  next
    case empty
    then show ?thesis using sweep_done [OF bk, of a] Suc.prems by (simp add: swept_def outcome_exhausted)
  next
    case (iterate e i p s1 a1 r1 s2)
    have "ord_type a = Market \<or> \<not> beyond_limit a (snd e)" using Suc.prems(4) by simp
    note f = swept_fill [OF Suc.prems(2) iterate(1,2) this iterate(3) Suc.prems(3) iterate(4)]
    show ?thesis using f(4) Suc.IH [OF iterate(5) f(1,2)] f(3) Suc.prems(4) by simp
  qed
qed

section \<open>Price-time priority of the engine\<close>

text \<open>Where the remainder of a limit or iceberg order goes: behind the orders of its price.\<close>

fun enqueue :: "order \<Rightarrow> order list list \<Rightarrow> order list list" where
  "enqueue o1 [] = [[o1]]"
| "enqueue o1 ([] # d) = enqueue o1 d"
| "enqueue o1 ((p # ps) # d) =
     (if ord_price o1 = ord_price p then ((p # ps) @ [o1]) # d
      else if better (ord_side o1) (ord_price o1) (ord_price p) then [o1] # (p # ps) # d
      else (p # ps) # enqueue o1 d)"

text \<open>The same on the queues of ids.\<close>

fun qins :: "(price \<Rightarrow> price \<Rightarrow> bool) \<Rightarrow> price \<Rightarrow> order_id \<Rightarrow> (price \<times> order_id list) list \<Rightarrow>
    (price \<times> order_id list) list" where
  "qins lt p i [] = [(p, [i])]"
| "qins lt p i ((p1, v) # m) =
     (if p = p1 then (p1, v @ [i]) # m
      else if lt p p1 then (p, [i]) # (p1, v) # m
      else (p1, v) # qins lt p i m)"

context price_order begin

lemma keys_qins: "fst ` set (qins lt p i m) = insert p (fst ` set m)"
  by (induction lt p i m rule: qins.induct) auto

lemma sorted_qins: "sorted_wrt lt (map fst m) \<Longrightarrow> sorted_wrt lt (map fst (qins lt p i m))"
proof (induction m)
  case (Cons e m)
  obtain p1 v where e: "e = (p1, v)" by fastforce
  consider "p = p1" | "lt p p1" "p \<noteq> p1" | "lt p1 p" "p \<noteq> p1" "\<not> lt p p1"
    using total [of p p1] irrefl trans by blast
  then show ?case
  proof cases
    case 1
    then show ?thesis using Cons.prems e by simp
  next
    case 2
    then have "\<forall>x\<in>fst ` set m. lt p x" using Cons.prems e trans [of p p1] by auto
    then show ?thesis using Cons.prems e 2 by simp
  next
    case 3
    then have "\<forall>x\<in>fst ` set (qins lt p i m). lt p1 x" using Cons.prems e by (simp add: keys_qins)
    then show ?thesis using Cons e 3 by simp
  qed
qed simp

lemma map_of_qins:
  "sorted_wrt lt (map fst m) \<Longrightarrow> map_of (qins lt p i m) x =
     (if x = p then Some ((case map_of m p of None \<Rightarrow> [] | Some v \<Rightarrow> v) @ [i]) else map_of m x)"
proof (induction m)
  case (Cons e m)
  obtain p1 v where e: "e = (p1, v)" by fastforce
  have none: "map_of m p = None" if lt: "lt p p1"
  proof -
    have "\<forall>x\<in>fst ` set m. lt p x" using lt Cons.prems e trans [of p p1] by auto
    then have "p \<notin> fst ` set m" using irrefl by blast
    then show ?thesis by (simp add: map_of_eq_None_iff)
  qed
  have "map_of (qins lt p i m) x =
     (if x = p then Some ((case map_of m p of None \<Rightarrow> [] | Some v \<Rightarrow> v) @ [i]) else map_of m x)"
    using Cons by simp
  then show ?case using none e by (cases "x = p") simp_all
qed simp

end

lemma sd_qins:
  assumes "sorted_wrt (better sd) (map fst m)"
  shows "sorted_wrt (better sd) (map fst (qins (better sd) p i m))"
    and "map_of (qins (better sd) p i m) x =
      (if x = p then Some ((case map_of m p of None \<Rightarrow> [] | Some v \<Rightarrow> v) @ [i]) else map_of m x)"
  using assms bid_side.sorted_qins ask_side.sorted_qins bid_side.map_of_qins ask_side.map_of_qins
  by (cases sd; simp add: better_Buy better_Sell)+

lemma enqueue_map:
  assumes "\<And>q v. (q, v) \<in> set m \<Longrightarrow> v \<noteq> [] \<and> i \<notin> set v \<and> (\<forall>j\<in>set v. ord_price (f j) = q \<and> g j = f j)"
    and "g i = o1"
  shows "map (\<lambda>(p, ids). map g ids) (qins (better (ord_side o1)) (ord_price o1) i m) =
     enqueue o1 (map (\<lambda>(p, ids). map f ids) m)"
  using assms(1)
proof (induction m)
  case Nil
  then show ?case using assms(2) by simp
next
  case (Cons e m)
  obtain q v where e: "e = (q, v)" by fastforce
  have v: "v \<noteq> []" "\<forall>j\<in>set v. ord_price (f j) = q \<and> g j = f j" using Cons.prems e by auto
  then obtain x xs where x: "v = x # xs" by (cases v) auto
  have IH: "map (\<lambda>(p, ids). map g ids) (qins (better (ord_side o1)) (ord_price o1) i m) =
     enqueue o1 (map (\<lambda>(p, ids). map f ids) m)" using Cons by auto
  have same: "map (\<lambda>(p, ids). map g ids) m = map (\<lambda>(p, ids). map f ids) m"
    using Cons.prems by (intro map_cong [OF refl]) fastforce
  show ?case using IH same v assms(2) by (simp add: e x)
qed

lemma depth_insert:
  assumes ok: "book_ok b" and nf: "fmlookup (id_map b) (ord_id o1) = None"
  shows "depth (ord_side o1) (insert_order o1 b) = enqueue o1 (depth (ord_side o1) b)"
    and "depth (opp (ord_side o1)) (insert_order o1 b) = depth (opp (ord_side o1)) b"
proof -
  let ?sd = "ord_side o1" let ?b1 = "insert_order o1 b"
  note ok1 = insert_order_ok [OF ok nf] and q1 = insert_order_queue(1) [OF ok nf]
  have qs: "queues ?sd ?b1 = qins (better ?sd) (ord_price o1) (ord_id o1) (queues ?sd b)"
    using sd_qins [OF queues_sorted [OF ok, of ?sd], of "ord_price o1" "ord_id o1"]
    by (intro queues_eqI [OF ok1]) (auto simp: queues_map_of [OF ok] q1)
  have mem: "v \<noteq> [] \<and> ord_id o1 \<notin> set v \<and>
      (\<forall>j\<in>set v. ord_price (the (fmlookup (id_map b) j)) = q \<and>
         the (fmlookup (id_map ?b1) j) = the (fmlookup (id_map b) j))" if "(q, v) \<in> set (queues sd b)" for q v sd
  proof -
    have v: "v = queue_of b sd q" using queues_mem [OF ok that] .
    have "live_ids l \<noteq> []" if "(q, l) \<in> set (side_levels sd b)" for q l
      using book_ok_levels [OF ok, of sd] that by (auto simp: levels_ok_def level_wf_def)
    then have "v \<noteq> []" using that by (auto simp: queues_def)
    moreover have "ord_id o1 \<notin> set v" using book_ok_unqueued [OF ok nf] v by simp
    moreover have "ord_price (the (fmlookup (id_map b) j)) = q" if "j \<in> set v" for j
      using that v book_ok_queue [OF ok] by auto
    ultimately show ?thesis by auto
  qed
  show "depth ?sd ?b1 = enqueue o1 (depth ?sd b)"
    unfolding depth_def qs by (rule enqueue_map) (use mem in auto)
  have ne: "opp ?sd \<noteq> ?sd" by (cases ?sd) simp_all
  have "queues (opp ?sd) ?b1 = queues (opp ?sd) b"
    using ne by (intro queues_eqI [OF ok1 queues_sorted [OF ok]]) (simp add: queues_map_of [OF ok] q1)
  then show "depth (opp ?sd) ?b1 = depth (opp ?sd) b"
    unfolding depth_def by (simp only:) (rule map_cong [OF refl], use mem in fastforce)
qed

text \<open>The book after a new order, when no stop is pending.\<close>

definition book_after :: "order \<Rightarrow> order_book \<Rightarrow> match_result \<times> order list list \<times> order list list" where
  "book_after o1 b = (case sweep (prepare_order o1) (depth (opp (ord_side o1)) b) of
     (ts, a, d) \<Rightarrow> (outcome ts a, d,
       if ord_type o1 \<noteq> Market \<and> must_rest a then enqueue (settled a) (depth (ord_side o1) b)
       else depth (ord_side o1) b))"

lemma must_rest_settled [simp]: "must_rest (settled a) = must_rest a"
  by (simp add: must_rest_def settled_def)

lemma limit_book_after:
  assumes ok: "engine_ok s" and fr: "fresh_id (ord_id o1) s" and np: "pending_stops s = []"
    and ty: "ord_type o1 = Limit \<or> ord_type o1 = Iceberg"
    and run: "submit (NewOrderEvent o1) s = Inr (r, s1)"
  shows "book_after o1 (book s) =
    (r, depth (opp (ord_side o1)) (book s1), depth (ord_side o1) (book s1))"
proof -
  let ?n = "event_fuel (NewOrderEvent o1) s" let ?a = "prepare_order o1"
  obtain k where k: "?n = Suc k" by (cases ?n) (simp_all add: event_fuel_def)
  from process_new_limit [OF run [unfolded submit_new_run k] ty] obtain a s2
    where m: "match_limit k ?a empty_result (counted s) = Inr (a, r, s2)"
      and s1: "s1 = (if must_rest a then rest_order a s2 else s2)" by blast
  note st = start_ok [OF ok fr]
  have nm: "ord_type ?a \<noteq> Market" "ord_type o1 \<noteq> Market" using ty by (auto simp: prepare_order_simps)
  have sd: "ord_side ?a = ord_side o1" by (auto simp: prepare_order_def split_iceberg_def Let_def)
  have np': "pending_stops (counted s) = []" using np by simp
  from match_limit_sweeps [OF m st np' nm(1)] sd nm(1) obtain ts a2
    where sw: "sweep ?a (depth (opp (ord_side o1)) (book s)) = (ts, a2, depth (opp (ord_side o1)) (book s2))"
      "r = outcome ts a2" "a = settled a2" "depth (ord_side o1) (book s2) = depth (ord_side o1) (book s)"
    by (auto simp: swept_def)
  have ok2: "config_ok [a] s2"
    using ok_inv.limit_matched [OF m _ nm(1), of "[]"] st engine_okD(3) [OF ok] by simp
  have bk2: "book_ok (book s2)" and nf: "fmlookup (id_map (book s2)) (ord_id a) = None"
    using ok2 by (simp_all add: config_ok_def)
  have side: "ord_side a = ord_side o1" using match_static [OF m] sd by simp
  have "depth (ord_side o1) (book s1) = (if must_rest a2 then enqueue a (depth (ord_side o1) (book s))
      else depth (ord_side o1) (book s))"
    "depth (opp (ord_side o1)) (book s1) = depth (opp (ord_side o1)) (book s2)"
    using depth_insert [OF bk2 nf] side sw(3,4) s1 by (simp_all add: rest_order_def)
  then show ?thesis using sw nm(2) by (simp add: book_after_def)
qed

lemma market_book_after:
  assumes ok: "engine_ok s" and fr: "fresh_id (ord_id o1) s" and np: "pending_stops s = []"
    and ty: "ord_type o1 = Market" and run: "submit (NewOrderEvent o1) s = Inr (r, s1)"
  shows "book_after o1 (book s) =
    (r, depth (opp (ord_side o1)) (book s1), depth (ord_side o1) (book s1))"
proof -
  let ?n = "event_fuel (NewOrderEvent o1) s" let ?a = "prepare_order o1"
  obtain k where k: "?n = Suc k" by (cases ?n) (simp_all add: event_fuel_def)
  obtain a where m: "match_market k ?a empty_result (counted s) = Inr (a, r, s1)"
    using run [unfolded submit_new_run k] ty by (auto simp: process_new_eqs bind_res_Inr_iff)
  have tya: "ord_type ?a = Market" and sd: "ord_side ?a = ord_side o1" using ty by (simp_all add: prepare_order_simps)
  have np': "pending_stops (counted s) = []" using np by simp
  from match_market_sweeps [OF m start_ok [OF ok fr] np' tya] sd ty show ?thesis
    by (auto simp: swept_def book_after_def)
qed

text \<open>
  Price-time priority: with no stop pending, the result of a new limit, market or iceberg order and
  both sides of the book after it are those of the textbook sweep over the orders in price-time
  order, with the remainder appended at the end of its price.
\<close>
theorem price_time_priority:
  assumes "engine_ok s" and "fresh_id (ord_id o1) s" and "pending_stops s = []"
    and "ord_type o1 \<in> {Limit, Market, Iceberg}" and "submit (NewOrderEvent o1) s = Inr (r, s1)"
  shows "book_after o1 (book s) =
    (r, depth (opp (ord_side o1)) (book s1), depth (ord_side o1) (book s1))"
  using assms limit_book_after market_book_after by blast

definition ex_calm :: engine where
  "ex_calm = snd (process_cancel \<lparr> cancel_order_id = 5, cancel_timestamp = 0 \<rparr> ex_engine)"

theorem price_time_priority_witness:
  "\<exists>r s1. submit (NewOrderEvent ex_buy) ex_calm = Inr (r, s1) \<and>
     fst (book_after ex_buy (book ex_calm)) = r \<and>
     map tr_passive_id (trades r) = [1, 2, 2, 2, 3] \<and> map tr_quantity (trades r) = [50, 10, 10, 10, 20]"
proof -
  have ok: "engine_ok ex_calm" unfolding ex_calm_def by (rule process_cancel_ok [OF ex_engine_ok]) code_simp
  have fr: "fresh_id (ord_id ex_buy) ex_calm" by code_simp
  have o: "pending_stops ex_calm = []" "ord_type ex_buy \<in> {Limit, Market, Iceberg}" by code_simp+
  obtain r s1 where run: "submit (NewOrderEvent ex_buy) ex_calm = Inr (r, s1)"
    using submit_returns [OF ok, of "NewOrderEvent ex_buy"] fr by auto
  have "case submit (NewOrderEvent ex_buy) ex_calm of Inl f \<Rightarrow> False | Inr (r, s1) \<Rightarrow>
      map tr_passive_id (trades r) = [1, 2, 2, 2, 3] \<and> map tr_quantity (trades r) = [50, 10, 10, 10, 20]"
    by code_simp
  with price_time_priority [OF ok fr o run] run show ?thesis by auto
qed

end
