(* ===== verification/Reference_Engine.thy ===== *)
theory Reference_Engine
  imports Price_Time Engine_Handlers
begin

text \<open>
  A reference matching engine, small enough to be read as a specification: its whole state is the ladder,
  for each side the list of its prices, best first, and for each price the list of its orders, oldest
  first. \<open>reference\<close> handles one event by the textbook operations on lists: \<open>sweep\<close> and \<open>enqueue\<close> for a new
  order, \<open>strike\<close> for taking an order out, \<open>amend\<close> for a smaller quantity. The engine with its maps, queues
  of ids, lazily deleted entries and stored volumes refines it: on any run without stop orders it makes the
  same trades, reports and rejections and its book shows the same ladder.
\<close>

type_synonym ladder = "side \<Rightarrow> order list list"

definition ladder_of :: "order_book \<Rightarrow> ladder" where
  "ladder_of b = (\<lambda>sd. depth sd b)"

definition lookup_order :: "order_id \<Rightarrow> ladder \<Rightarrow> order option" where
  "lookup_order i L = find (\<lambda>o1. ord_id o1 = i) (concat (L Buy) @ concat (L Sell))"

definition strike :: "order_id \<Rightarrow> ladder \<Rightarrow> ladder" where
  "strike i L = (\<lambda>sd. filter (\<lambda>q. q \<noteq> []) (map (filter (\<lambda>o1. ord_id o1 \<noteq> i)) (L sd)))"

definition amend :: "order_id \<Rightarrow> quantity \<Rightarrow> ladder \<Rightarrow> ladder" where
  "amend i q L = (\<lambda>sd. map (map (\<lambda>o1. if ord_id o1 = i then o1\<lparr> ord_quantity := q \<rparr> else o1)) (L sd))"

definition append_order :: "order \<Rightarrow> ladder \<Rightarrow> ladder" where
  "append_order o1 L = L(ord_side o1 := enqueue o1 (L (ord_side o1)))"

definition arrive :: "order \<Rightarrow> ladder \<Rightarrow> match_result \<times> ladder" where
  "arrive o1 L = (case sweep (prepare_order o1) (L (opp (ord_side o1))) of (ts, a, d) \<Rightarrow>
     (let L1 = L(opp (ord_side o1) := d) in
      (outcome ts a, if ord_type o1 \<noteq> Market \<and> must_rest a then append_order (settled a) L1 else L1)))"

fun reference :: "order_event \<Rightarrow> ladder \<Rightarrow> match_result \<times> ladder" where
  "reference (NewOrderEvent o1) L = arrive o1 L"
| "reference (CancelOrderEvent e) L = (case lookup_order (cancel_order_id e) L of
     None \<Rightarrow> (push_rejection (cancel_rejection e OrderNotFound) empty_result, L)
   | Some o1 \<Rightarrow>
       if \<not> is_resting o1 then (push_rejection (cancel_rejection e OrderNotCancellable) empty_result, L)
       else (push_report (cancel_report e (ord_quantity o1)) empty_result, strike (cancel_order_id e) L))"
| "reference (ModifyOrderEvent e) L = (case lookup_order (mod_order_id e) L of
     None \<Rightarrow> (push_rejection (modify_rejection (mod_order_id e) OrderNotFound) empty_result, L)
   | Some o1 \<Rightarrow>
       if \<not> is_resting o1 then (push_rejection (modify_rejection (mod_order_id e) OrderNotCancellable) empty_result, L)
       else (empty_result, if moves e o1 then append_order (modified_order e o1) (strike (mod_order_id e) L)
         else amend (mod_order_id e) (ord_quantity (modified_order e o1)) L))"
| "reference (ReplaceOrderEvent e) L = (case lookup_order (old_order_id e) L of
     None \<Rightarrow> (push_rejection (modify_rejection (old_order_id e) OrderNotFound) empty_result, L)
   | Some o1 \<Rightarrow> arrive (new_order e) (strike (old_order_id e) L))"

fun reference_run :: "order_event list \<Rightarrow> ladder \<Rightarrow> match_result list \<times> ladder" where
  "reference_run [] L = ([], L)"
| "reference_run (ev # evs) L = (case reference ev L of (r, L1) \<Rightarrow>
     case reference_run evs L1 of (rs, L2) \<Rightarrow> (r # rs, L2))"

fun stopless :: "order_event \<Rightarrow> bool" where
  "stopless (NewOrderEvent o1) = (\<not> is_stop o1)"
| "stopless (ReplaceOrderEvent e) = (\<not> is_stop (new_order e))"
| "stopless ev = True"

section \<open>The orders of the ladder\<close>

lemma depth_entry:
  assumes "book_ok b" and "o1 \<in> set (concat (depth sd b))"
  shows "fmlookup (id_map b) (ord_id o1) = Some o1" and "ord_side o1 = sd"
proof -
  from assms(2) obtain p ids i where q: "(p, ids) \<in> set (queues sd b)" "i \<in> set ids" "o1 = the (fmlookup (id_map b) i)"
    by (auto simp: depth_def)
  then have "i \<in> set (queue_of b sd p)" using queues_mem [OF assms(1) q(1)] by simp
  then obtain o2 where "fmlookup (id_map b) i = Some o2" "ord_side o2 = sd" using book_ok_queue [OF assms(1)] by auto
  then show "fmlookup (id_map b) (ord_id o1) = Some o1" "ord_side o1 = sd"
    using q(3) book_ok_id [OF assms(1)] by auto
qed

lemma depth_complete:
  assumes "book_ok b" and "fmlookup (id_map b) i = Some o1"
  shows "o1 \<in> set (concat (depth (ord_side o1) b))"
proof -
  have i: "i \<in> set (queue_of b (ord_side o1) (ord_price o1))" using book_ok_queued [OF assms] .
  then have "map_of (queues (ord_side o1) b) (ord_price o1) = Some (queue_of b (ord_side o1) (ord_price o1))"
    using queues_map_of [OF assms(1)] by auto
  then have "(ord_price o1, queue_of b (ord_side o1) (ord_price o1)) \<in> set (queues (ord_side o1) b)" by (rule map_of_SomeD)
  then show ?thesis using i assms(2) by (force simp: depth_def)
qed

lemma find_SomeD: "find P xs = Some x \<Longrightarrow> P x \<and> x \<in> set xs"
  by (induction xs) (auto split: if_splits)

lemma lookup_order_eq:
  assumes "book_ok b"
  shows "lookup_order i (ladder_of b) = fmlookup (id_map b) i"
proof (cases "lookup_order i (ladder_of b)")
  case None
  have "fmlookup (id_map b) i = None"
  proof (cases "fmlookup (id_map b) i")
    case (Some o1)
    have "o1 \<in> set (concat (ladder_of b Buy) @ concat (ladder_of b Sell))"
      using depth_complete [OF assms Some] by (cases "ord_side o1") (simp_all add: ladder_of_def)
    then show ?thesis using None book_ok_id [OF assms Some] by (auto simp: lookup_order_def find_None_iff)
  qed
  with None show ?thesis by simp
next
  case (Some o1)
  then have "find (\<lambda>o1. ord_id o1 = i) (concat (depth Buy b) @ concat (depth Sell b)) = Some o1"
    by (simp only: lookup_order_def ladder_of_def)
  from find_SomeD [OF this]
  have "ord_id o1 = i" "o1 \<in> set (concat (depth Buy b)) \<or> o1 \<in> set (concat (depth Sell b))"
    by (simp_all only: set_append Un_iff)
  from this(2) have "fmlookup (id_map b) (ord_id o1) = Some o1" by (elim disjE) (rule depth_entry(1) [OF assms], assumption)+
  with \<open>ord_id o1 = i\<close> Some show ?thesis by simp
qed

section \<open>Taking an order out and amending it\<close>

lemma queues_filter:
  assumes b: "book_ok b" and b1: "book_ok b1"
    and q: "\<And>p. queue_of b1 sd p = filter P (queue_of b sd p)"
  shows "queues sd b1 = filter (\<lambda>(p, v). v \<noteq> []) (map (\<lambda>(p, v). (p, filter P v)) (queues sd b))"
proof (rule queues_eqI [OF b1])
  let ?m = "map (\<lambda>(p, v). (p, filter P v)) (queues sd b)"
  have keys: "map fst ?m = map fst (queues sd b)" by (simp add: comp_def case_prod_unfold)
  have "sorted_wrt (better sd) (map fst ?m)" using queues_sorted [OF b, of sd] by (simp only: keys)
  then show "sorted_wrt (better sd) (map fst (filter (\<lambda>(p, v). v \<noteq> []) ?m))"
    by (simp only: sorted_wrt_map [of _ fst] sorted_wrt_filter)
  fix p
  have d: "distinct (map fst (queues sd b))"
    using queues_sorted [OF b, of sd] bid_side.sorted_distinct ask_side.sorted_distinct
    by (cases sd) (simp_all add: better_Buy better_Sell)
  have "map_of (filter (\<lambda>(p, v). v \<noteq> []) m) p = (case map_of m p of None \<Rightarrow> None | Some v \<Rightarrow> if v = [] then None else Some v)"
    if "distinct (map fst m)" for m :: "(price \<times> order_id list) list"
    using that by (induction m) (auto simp: map_of_eq_None_iff split: option.split)
  from this [of ?m] d have "map_of (filter (\<lambda>(p, v). v \<noteq> []) ?m) p =
      (case map_of ?m p of None \<Rightarrow> None | Some v \<Rightarrow> if v = [] then None else Some v)" by (simp only: keys)
  then show "map_of (filter (\<lambda>(p, v). v \<noteq> []) ?m) p =
      (if queue_of b1 sd p = [] then None else Some (queue_of b1 sd p))"
    using queues_map_of [OF b, of sd p] q [of p] by (auto simp: map_of_map split: if_splits)
qed

lemma depth_strike:
  assumes ok: "engine_ok s" and o1: "fmlookup (id_map (book s)) i = Some o1" and c: "cancellable i (book s)"
  shows "ladder_of (snd (cancel_order i (book s))) = strike i (ladder_of (book s))"
proof
  fix sd
  let ?b = "book s" let ?b1 = "snd (cancel_order i (book s))"
  let ?get = "\<lambda>j. the (fmlookup (id_map ?b) j)" let ?get1 = "\<lambda>j. the (fmlookup (id_map ?b1) j)"
  note bk = engine_okD(1) [OF ok]
  have bk1: "book_ok ?b1" using engine_okD(1) [OF engine_ok_cancel_book [OF ok c]] by simp
  have qs: "queues sd ?b1 = filter (\<lambda>(p, v). v \<noteq> []) (map (\<lambda>(p, v). (p, filter (\<lambda>j. j \<noteq> i) v)) (queues sd ?b))"
    by (rule queues_filter [OF bk bk1 cancel_queues [OF ok o1 c]])
  have "map (\<lambda>(p, v). map ?get1 v) (filter (\<lambda>(p, v). v \<noteq> []) (map (\<lambda>(p, v). (p, filter (\<lambda>j. j \<noteq> i) v)) m)) =
      filter (\<lambda>q. q \<noteq> []) (map (filter (\<lambda>o1. ord_id o1 \<noteq> i)) (map (\<lambda>(p, v). map ?get v) m))"
    if "\<And>p v j. (p, v) \<in> set m \<Longrightarrow> j \<in> set v \<Longrightarrow> ord_id (?get j) = j" for m :: "(price \<times> order_id list) list"
    using that
  proof (induction m)
    case (Cons e m)
    obtain p v where e: "e = (p, v)" by fastforce
    have id: "ord_id (?get j) = j" if "j \<in> set v" for j using Cons.prems [of p v j] e that by simp
    have "filter (\<lambda>o1. ord_id o1 \<noteq> i) (map ?get v) = map ?get1 (filter (\<lambda>j. j \<noteq> i) v)"
      using id by (induction v) (auto simp: cancel_order_fields(1) [OF o1])
    then show ?case using Cons.IH Cons.prems by (auto simp: e)
  qed simp
  moreover have "ord_id (?get j) = j" if "(p, v) \<in> set (queues sd ?b)" "j \<in> set v" for p v j
    using queues_mem [OF bk that(1)] that(2) book_ok_queue [OF bk] book_ok_id [OF bk] by auto
  ultimately show "ladder_of ?b1 sd = strike i (ladder_of ?b) sd"
    by (simp add: ladder_of_def strike_def depth_def qs)
qed

lemma depth_amend:
  assumes bk: "book_ok b" "book_ok b1" and o1: "fmlookup (id_map b) i = Some o1"
    and m: "id_map b1 = fmupd i (o1\<lparr> ord_quantity := q \<rparr>) (id_map b)" and qs: "queue_of b1 = queue_of b"
  shows "ladder_of b1 = amend i q (ladder_of b)"
proof
  fix sd
  have "queues sd b1 = queues sd b"
    using qs by (intro queues_eqI [OF bk(2) queues_sorted [OF bk(1)]]) (simp add: queues_map_of [OF bk(1)])
  moreover have "the (fmlookup (id_map b1) j) = (if ord_id (the (fmlookup (id_map b) j)) = i
      then (the (fmlookup (id_map b) j))\<lparr> ord_quantity := q \<rparr> else the (fmlookup (id_map b) j))"
    if "(p, v) \<in> set (queues sd b)" "j \<in> set v" for p v j
    using queues_mem [OF bk(1) that(1)] that(2) book_ok_queue [OF bk(1)] book_ok_id [OF bk(1)] o1 m by auto
  ultimately show "ladder_of b1 sd = amend i q (ladder_of b) sd"
    by (auto simp: ladder_of_def amend_def depth_def)
qed

lemma depth_append:
  assumes "book_ok b" and "fmlookup (id_map b) (ord_id o1) = None"
  shows "ladder_of (insert_order o1 b) = append_order o1 (ladder_of b)"
proof
  fix sd
  show "ladder_of (insert_order o1 b) sd = append_order o1 (ladder_of b) sd"
    using depth_insert [OF assms] by (cases sd; cases "ord_side o1") (simp_all add: ladder_of_def append_order_def)
qed

section \<open>One event\<close>

text \<open>Without stop orders none is ever pending.\<close>

definition calm :: "order list \<Rightarrow> engine \<Rightarrow> bool" where
  "calm X s \<longleftrightarrow> pending_stops s = [] \<and> (\<forall>o1\<in>set X. \<not> is_stop o1)"

lemma mstep_calm:
  assumes "mstep (X, s, r) (X1, s1, r1)" and inv: "calm X s"
  shows "calm X1 s1"
  using assms(1)
proof (cases "(X, s, r)" "(X1, s1, r1)" rule: mstep.cases)
  case (fill a e i p s2 a1 t X)
  then show ?thesis using inv passive_front_frame [OF fill(7)] apply_fill_frame [OF fill(8)] apply_fill_aggr [OF fill(8)]
    by (auto simp: calm_def is_stop_def)
next
  case (mark a X z)
  then show ?thesis using inv by (auto simp: calm_def is_stop_def)
qed (use inv in \<open>auto simp: calm_def\<close>)

interpretation calm: step_invariant "\<lambda>X s r. calm X s"
  by unfold_locales (rule mstep_calm)

lemma sweep_side: "sweep a d = (ts, a1, d1) \<Longrightarrow> ord_side a1 = ord_side a"
  by (induction a d arbitrary: ts a1 d1 rule: sweep.induct) (auto simp: Let_def split: prod.splits if_splits)

lemma arrive_refines:
  assumes ok: "engine_ok s" and fr: "fresh_id (ord_id o1) s" and np: "pending_stops s = []" and ns: "\<not> is_stop o1"
    and run: "submit (NewOrderEvent o1) s = Inr (r, s1)"
  shows "arrive o1 (ladder_of (book s)) = (r, ladder_of (book s1))" and "pending_stops s1 = []"
proof -
  have "ord_type o1 \<in> {Limit, Market, Iceberg}" using ns by (cases "ord_type o1") (auto simp: is_stop_def)
  then have ba: "book_after o1 (book s) = (r, depth (opp (ord_side o1)) (book s1), depth (ord_side o1) (book s1))"
    using limit_book_after [OF ok fr np _ run] market_book_after [OF ok fr np _ run] by blast
  obtain ts a d where sw: "sweep (prepare_order o1) (depth (opp (ord_side o1)) (book s)) = (ts, a, d)" by (metis prod_cases3)
  have "ord_side a = ord_side o1" using sweep_side [OF sw] by (simp add: prepare_order_def split_iceberg_def Let_def)
  then have side: "ord_side (settled a) = ord_side o1" by (simp add: settled_def)
  have ne: "opp (ord_side o1) \<noteq> ord_side o1" by (cases "ord_side o1") simp_all
  let ?own = "if ord_type o1 \<noteq> Market \<and> must_rest a then enqueue (settled a) (depth (ord_side o1) (book s))
    else depth (ord_side o1) (book s)"
  have res: "outcome ts a = r" "d = depth (opp (ord_side o1)) (book s1)" "?own = depth (ord_side o1) (book s1)"
    using ba sw by (simp_all add: book_after_def)
  have arr: "arrive o1 (ladder_of (book s)) = (outcome ts a, (ladder_of (book s))(opp (ord_side o1) := d, ord_side o1 := ?own))"
    using sw side ne by (auto simp: arrive_def ladder_of_def append_order_def Let_def fun_eq_iff)
  have "(ladder_of (book s))(opp (ord_side o1) := d, ord_side o1 := ?own) = ladder_of (book s1)"
  proof
    fix sd show "((ladder_of (book s))(opp (ord_side o1) := d, ord_side o1 := ?own)) sd = ladder_of (book s1) sd"
      using res(2,3) ne by (cases sd; cases "ord_side o1") (simp_all add: ladder_of_def)
  qed
  with arr res(1) show "arrive o1 (ladder_of (book s)) = (r, ladder_of (book s1))" by simp
  have "\<not> is_stop (prepare_order o1)" using ns by (simp add: is_stop_def prepare_order_simps)
  then have "calm [prepare_order o1] (counted s)" using np by (simp add: calm_def)
  from calm.submitted_new [OF run engine_okD(3) [OF ok] this] show "pending_stops s1 = []" by (simp add: calm_def)
qed

lemma cancel_refines:
  assumes ok: "engine_ok s" and c: "cancellable (cancel_order_id e) (book s)" and np: "pending_stops s = []"
    and run: "process_cancel e (counted s) = (r, s1)"
  shows "reference (CancelOrderEvent e) (ladder_of (book s)) = (r, ladder_of (book s1)) \<and> pending_stops s1 = []"
  using run np lookup_order_eq [OF engine_okD(1) [OF ok]] depth_strike [OF ok _ c]
  by (auto simp: process_cancel_def find_order_def push_report_def push_rejection_def empty_result_def
      split: option.splits if_splits)

lemma modify_refines:
  assumes ok: "engine_ok s" and c: "cancellable (mod_order_id e) (book s)"
    and run: "process_modify e (counted s) = (r, s1)"
  shows "reference (ModifyOrderEvent e) (ladder_of (book s)) = (r, ladder_of (book s1)) \<and>
    pending_stops s1 = pending_stops s \<and> last_trade_price (book s1) = last_trade_price (book s)"
proof (cases "\<exists>o1. fmlookup (id_map (book s)) (mod_order_id e) = Some o1 \<and> is_resting o1")
  case False
  then show ?thesis using run lookup_order_eq [OF engine_okD(1) [OF ok]]
    by (auto simp: process_modify_def find_order_def push_rejection_def empty_result_def split: option.splits)
next
  case True
  let ?i = "mod_order_id e"
  from True obtain o1 where o1: "fmlookup (id_map (book s)) ?i = Some o1" and rest: "is_resting o1" by blast
  have o1': "fmlookup (id_map (book (counted s))) ?i = Some o1" using o1 by simp
  note bk = engine_okD(1) [OF ok] and pm = process_modify_resting [OF o1' rest]
  have bk1: "book_ok (book s1)" using process_modify_ok [of "counted s" e] ok c run engine_okD(1) [of s1] by simp
  have look: "lookup_order ?i (ladder_of (book s)) = Some o1" using lookup_order_eq [OF bk] o1 by simp
  show ?thesis
  proof (cases "moves e o1")
    case mv: True
    let ?b = "snd (cancel_order ?i (book s))"
    have bkc: "book_ok ?b" using engine_okD(1) [OF engine_ok_cancel_book [OF ok c]] by simp
    have "fmlookup (id_map ?b) (ord_id (modified_order e o1)) = None"
      using book_ok_id [OF bk o1] by (simp add: cancel_order_fields(1) [OF o1])
    from depth_append [OF bkc this] depth_strike [OF ok o1 c] show ?thesis
      using run pm mv rest look by (auto simp: empty_result_def cancel_order_fields(2))
  next
    case False
    let ?q = "ord_quantity (modified_order e o1)"
    have m: "id_map (book s1) = fmupd ?i (o1\<lparr> ord_quantity := ?q \<rparr>) (id_map (book s))"
    proof (cases "?q = ord_quantity o1")
      case True
      then show ?thesis using run pm False o1 by (auto intro!: fmap_ext)
    next
      case ne: False
      then show ?thesis using run pm False modify_in_place(1) [OF ok o1 refl] by auto
    qed
    have q: "queue_of (book s1) = queue_of (book s)"
      using run pm False modify_in_place(2) [OF ok o1 refl] by (auto split: if_splits)
    have "r = empty_result" "pending_stops s1 = pending_stops s" "last_trade_price (book s1) = last_trade_price (book s)"
      using run pm False by (auto simp: empty_result_def update_last split: if_splits)
    then show ?thesis using depth_amend [OF bk bk1 o1 m q] look rest False by simp
  qed
qed

lemma reference_step:
  assumes ok: "engine_ok s" and ev: "event_ok ev s" and np: "pending_stops s = []" and ns: "stopless ev"
    and run: "submit ev s = Inr (r, s1)"
  shows "reference ev (ladder_of (book s)) = (r, ladder_of (book s1)) \<and> pending_stops s1 = []"
proof (cases ev)
  case (NewOrderEvent o1)
  then show ?thesis using arrive_refines [OF ok _ np _ run [unfolded NewOrderEvent]] ev ns by simp
next
  case (CancelOrderEvent e)
  then show ?thesis using cancel_refines [OF ok _ np, of e] ev run by (simp add: submit_def submit_fuel_def)
next
  case (ModifyOrderEvent e)
  have "process_modify e (counted s) = (r, s1)" using run ModifyOrderEvent by (simp add: submit_def submit_fuel_def)
  from modify_refines [OF ok _ this] ev np show ?thesis by (simp only: ModifyOrderEvent event_ok.simps)
next
  case (ReplaceOrderEvent e)
  note bk = engine_okD(1) [OF ok] and rr = replace_run [OF ok ev [unfolded ReplaceOrderEvent]]
  show ?thesis
  proof (cases "has_order (old_order_id e) (book s)")
    case True
    let ?s = "s\<lparr> book := snd (cancel_order (old_order_id e) (book s)) \<rparr>"
    obtain o1 where o1: "fmlookup (id_map (book s)) (old_order_id e) = Some o1" using True by (auto simp: has_order_def)
    note ready = replace_ready [OF ok ev [unfolded ReplaceOrderEvent] True]
    have sub: "submit (NewOrderEvent (new_order e)) ?s = Inr (r, s1)" using run rr True ReplaceOrderEvent by simp
    have c: "cancellable (old_order_id e) (book s)" using ev ReplaceOrderEvent by simp
    have "pending_stops ?s = []" "\<not> is_stop (new_order e)" using np ns ReplaceOrderEvent by simp_all
    from arrive_refines [OF ready this sub] depth_strike [OF ok o1 c] show ?thesis
      using lookup_order_eq [OF bk] o1 by (simp add: ReplaceOrderEvent)
  next
    case False
    then have "s1 = counted s" "r = push_rejection (modify_rejection (old_order_id e) OrderNotFound) empty_result"
      using run rr ReplaceOrderEvent by auto
    then show ?thesis using False lookup_order_eq [OF bk] np by (simp add: ReplaceOrderEvent has_order_def)
  qed
qed

section \<open>Runs\<close>

lemma reference_refines:
  "engine_ok s \<Longrightarrow> pending_stops s = [] \<Longrightarrow> events_ok evs s \<Longrightarrow> list_all stopless evs \<Longrightarrow>
   \<exists>rs s1. run_events evs s = Inr (rs, s1) \<and> reference_run evs (ladder_of (book s)) = (rs, ladder_of (book s1))"
proof (induction evs arbitrary: s)
  case Nil
  then show ?case by simp
next
  case (Cons ev evs)
  from Cons.prems have ev: "event_ok ev s" "stopless ev" "list_all stopless evs" by simp_all
  from submit_returns [OF Cons.prems(1) ev(1)] obtain r s2 where s2: "submit ev s = Inr (r, s2)" "engine_ok s2" by blast
  note st = reference_step [OF Cons.prems(1) ev(1) Cons.prems(2) ev(2) s2(1)]
  have "events_ok evs s2" using Cons.prems(3) s2(1) by simp
  from Cons.IH [OF s2(2) _ this ev(3)] st s2(1) show ?case by auto
qed

text \<open>
  C4. The engine refines the reference engine: for every list of new, cancel, modify and replace events
  without stop orders that meets the code's unchecked assumptions, the engine returns, gives for each
  event exactly the trades, reports and rejections of the reference engine, and its book shows the reference
  engine's ladder.
\<close>
theorem engine_refines_reference:
  assumes "events_ok evs (new_engine cfg)" and "list_all stopless evs"
  shows "\<exists>rs s. run_events evs (new_engine cfg) = Inr (rs, s) \<and>
    reference_run evs (\<lambda>sd. []) = (rs, ladder_of (book s))"
proof -
  have "pending_stops (new_engine cfg) = []" by (simp add: new_engine_def)
  moreover have "ladder_of (book (new_engine cfg)) = (\<lambda>sd. [])"
  proof
    fix sd show "ladder_of (book (new_engine cfg)) sd = []"
      by (cases sd) (simp_all add: ladder_of_def depth_def queues_def new_engine_def empty_book_def)
  qed
  ultimately show ?thesis using reference_refines [OF engine_ok_new [of cfg] _ assms] by simp
qed

definition ex_reference :: "order_event list" where
  "ex_reference = [NewOrderEvent (ex_limit 1 Sell 101 50), NewOrderEvent (ex_iceberg 2 Sell 101 30 10),
     NewOrderEvent (ex_limit 3 Sell 102 40), ModifyOrderEvent ex_more,
     ReplaceOrderEvent \<lparr> old_order_id = 3, new_order = ex_limit 4 Sell 100 5 \<rparr>,
     NewOrderEvent (ex_limit 5 Buy 101 30)]"

theorem engine_refines_reference_witness:
  "\<exists>rs s. run_events ex_reference (new_engine default_config) = Inr (rs, s) \<and>
    map (\<lambda>r. map (\<lambda>t. (tr_passive_id t, tr_quantity t)) (trades r)) rs = [[], [], [], [], [], [(4, 5), (2, 10), (1, 15)]] \<and>
    map (map (\<lambda>o1. (ord_id o1, ord_quantity o1))) (ladder_of (book s) Sell) = [[(1, 45), (2, 10)]]"
proof -
  have "events_ok ex_reference (new_engine default_config)" "list_all stopless ex_reference" by code_simp+
  from engine_refines_reference [OF this] obtain rs s where
    "run_events ex_reference (new_engine default_config) = Inr (rs, s)"
    "reference_run ex_reference (\<lambda>sd. []) = (rs, ladder_of (book s))" by blast
  moreover have "(case reference_run ex_reference (\<lambda>sd. []) of (rs, L) \<Rightarrow>
      (map (\<lambda>r. map (\<lambda>t. (tr_passive_id t, tr_quantity t)) (trades r)) rs, map (map (\<lambda>o1. (ord_id o1, ord_quantity o1))) (L Sell))) =
    ([[], [], [], [], [], [(4, 5), (2, 10), (1, 15)]], [[(1, 45), (2, 10)]])" by code_simp
  ultimately show ?thesis by simp
qed

end
