(* ===== verification/Stop_Cascade.thy ===== *)
theory Stop_Cascade
  imports Reference_Engine
begin

text \<open>
  The reference engine with stop orders, as a big-step semantics. A market is a ladder, the stops that wait
  in order of arrival, and the last trade price. After every single trade the waiting stops are looked at
  with the price of that trade; each one it reaches enters the market as a market or limit order before the
  aggressor goes on, and may itself trade and set off others. The four relations follow that description and
  know nothing of queues of ids, levels or fuel. They are deterministic, and the engine computes them.
\<close>

record market =
  ladder :: ladder
  waiting :: "order list"
  last_price :: price

definition market_of :: "engine \<Rightarrow> market" where
  "market_of s = \<lparr> ladder = ladder_of (book s), waiting = pending_stops s, last_price = last_trade_price (book s) \<rparr>"

definition halted :: "order \<Rightarrow> order list list \<Rightarrow> bool" where
  "halted a d \<longleftrightarrow> ord_quantity a = 0 \<or> (case d of (p # ps) # d1 \<Rightarrow> out_of_reach a p | _ \<Rightarrow> True)"

text \<open>The market after a fill of \<open>q\<close> against the first order \<open>p\<close> of the first price.\<close>

definition fill_front :: "side \<Rightarrow> order \<Rightarrow> quantity \<Rightarrow> order list \<Rightarrow> order list list \<Rightarrow> market \<Rightarrow> market" where
  "fill_front sd p q ps d M = M\<lparr> ladder := (ladder M)(sd := (if front_after p q ps = [] then d else front_after p q ps # d)),
     last_price := ord_price p \<rparr>"

definition join_ladder :: "order \<Rightarrow> market \<Rightarrow> market" where
  "join_ladder o1 M = M\<lparr> ladder := append_order o1 (ladder M) \<rparr>"

text \<open>
  Each relation also gives the trades, reports and rejections it makes; \<open>outcome\<close> is the end of a new order, which
  for a market order that is not filled is its rejection.
\<close>

definition traded :: "trade \<Rightarrow> match_result \<Rightarrow> match_result" where
  "traded t r = append_result (push_trade t empty_result) r"

inductive takes :: "order \<Rightarrow> market \<Rightarrow> match_result \<Rightarrow> order \<Rightarrow> market \<Rightarrow> bool"
  and checks :: "market \<Rightarrow> match_result \<Rightarrow> market \<Rightarrow> bool"
  and scans :: "price \<Rightarrow> order list \<Rightarrow> market \<Rightarrow> match_result \<Rightarrow> market \<Rightarrow> bool"
  and enters :: "order \<Rightarrow> market \<Rightarrow> match_result \<Rightarrow> market \<Rightarrow> bool"
where
  take_done: "halted a (ladder M (opp (ord_side a))) \<Longrightarrow> takes a M (outcome [] a) (settled a) M"
| take_trade: "\<not> halted a (ladder M (opp (ord_side a))) \<Longrightarrow> ladder M (opp (ord_side a)) = (p # ps) # d \<Longrightarrow>
     q = min (ord_quantity a) (ord_quantity p) \<Longrightarrow> checks (fill_front (opp (ord_side a)) p q ps d M) r1 M1 \<Longrightarrow>
     takes (a\<lparr> ord_quantity := ord_quantity a - q \<rparr>) M1 r2 a1 M2 \<Longrightarrow> takes a M (traded (fill_trade a p q) (append_result r1 r2)) a1 M2"
| check_idle: "waiting M = [] \<or> last_price M = 0 \<Longrightarrow> checks M empty_result M"
| check_scan: "waiting M \<noteq> [] \<Longrightarrow> last_price M \<noteq> 0 \<Longrightarrow>
     scans (last_price M) (waiting M) (M\<lparr> waiting := [] \<rparr>) r M1 \<Longrightarrow> checks M r M1"
| scan_end: "scans lp [] M empty_result M"
| scan_enter: "stop_triggered lp st \<Longrightarrow> enters (convert_stop st) M r1 M1 \<Longrightarrow> scans lp sts M1 r2 M2 \<Longrightarrow>
     scans lp (st # sts) M (append_result r1 r2) M2"
| scan_wait: "\<not> stop_triggered lp st \<Longrightarrow> scans lp sts (M\<lparr> waiting := waiting M @ [st] \<rparr>) r M1 \<Longrightarrow>
     scans lp (st # sts) M r M1"
| enter_match: "\<not> is_stop o1 \<Longrightarrow> takes (prepare_order o1) M r a M1 \<Longrightarrow>
     enters o1 M r (if ord_type o1 \<noteq> Market \<and> must_rest a then join_ladder a M1 else M1)"
| enter_now: "is_stop o1 \<Longrightarrow> last_price M \<noteq> 0 \<and> stop_triggered (last_price M) o1 \<Longrightarrow>
     enters (convert_stop (prepare_order o1)) M r M1 \<Longrightarrow> enters o1 M r M1"
| enter_wait: "is_stop o1 \<Longrightarrow> \<not> (last_price M \<noteq> 0 \<and> stop_triggered (last_price M) o1) \<Longrightarrow>
     enters o1 M empty_result (M\<lparr> waiting := waiting M @ [prepare_order o1] \<rparr>)"

inductive_cases takesE: "takes a M u a1 M1"
inductive_cases checksE: "checks M u M1"
inductive_cases scansE: "scans lp [] M u M1" "scans lp (st # sts) M u M1"
inductive_cases entersE: "enters o1 M u M1"

section \<open>Determinism\<close>

lemma cascade_deterministic:
  "takes a M u a1 M1 \<Longrightarrow> (\<forall>u' a1' M1'. takes a M u' a1' M1' \<longrightarrow> u' = u \<and> a1' = a1 \<and> M1' = M1)"
  "checks M u M1 \<Longrightarrow> (\<forall>u' M1'. checks M u' M1' \<longrightarrow> u' = u \<and> M1' = M1)"
  "scans lp sts M u M1 \<Longrightarrow> (\<forall>u' M1'. scans lp sts M u' M1' \<longrightarrow> u' = u \<and> M1' = M1)"
  "enters o1 M u M1 \<Longrightarrow> (\<forall>u' M1'. enters o1 M u' M1' \<longrightarrow> u' = u \<and> M1' = M1)"
proof (induction rule: takes_checks_scans_enters.inducts)
  case (take_done a M)
  then show ?case by (intro allI impI) (erule takesE; simp)
next
  case (take_trade a M p ps d q u1 M1 u2 a1 M2)
  show ?case
  proof (intro allI impI)
    fix u' a1' M1' assume "takes a M u' a1' M1'"
    then show "u' = traded (fill_trade a p q) (append_result u1 u2) \<and> a1' = a1 \<and> M1' = M2"
    proof (rule takesE)
      let ?q = "\<lambda>p. min (ord_quantity a) (ord_quantity p)"
      fix p' ps' d' u1' M1'' u2'
      assume eq: "ladder M (opp (ord_side a)) = (p' # ps') # d'" "u' = traded (fill_trade a p' (?q p')) (append_result u1' u2')"
        and ch: "checks (fill_front (opp (ord_side a)) p' (?q p') ps' d' M) u1' M1''"
        and tk: "takes (a\<lparr> ord_quantity := ord_quantity a - ?q p' \<rparr>) M1'' u2' a1' M1'"
      have same: "p' = p" "ps' = ps" "d' = d" using eq(1) take_trade.hyps(2) by simp_all
      note q = take_trade.hyps(3)
      have "u1' = u1 \<and> M1'' = M1" using ch take_trade.IH(1) unfolding same q by blast
      then show ?thesis using tk take_trade.IH(2) eq(2) unfolding same q by blast
    qed (use take_trade.hyps(1) in simp)
  qed
next
  case (check_idle M)
  then show ?case by (intro allI impI) (erule checksE; blast)
next
  case (check_scan M u M1)
  then show ?case by (intro allI impI) (erule checksE; blast)
next
  case (scan_end lp M)
  then show ?case by (intro allI impI) (erule scansE(1); simp)
next
  case (scan_enter lp st M u1 M1 sts u2 M2)
  show ?case
  proof (intro allI impI)
    fix u' M1' assume "scans lp (st # sts) M u' M1'"
    then show "u' = append_result u1 u2 \<and> M1' = M2"
    proof (rule scansE(2))
      fix u1' M1'' u2'
      assume "u' = append_result u1' u2'" "enters (convert_stop st) M u1' M1''" "scans lp sts M1'' u2' M1'"
      then show ?thesis using scan_enter.IH by blast
    qed (use scan_enter.hyps(1) in simp)
  qed
next
  case (scan_wait lp st sts M u M1)
  then show ?case by (intro allI impI) (erule scansE(2); blast)
next
  case (enter_match o1 M u a M1)
  show ?case
  proof (intro allI impI)
    fix u' M1' assume "enters o1 M u' M1'"
    then show "u' = u \<and> M1' = (if ord_type o1 \<noteq> Market \<and> must_rest a then join_ladder a M1 else M1)"
    proof (rule entersE)
      fix a' M1''
      assume "M1' = (if ord_type o1 \<noteq> Market \<and> must_rest a' then join_ladder a' M1'' else M1'')"
        "takes (prepare_order o1) M u' a' M1''"
      then show ?thesis using enter_match.IH by blast
    qed (use enter_match.hyps(1) in simp_all)
  qed
next
  case (enter_now o1 M u M1)
  then show ?case by (intro allI impI) (erule entersE; blast)
next
  case (enter_wait o1 M)
  then show ?case by (intro allI impI) (erule entersE; blast)
qed

section \<open>The steps of the engine on the market\<close>

lemma reach_limit:
  "lvl_price l = ord_price p \<Longrightarrow> out_of_reach a p \<longleftrightarrow> ord_type a \<noteq> Market \<and> beyond_limit a l"
  by (cases "ord_side a") (auto simp: out_of_reach_def beyond_limit_def is_buy_def is_sell_def)

lemma fill_market:
  assumes ok: "config_ok (a # X) s" and lev: "passive_level a (book s) = Some e"
    and front: "passive_front a e s = Inr (i, p, s1)" and fill: "apply_fill a i q s1 = Inr (a1, t, s2)"
  shows "\<exists>ps d. ladder (market_of s) (opp (ord_side a)) = (p # ps) # d \<and> t = fill_trade a p q \<and>
    a1 = a\<lparr> ord_quantity := ord_quantity a - q \<rparr> \<and> out_of_reach a p = (ord_type a \<noteq> Market \<and> beyond_limit a (snd e)) \<and>
    market_of s2 = fill_front (opp (ord_side a)) p q ps d (market_of s)"
proof -
  note bk = config_okD(1) [OF ok]
  from fill_facts [OF bk lev front fill] obtain b2 where f: "s2 = s\<lparr> book := b2 \<rparr>"
      "a1 = a\<lparr> ord_quantity := ord_quantity a - q \<rparr>" "t = fill_trade a p q" "is_passive a (book s) i p"
      "lvl_price (snd e) = ord_price p" "book_ok b2" "id_map b2 = fill_map i p q (id_map (book s))"
      "queue_of b2 = (\<lambda>sd pr. if sd = ord_side p \<and> pr = ord_price p
          then queue_after p q (queue_of (book s) sd pr) else queue_of (book s) sd pr)"
      "last_trade_price b2 = ord_price p" by blast
  obtain ps d where d: "depth (opp (ord_side a)) (book s) = (p # ps) # d"
    "depth (opp (ord_side a)) b2 = (if front_after p q ps = [] then d else front_after p q ps # d)"
    "depth (ord_side a) b2 = depth (ord_side a) (book s)"
    using depth_fill [OF bk f(6,4,7,8)] .
  have "ladder_of b2 = (ladder_of (book s))(opp (ord_side a) := (if front_after p q ps = [] then d else front_after p q ps # d))"
  proof
    fix sd show "ladder_of b2 sd =
        ((ladder_of (book s))(opp (ord_side a) := (if front_after p q ps = [] then d else front_after p q ps # d))) sd"
      using d(2,3) by (cases sd; cases "ord_side a") (simp_all add: ladder_of_def)
  qed
  then have "market_of s2 = fill_front (opp (ord_side a)) p q ps d (market_of s)"
    by (simp add: market_of_def fill_front_def f(1,9))
  then show ?thesis using d(1) f(2,3) reach_limit [OF f(5), of a] by (auto simp: market_of_def ladder_of_def)
qed

lemma halted_market:
  assumes ok: "config_ok (a # X) s"
  shows "halted a (ladder (market_of s) (opp (ord_side a))) \<longleftrightarrow> ord_quantity a = 0 \<or>
    (case passive_level a (book s) of None \<Rightarrow> True | Some e \<Rightarrow> ord_type a \<noteq> Market \<and> beyond_limit a (snd e))"
proof (cases "passive_level a (book s)")
  case None
  then have "depth (opp (ord_side a)) (book s) = []" by (simp add: depth_empty_iff passive_level_sd split: list.splits)
  then show ?thesis using None by (simp add: halted_def market_of_def ladder_of_def)
next
  case (Some e)
  from fill_returns [OF config_okD(1) [OF ok] Some] obtain i p s1 a1 t s2
    where f: "passive_front a e s = Inr (i, p, s1)" "apply_fill a i 0 s1 = Inr (a1, t, s2)" by blast
  from fill_market [OF ok Some f] Some show ?thesis by (auto simp: halted_def)
qed

lemma rest_market:
  assumes "config_ok (a # X) s"
  shows "market_of (rest_order a s) = join_ladder a (market_of s)"
  using assms depth_append [of "book s" a] by (simp add: config_ok_def market_of_def rest_order_def join_ladder_def)

lemma market_of_simps [simp]:
  "waiting (market_of s) = pending_stops s" "last_price (market_of s) = last_trade_price (book s)"
  "market_of (s\<lparr> pending_stops := ps \<rparr>) = (market_of s)\<lparr> waiting := ps \<rparr>"
  "market_of (s\<lparr> sequence := k \<rparr>) = market_of s"
  by (simp_all add: market_of_def)

text \<open>One iteration of a match loop.\<close>

lemma iteration_takes:
  assumes ok: "config_ok (a # X) s" and nz: "ord_quantity a \<noteq> 0" and lev: "passive_level a (book s) = Some e"
    and reach: "ord_type a = Market \<or> \<not> beyond_limit a (snd e)" and front: "passive_front a e s = Inr (i, p, s1)"
    and ex: "execute_fill n a i (min (ord_quantity a) (ord_quantity p)) r s1 = Inr (a1, r1, s2)"
    and IH: "\<forall>X a1 t s2 a' r' s'. apply_fill a i (min (ord_quantity a) (ord_quantity p)) s1 = Inr (a1, t, s2) \<longrightarrow> config_ok X s2 \<longrightarrow>
      execute_fill n a i (min (ord_quantity a) (ord_quantity p)) r s1 = Inr (a', r', s') \<longrightarrow>
      a' = a1 \<and> (\<exists>u. r' = append_result r (traded t u) \<and> checks (market_of s2) u (market_of s'))"
  shows "config_ok (a1 # X) s2" and "ord_type a1 = ord_type a" and
    "\<exists>u. r1 = append_result r u \<and> (\<forall>u2 a2 M. takes a1 (market_of s2) u2 a2 M \<longrightarrow> takes a (market_of s) (append_result u u2) a2 M)"
proof -
  let ?q = "min (ord_quantity a) (ord_quantity p)"
  obtain t s3 where f: "apply_fill a i ?q s1 = Inr (a1, t, s3)"
    and ev: "evaluate_stop_triggers n (push_trade t r) s3 = Inr (r1, s2)"
    using ex by (auto simp: execute_fill.simps bind_res_Inr_iff)
  note ok3 = config_ok_fill [OF ok lev front f]
  show "config_ok (a1 # X) s2" using evaluated_ok(1) [OF ev ok3] .
  from fill_market [OF ok lev front f] obtain ps d where m: "ladder (market_of s) (opp (ord_side a)) = (p # ps) # d"
    "t = fill_trade a p ?q" "a1 = a\<lparr> ord_quantity := ord_quantity a - ?q \<rparr>"
    "market_of s3 = fill_front (opp (ord_side a)) p ?q ps d (market_of s)" by blast
  show "ord_type a1 = ord_type a" by (simp add: m(3))
  have go: "\<not> halted a (ladder (market_of s) (opp (ord_side a)))" using halted_market [OF ok] nz lev reach by auto
  from IH [rule_format, OF f ok3 ex] obtain u where u: "r1 = append_result r (traded t u)"
    "checks (market_of s3) u (market_of s2)" by blast
  have "takes a (market_of s) (append_result (traded t u) u2) a2 M" if "takes a1 (market_of s2) u2 a2 M" for u2 a2 M
    using take_trade [OF go m(1) refl u(2) [unfolded m(4)] that [unfolded m(3)]] by (simp add: m(2) traded_def append_result_assoc)
  then show "\<exists>u. r1 = append_result r u \<and>
      (\<forall>u2 a2 M. takes a1 (market_of s2) u2 a2 M \<longrightarrow> takes a (market_of s) (append_result u u2) a2 M)"
    using u(1) by (intro exI [of _ "traded t u"]) blast
qed

text \<open>The two ways a new order can end.\<close>

lemma limit_enters:
  assumes ok: "config_ok (prepare_order o1 # X) s" and run: "process_new_order (Suc n) o1 s = Inr (r, s')"
    and ty: "ord_type o1 = Limit \<or> ord_type o1 = Iceberg"
    and IH: "\<And>a r s1. match_limit n (prepare_order o1) empty_result s = Inr (a, r, s1) \<Longrightarrow>
      \<exists>u. r = append_result empty_result u \<and> takes (prepare_order o1) (market_of s) u a (market_of s1)"
  shows "enters o1 (market_of s) r (market_of s')"
proof -
  from process_new_limit [OF run ty] obtain a s1 where m: "match_limit n (prepare_order o1) empty_result s = Inr (a, r, s1)"
    and s': "s' = (if must_rest a then rest_order a s1 else s1)" by blast
  have nm: "ord_type (prepare_order o1) \<noteq> Market" "ord_type o1 \<noteq> Market" "\<not> is_stop o1"
    using ty by (auto simp: prepare_order_simps is_stop_def)
  have ok1: "config_ok (a # X) s1" using ok_inv.limit_matched [OF m config_okD(4) [OF ok] nm(1)] ok by blast
  have "takes (prepare_order o1) (market_of s) r a (market_of s1)" using IH [OF m] by auto
  from enter_match [OF nm(3) this] show ?thesis
    using rest_market [OF ok1] nm(2) by (cases "must_rest a") (simp_all add: s')
qed

lemma stop_enters:
  assumes run: "process_new_order (Suc n) o1 s = Inr (r, s')" and ty: "is_stop o1"
    and IH: "\<And>r s1. immediately_triggered (prepare_order o1) s \<Longrightarrow>
      process_triggered_stop n (prepare_order o1) empty_result s = Inr (r, s1) \<Longrightarrow>
      \<exists>u. r = append_result empty_result u \<and> enters (convert_stop (prepare_order o1)) (market_of s) u (market_of s1)"
  shows "enters o1 (market_of s) r (market_of s')"
proof -
  have p: "prepare_order o1 = o1\<lparr> ord_status := Resting \<rparr>" using ty by (auto simp: is_stop_def prepare_order_simps)
  have tr: "immediately_triggered (prepare_order o1) s \<longleftrightarrow>
      last_price (market_of s) \<noteq> 0 \<and> stop_triggered (last_price (market_of s)) o1"
    by (auto simp: p immediately_triggered_def stop_triggered_def is_buy_def is_sell_def)
  have new: "process_new_order (Suc n) o1 s = (if immediately_triggered (prepare_order o1) s
      then process_triggered_stop n (prepare_order o1) empty_result s
      else Inr (empty_result, s\<lparr> pending_stops := pending_stops s @ [prepare_order o1] \<rparr>))"
    using ty by (cases "ord_type o1") (simp_all add: process_new_order.simps p is_stop_def)
  show ?thesis
  proof (cases "immediately_triggered (prepare_order o1) s")
    case True
    with IH [OF True] run new show ?thesis using tr enter_now [OF ty] by auto
  next
    case False
    then have "r = empty_result" "s' = s\<lparr> pending_stops := pending_stops s @ [prepare_order o1] \<rparr>" using run new by simp_all
    then show ?thesis using enter_wait [OF ty, of "market_of s"] False tr by simp
  qed
qed

lemma engine_cascade:
  "\<forall>X a' r' s'. config_ok (a # X) s \<longrightarrow> ord_type a \<noteq> Market \<longrightarrow> match_limit n a r s = Inr (a', r', s') \<longrightarrow>
     (\<exists>u. r' = append_result r u \<and> takes a (market_of s) u a' (market_of s'))"
  "\<forall>X a' r' s'. config_ok (a # X) s \<longrightarrow> ord_type a = Market \<longrightarrow> match_market n a r s = Inr (a', r', s') \<longrightarrow>
     (\<exists>u a2. r' = append_result r u \<and> takes a (market_of s) u a2 (market_of s'))"
  "\<forall>X a1 t s1 a' r' s'. apply_fill a i q s = Inr (a1, t, s1) \<longrightarrow> config_ok X s1 \<longrightarrow> execute_fill n a i q r s = Inr (a', r', s') \<longrightarrow>
     a' = a1 \<and> (\<exists>u. r' = append_result r (traded t u) \<and> checks (market_of s1) u (market_of s'))"
  "\<forall>X r' s'. config_ok X s \<longrightarrow> evaluate_stop_triggers n r s = Inr (r', s') \<longrightarrow>
     (\<exists>u. r' = append_result r u \<and> checks (market_of s) u (market_of s'))"
  "\<forall>X r' s'. config_ok (ws @ X) s \<longrightarrow> (\<forall>x\<in>set ws. is_stop x) \<longrightarrow> stop_loop n lp ws r s = Inr (r', s') \<longrightarrow>
     (\<exists>u. r' = append_result r u \<and> scans lp ws (market_of s) u (market_of s'))"
  "\<forall>X r' s'. config_ok (st # X) s \<longrightarrow> process_triggered_stop n st r s = Inr (r', s') \<longrightarrow>
     (\<exists>u. r' = append_result r u \<and> enters (convert_stop st) (market_of s) u (market_of s'))"
  "\<forall>X r' s'. config_ok (o1 # X) s \<longrightarrow> process_new_order n o1 s = Inr (r', s') \<longrightarrow>
     enters o1 (market_of s) r' (market_of s')"
proof (induction n a r s and n a r s and n a i q r s and n r s and n lp ws r s and n st r s
    and n o1 s rule: engine_induct)
  case (2 n aggr r s)
  show ?case
  proof (intro allI impI)
    fix X a' r' s' assume ok: "config_ok (aggr # X) s" and ty: "ord_type aggr \<noteq> Market"
      and run: "match_limit (Suc n) aggr r s = Inr (a', r', s')"
    note h = halted_market [OF ok]
    from run show "\<exists>u. r' = append_result r u \<and> takes aggr (market_of s) u a' (market_of s')"
    proof (cases rule: match_limit_SucE)
      case zero
      then have "takes aggr (market_of s) (outcome [] aggr) a' (market_of s')"
        using take_done [of aggr "market_of s"] h by (simp add: settled_def)
      then show ?thesis using zero(2,3) outcome_none [of aggr r] ty by (intro exI [of _ "outcome [] aggr"]) simp
    next
      case stop
      then have "halted aggr (ladder (market_of s) (opp (ord_side aggr)))"
        using h ty by (auto simp: match_done_def split: option.splits)
      then have "takes aggr (market_of s) (outcome [] aggr) a' (market_of s')"
        using take_done [of aggr "market_of s"] stop by (simp add: settled_def)
      then show ?thesis using stop outcome_none [of aggr r] ty by (intro exI [of _ "outcome [] aggr"]) simp
    next
      case (iterate e i p s1 a1 r1 s2)
      have "ord_type aggr = Market \<or> \<not> beyond_limit aggr (snd e)" using iterate(3) by simp
      note it = iteration_takes [OF ok iterate(1,2) this iterate(4,5) "2.IH"(1) [OF iterate(1-4) refl refl]]
      have "\<exists>u. r' = append_result r1 u \<and> takes a1 (market_of s2) u a' (market_of s')"
        using "2.IH"(2) [OF iterate(1-4) refl refl iterate(5) refl refl] it(1,2) ty iterate(6) by simp blast
      then show ?thesis using it(3) by force
    qed
  qed
next
  case (4 n aggr r s)
  show ?case
  proof (intro allI impI)
    fix X a' r' s' assume ok: "config_ok (aggr # X) s" and ty: "ord_type aggr = Market"
      and run: "match_market (Suc n) aggr r s = Inr (a', r', s')"
    note h = halted_market [OF ok]
    from run show "\<exists>u a2. r' = append_result r u \<and> takes aggr (market_of s) u a2 (market_of s')"
    proof (cases rule: match_market_SucE)
      case (iterate e i p s1 a1 r1 s2)
      have "ord_type aggr = Market \<or> \<not> beyond_limit aggr (snd e)" using ty by simp
      note it = iteration_takes [OF ok iterate(1,2) this iterate(3,4) "4.IH"(1) [OF iterate(1-3) refl refl]]
      have "\<exists>u a2. r' = append_result r1 u \<and> takes a1 (market_of s2) u a2 (market_of s')"
        using "4.IH"(2) [OF iterate(1-3) refl refl iterate(4) refl refl] it(1,2) ty iterate(5) by simp blast
      then show ?thesis using it(3) by force
    next
      case zero
      then show ?thesis using take_done [of aggr "market_of s"] h outcome_none [of aggr r] by metis
    next
      case empty
      then show ?thesis using take_done [of aggr "market_of s"] h outcome_exhausted [OF ty, of r] by (metis option.simps(4))
    qed
  qed
next
  case (5 n aggr i q r s)
  show ?case
  proof (intro allI impI)
    fix X a1 t s1 a' r' s'
    assume f: "apply_fill aggr i q s = Inr (a1, t, s1)" and ok: "config_ok X s1"
      and run: "execute_fill n aggr i q r s = Inr (a', r', s')"
    then have ev: "a' = a1" "evaluate_stop_triggers n (push_trade t r) s1 = Inr (r', s')"
      by (auto simp: execute_fill.simps bind_res_Inr_iff)
    have "\<exists>u. r' = append_result (push_trade t r) u \<and> checks (market_of s1) u (market_of s')"
      using 5 [OF f refl refl] ok ev(2) by blast
    then show "a' = a1 \<and> (\<exists>u. r' = append_result r (traded t u) \<and> checks (market_of s1) u (market_of s'))"
      using ev(1) by (auto simp: traded_def append_result_def push_trade_def)
  qed
next
  case (6 n r s)
  show ?case
  proof (intro allI impI)
    fix X r' s' assume ok: "config_ok X s" and run: "evaluate_stop_triggers n r s = Inr (r', s')"
    show "\<exists>u. r' = append_result r u \<and> checks (market_of s) u (market_of s')"
    proof (cases "pending_stops s = [] \<or> last_trade_price (book s) = 0")
      case True
      then have "s' = s" "r' = r" using run by (auto simp: evaluate_stop_triggers.simps split: if_splits)
      then show ?thesis using True check_idle [of "market_of s"] by (intro exI [of _ empty_result]) simp
    next
      case False
      have "\<forall>x\<in>set (pending_stops s). is_stop x" using config_okD(4) [OF ok] by (simp add: stops_only_def)
      then have "\<exists>u. r' = append_result r u \<and>
          scans (last_trade_price (book s)) (pending_stops s) (market_of (s\<lparr> pending_stops := [] \<rparr>)) u (market_of s')"
        using 6 False config_ok_wake [OF ok] run by (simp add: evaluate_stop_triggers.simps) blast
      then show ?thesis using check_scan [of "market_of s"] False by auto
    qed
  qed
next
  case (7 n lp r s)
  then show ?case by (auto simp: stop_loop.simps intro!: exI [of _ empty_result] scan_end)
next
  case (8 n lp st working r s)
  show ?case
  proof (intro allI impI)
    fix X r' s' assume ok: "config_ok ((st # working) @ X) s" and ws: "\<forall>x\<in>set (st # working). is_stop x"
      and run: "stop_loop n lp (st # working) r s = Inr (r', s')"
    then have ok': "config_ok (st # working @ X) s" and is_stop: "is_stop st" by simp_all
    show "\<exists>u. r' = append_result r u \<and> scans lp (st # working) (market_of s) u (market_of s')"
    proof (cases "stop_triggered lp st")
      case True
      with run obtain r1 s1 where p: "process_triggered_stop n st r s = Inr (r1, s1)"
        and l: "stop_loop n lp working r1 s1 = Inr (r', s')" by (auto simp: stop_loop.simps bind_res_Inr_iff)
      have "\<exists>u. r1 = append_result r u \<and> enters (convert_stop st) (market_of s) u (market_of s1)"
        using "8.IH"(1) [OF True] ok' p by blast
      moreover have "\<exists>u. r' = append_result r1 u \<and> scans lp working (market_of s1) u (market_of s')"
        using "8.IH"(2) [OF True p refl] triggered_ok(1) [OF p ok' is_stop] ws l by simp blast
      ultimately show ?thesis using scan_enter [OF True] append_result_assoc by metis
    next
      case False
      have "\<exists>u. r' = append_result r u \<and> scans lp working (market_of (s\<lparr> pending_stops := pending_stops s @ [st] \<rparr>)) u (market_of s')"
        using "8.IH"(3) [OF False] config_ok_sleep [OF ok' is_stop] ws run False by (simp add: stop_loop.simps) blast
      then show ?thesis using scan_wait [OF False, of working "market_of s"] by auto
    qed
  qed
next
  case (9 n st r s)
  show ?case
  proof (intro allI impI)
    fix X r' s' assume ok: "config_ok (st # X) s" and run: "process_triggered_stop n st r s = Inr (r', s')"
    then obtain sub where p: "process_new_order n (convert_stop st) s = Inr (sub, s')" and r': "r' = append_result r sub"
      by (auto simp: process_triggered_stop.simps bind_res_Inr_iff)
    have "enters (convert_stop st) (market_of s) sub (market_of s')"
      using 9 config_ok_ids [OF ok, of "convert_stop st"] p by simp blast
    then show "\<exists>u. r' = append_result r u \<and> enters (convert_stop st) (market_of s) u (market_of s')"
      using r' by blast
  qed
next
  case (11 n o1 s)
  show ?case
  proof (intro allI impI)
    fix X r' s' assume ok: "config_ok (o1 # X) s" and run: "process_new_order (Suc n) o1 s = Inr (r', s')"
    have ok': "config_ok (prepare_order o1 # X) s" using config_ok_ids [OF ok] by simp
    have limit: "enters o1 (market_of s) r' (market_of s')"
      if ty: "ord_type o1 = Limit \<or> ord_type o1 = Iceberg"
        and IH: "\<And>a r s1. match_limit n (prepare_order o1) empty_result s = Inr (a, r, s1) \<Longrightarrow>
          \<exists>u. r = append_result empty_result u \<and> takes (prepare_order o1) (market_of s) u a (market_of s1)"
      using limit_enters [OF ok' run ty] IH by blast
    have stop: "enters o1 (market_of s) r' (market_of s')"
      if ty: "is_stop o1" and IH: "\<And>r s1. immediately_triggered (prepare_order o1) s \<Longrightarrow>
        process_triggered_stop n (prepare_order o1) empty_result s = Inr (r, s1) \<Longrightarrow>
        \<exists>u. r = append_result empty_result u \<and> enters (convert_stop (prepare_order o1)) (market_of s) u (market_of s1)"
      using stop_enters [OF run ty] IH by blast
    show "enters o1 (market_of s) r' (market_of s')"
    proof (cases "ord_type o1")
      case Limit
      show ?thesis using "11.IH"(1) Limit ok' by (intro limit) (simp, simp add: prepare_order_simps, blast)
    next
      case Iceberg
      then have p: "prepare_order o1 = split_iceberg (o1\<lparr> ord_status := Resting \<rparr>)"
        and ty: "ord_type (o1\<lparr> ord_status := Resting \<rparr>) = Iceberg"
        and nm: "ord_type (split_iceberg (o1\<lparr> ord_status := Resting \<rparr>)) \<noteq> Market"
        by (simp_all add: prepare_order_simps split_iceberg_def)
      show ?thesis using "11.IH"(5) [OF refl ty] ok' nm Iceberg unfolding p by (intro limit [unfolded p]) blast+
    next
      case Market
      then obtain a where m: "match_market n (prepare_order o1) empty_result s = Inr (a, r', s')"
        using run by (auto simp: process_new_eqs bind_res_Inr_iff)
      have "\<exists>u a2. r' = append_result empty_result u \<and> takes (prepare_order o1) (market_of s) u a2 (market_of s')"
        using "11.IH"(2) Market ok' m by (simp add: prepare_order_simps) blast
      then obtain a2 where "takes (prepare_order o1) (market_of s) r' a2 (market_of s')" by auto
      from enter_match [OF _ this] Market show ?thesis by (simp add: is_stop_def)
    next
      case Stop
      show ?thesis using "11.IH"(3) Stop ok' by (intro stop) (simp add: is_stop_def, simp add: prepare_order_simps, blast)
    next
      case StopLimit
      show ?thesis using "11.IH"(4) StopLimit ok' by (intro stop) (simp add: is_stop_def, simp add: prepare_order_simps, blast)
    qed
  qed
qed (simp_all add: engine_simps)

section \<open>Events and runs\<close>

definition withdraw :: "cancel_order_event \<Rightarrow> market \<Rightarrow> match_result \<times> market" where
  "withdraw e M = (case find (\<lambda>st. ord_id st = cancel_order_id e) (waiting M) of
     Some st \<Rightarrow> (push_report (cancel_report e (ord_quantity st)) empty_result,
       M\<lparr> waiting := filter (\<lambda>st. ord_id st \<noteq> cancel_order_id e) (waiting M) \<rparr>)
   | None \<Rightarrow> (case reference (CancelOrderEvent e) (ladder M) of (r, L) \<Rightarrow> (r, M\<lparr> ladder := L \<rparr>)))"

fun reacts :: "order_event \<Rightarrow> market \<Rightarrow> match_result \<Rightarrow> market \<Rightarrow> bool" where
  "reacts (NewOrderEvent o1) M r M1 = enters o1 M r M1"
| "reacts (CancelOrderEvent e) M r M1 = ((r, M1) = withdraw e M)"
| "reacts (ModifyOrderEvent e) M r M1 =
     (case reference (ModifyOrderEvent e) (ladder M) of (r1, L) \<Rightarrow> r = r1 \<and> M1 = M\<lparr> ladder := L \<rparr>)"
| "reacts (ReplaceOrderEvent e) M r M1 = (case lookup_order (old_order_id e) (ladder M) of
     None \<Rightarrow> r = push_rejection (modify_rejection (old_order_id e) OrderNotFound) empty_result \<and> M1 = M
   | Some o1 \<Rightarrow> enters (new_order e) (M\<lparr> ladder := strike (old_order_id e) (ladder M) \<rparr>) r M1)"

fun reacts_all :: "order_event list \<Rightarrow> market \<Rightarrow> match_result list \<Rightarrow> market \<Rightarrow> bool" where
  "reacts_all [] M rs M1 = (rs = [] \<and> M1 = M)"
| "reacts_all (ev # evs) M rs M2 = (\<exists>r rs1 M1. rs = r # rs1 \<and> reacts ev M r M1 \<and> reacts_all evs M1 rs1 M2)"

definition empty_market :: market where
  "empty_market = \<lparr> ladder = (\<lambda>sd. []), waiting = [], last_price = 0 \<rparr>"

lemma reacts_deterministic:
  assumes "reacts ev M u M1" and "reacts ev M u' M1'"
  shows "u' = u \<and> M1' = M1"
proof (cases ev)
  case (NewOrderEvent o1)
  then show ?thesis using assms cascade_deterministic(4) by fastforce
next
  case (CancelOrderEvent e)
  then show ?thesis using assms by (metis prod.inject reacts.simps(2))
next
  case (ModifyOrderEvent e)
  then show ?thesis using assms by (simp add: case_prod_unfold)
next
  case (ReplaceOrderEvent e)
  then show ?thesis using assms cascade_deterministic(4) by (fastforce split: option.splits)
qed

lemma reacts_all_deterministic: "reacts_all evs M rs M1 \<Longrightarrow> reacts_all evs M rs' M1' \<Longrightarrow> rs' = rs \<and> M1' = M1"
proof (induction evs arbitrary: M rs rs')
  case (Cons ev evs)
  from Cons.prems obtain u rs1 M2 u' rs1' M2' where
    a: "rs = u # rs1" "reacts ev M u M2" "reacts_all evs M2 rs1 M1" and
    b: "rs' = u' # rs1'" "reacts ev M u' M2'" "reacts_all evs M2' rs1' M1'" by auto
  from reacts_deterministic [OF a(2) b(2)] have "u' = u" "M2' = M2" by simp_all
  with Cons.IH [OF a(3)] a(1) b(1,3) show ?case by simp
qed simp

lemma new_reacts:
  assumes "engine_ok s" and "fresh_id (ord_id o1) s" and "process_new_order n o1 s = Inr (r, s1)"
  shows "enters o1 (market_of s) r (market_of s1)"
  using engine_cascade(7) fresh_config [OF assms(1,2)] assms(3) by blast

lemma cancel_reacts:
  assumes ok: "engine_ok s" and c: "cancellable (cancel_order_id e) (book s)" and run: "process_cancel e (counted s) = (r, s1)"
  shows "reacts (CancelOrderEvent e) (market_of s) r (market_of s1)"
proof (cases "take_stop (cancel_order_id e) (pending_stops s)")
  case None
  then have "find (\<lambda>st. ord_id st = cancel_order_id e) (pending_stops s) = None" by (simp add: find_take)
  then show ?thesis using None run lookup_order_eq [OF engine_okD(1) [OF ok]] depth_strike [OF ok _ c]
    by (auto simp: withdraw_def market_of_def process_cancel_def find_order_def cancel_order_fields(2)
        split: option.splits if_splits)
next
  case (Some p)
  obtain st ps where p: "p = (st, ps)" by fastforce
  note t = take_stop_filter [OF engine_okD(2) [OF ok] Some [unfolded p]]
  then show ?thesis using Some p t(1) run
    by (auto simp: withdraw_def process_cancel_def find_take)
qed

lemma event_reacts:
  assumes ok: "engine_ok s" and ev: "event_ok ev s" and run: "submit ev s = Inr (r, s1)"
  shows "reacts ev (market_of s) r (market_of s1)"
proof (cases ev)
  case (NewOrderEvent o1)
  have "engine_ok (counted s)" "fresh_id (ord_id o1) (counted s)" using ok ev NewOrderEvent by (simp_all add: fresh_id_def)
  from new_reacts [OF this run [unfolded NewOrderEvent submit_new_run]] show ?thesis by (simp add: NewOrderEvent)
next
  case (CancelOrderEvent e)
  then show ?thesis using cancel_reacts [OF ok, of e] ev run by (simp add: submit_def submit_fuel_def)
next
  case (ModifyOrderEvent e)
  have "process_modify e (counted s) = (r, s1)" using run ModifyOrderEvent by (simp add: submit_def submit_fuel_def)
  from modify_refines [OF ok _ this] ev ModifyOrderEvent show ?thesis by (simp add: market_of_def)
next
  case (ReplaceOrderEvent e)
  note bk = engine_okD(1) [OF ok]
  show ?thesis
  proof (cases "has_order (old_order_id e) (book s)")
    case True
    let ?s = "(counted s)\<lparr> book := snd (cancel_order (old_order_id e) (book s)) \<rparr>"
    obtain o1 where o1: "fmlookup (id_map (book s)) (old_order_id e) = Some o1" using True by (auto simp: has_order_def)
    have c: "cancellable (old_order_id e) (book s)" using ev ReplaceOrderEvent by simp
    note ready = replace_ready [OF ok ev [unfolded ReplaceOrderEvent] True]
    have "engine_ok ?s" using engine_ok_cancel_book [of "counted s" "old_order_id e"] ok c by simp
    moreover have "fresh_id (ord_id (new_order e)) ?s" using ready(2) by (simp add: fresh_id_def)
    ultimately have n: "enters (new_order e) (market_of ?s) r (market_of s1)"
      by (rule new_reacts [OF _ _ run [unfolded ReplaceOrderEvent submit_replace_run [OF True]]])
    have "market_of ?s = (market_of s)\<lparr> ladder := strike (old_order_id e) (ladder (market_of s)) \<rparr>"
      using depth_strike [OF ok o1 c] by (simp add: market_of_def cancel_order_fields(2))
    with n show ?thesis using lookup_order_eq [OF bk] o1 by (simp add: ReplaceOrderEvent market_of_def)
  next
    case False
    then have "s1 = counted s" "r = push_rejection (modify_rejection (old_order_id e) OrderNotFound) empty_result"
      using run ReplaceOrderEvent by (auto simp: submit_def submit_fuel_def process_replace_def)
    then show ?thesis using False lookup_order_eq [OF bk] by (simp add: ReplaceOrderEvent has_order_def market_of_def)
  qed
qed

lemma run_reacts:
  "engine_ok s \<Longrightarrow> events_ok evs s \<Longrightarrow>
   \<exists>rs s1. run_events evs s = Inr (rs, s1) \<and> reacts_all evs (market_of s) (rs) (market_of s1)"
proof (induction evs arbitrary: s)
  case Nil
  then show ?case by simp
next
  case (Cons ev evs)
  from Cons.prems(2) have ev: "event_ok ev s" by simp
  from submit_returns [OF Cons.prems(1) ev] obtain r s2 where s2: "submit ev s = Inr (r, s2)" "engine_ok s2" by blast
  have "events_ok evs s2" using Cons.prems(2) s2(1) by simp
  from Cons.IH [OF s2(2) this] event_reacts [OF Cons.prems(1) ev s2(1)] s2(1) show ?case by auto
qed

text \<open>
  C2. The engine implements the market: from every well-formed state and for every list of new, cancel, modify
  and replace events, stop orders included, that meets the code's unchecked assumptions, the engine returns,
  and the trades, reports and rejections of each event together with the final ladder, waiting stops and last
  trade price are the one outcome that the big-step semantics allows.
\<close>
theorem engine_implements_market:
  assumes "engine_ok s" and "events_ok evs s"
  shows "\<exists>rs s1. run_events evs s = Inr (rs, s1) \<and>
    (\<forall>rs' M. reacts_all evs (market_of s) rs' M \<longleftrightarrow> rs' = rs \<and> M = market_of s1)"
  using run_reacts [OF assms] reacts_all_deterministic by metis

lemma market_of_new: "market_of (new_engine cfg) = empty_market"
proof -
  have "ladder_of (book (new_engine cfg)) sd = []" for sd
    by (cases sd) (simp_all add: ladder_of_def depth_def queues_def new_engine_def empty_book_def)
  then show ?thesis by (simp add: market_of_def empty_market_def fun_eq_iff) (simp add: new_engine_def empty_book_def)
qed

definition ex_cascade :: "order_event list" where
  "ex_cascade = ex_events @ [NewOrderEvent ex_buy, CancelOrderEvent \<lparr> cancel_order_id = 5, cancel_timestamp = 9 \<rparr>]"

theorem engine_implements_market_witness:
  "\<exists>rs M. reacts_all ex_cascade empty_market rs M \<and> waiting M = [] \<and> last_price M = 102 \<and>
     map (\<lambda>t. (tr_aggressor_id t, tr_passive_id t, tr_quantity t)) (trades (last (butlast rs))) =
       [(6, 1, 50), (6, 2, 10), (6, 2, 10), (6, 2, 10), (6, 3, 20), (5, 3, 5)] \<and>
     map rej_reason (rejections (last rs)) = [OrderNotFound]"
proof -
  have "events_ok ex_cascade (new_engine default_config)" by code_simp
  from engine_implements_market [OF engine_ok_new this] market_of_new obtain rs s where r: "run_events ex_cascade (new_engine default_config) = Inr (rs, s)"
    "reacts_all ex_cascade empty_market rs (market_of s)" by metis
  have "(case run_events ex_cascade (new_engine default_config) of Inl f \<Rightarrow> False | Inr (rs, s) \<Rightarrow>
      map (\<lambda>t. (tr_aggressor_id t, tr_passive_id t, tr_quantity t)) (trades (last (butlast rs))) =
        [(6, 1, 50), (6, 2, 10), (6, 2, 10), (6, 2, 10), (6, 3, 20), (5, 3, 5)] \<and>
      map rej_reason (rejections (last rs)) = [OrderNotFound] \<and>
      pending_stops s = [] \<and> last_trade_price (book s) = 102)" by code_simp
  with r show ?thesis by (intro exI [of _ rs] exI [of _ "market_of s"]) simp
qed

end
