(* ===== verification/Exchange_Isolation.thy ===== *)
theory Exchange_Isolation
  imports Exchange_Properties
begin

text \<open>
  The instruments do not influence each other: in a run of the exchange, what is published for the messages
  of one symbol, and the engine of that symbol at the end, are those of an exchange that receives these
  messages alone, and of a single engine that runs their events.
\<close>

fun about :: "string \<Rightarrow> timed_message \<Rightarrow> bool" where
  "about sy (now, ts, msg) = (msg_symbol msg = sy)"

fun timed_event :: "timed_message \<Rightarrow> order_event" where
  "timed_event (now, ts, msg) = message_event now msg"

text \<open>The event lists of a run that belong to the messages of one symbol.\<close>

definition published_for :: "string \<Rightarrow> timed_message list \<Rightarrow> exchange_event list list \<Rightarrow> exchange_event list list" where
  "published_for sy ms evss = map snd (filter (\<lambda>(m, evs). about sy m) (zip ms evss))"

definition agree_on :: "string \<Rightarrow> exchange \<Rightarrow> exchange \<Rightarrow> bool" where
  "agree_on sy ex ex' \<longleftrightarrow> instruments_ok ex \<and> instruments_ok ex' \<and> engine_of sy ex' = engine_of sy ex"

lemma process_keeps:
  assumes "instruments_ok ex" and "process now ts msg ex = Inr (evs, ex1)"
  shows "instruments_ok ex1" and "sy \<noteq> msg_symbol msg \<Longrightarrow> engine_of sy ex1 = engine_of sy ex"
proof -
  have "instruments_ok ex1 \<and> (sy \<noteq> msg_symbol msg \<longrightarrow> engine_of sy ex1 = engine_of sy ex)"
  proof (cases "engine_of (msg_symbol msg) ex")
    case None
    then show ?thesis using assms process_unknown [OF assms(1) None, of now ts] by simp
  next
    case (Some s)
    show ?thesis by (rule process_result [OF assms(1) Some assms(2)]) auto
  qed
  then show "instruments_ok ex1" "sy \<noteq> msg_symbol msg \<Longrightarrow> engine_of sy ex1 = engine_of sy ex" by simp_all
qed

lemma process_other:
  assumes "agree_on sy ex ex'" and "msg_symbol msg \<noteq> sy" and "process now ts msg ex = Inr (evs, ex1)"
  shows "agree_on sy ex1 ex'"
  using assms process_keeps [OF _ assms(3)] by (auto simp: agree_on_def)

lemma process_same:
  assumes ag: "agree_on (msg_symbol msg) ex ex'" and run: "process now ts msg ex = Inr (evs, ex1)"
  shows "\<exists>ex1'. process now ts msg ex' = Inr (evs, ex1') \<and> agree_on (msg_symbol msg) ex1 ex1'"
proof -
  have ok: "instruments_ok ex" "instruments_ok ex'" using ag by (simp_all add: agree_on_def)
  show ?thesis
  proof (cases "engine_of (msg_symbol msg) ex")
    case None
    then have "engine_of (msg_symbol msg) ex' = None" using ag by (simp add: agree_on_def)
    then show ?thesis
      using run ag process_unknown [OF ok(1) None, of now ts] process_unknown [OF ok(2), of msg now ts] by simp
  next
    case (Some s)
    then have s': "engine_of (msg_symbol msg) ex' = Some s" using ag by (simp add: agree_on_def)
    from process_result [OF ok(1) Some run] obtain res s1 where r:
      "submit (message_event now msg) s = Inr (res, s1)" "translate_result ts msg res (book s1) = Inr evs"
      "instruments_ok ex1" "engine_of (msg_symbol msg) ex1 = Some s1" by metis
    from process_runs [OF ok(2) s' r(1,2)] r(3,4) show ?thesis by (auto simp: agree_on_def)
  qed
qed

lemma process_all_about:
  "agree_on sy ex ex' \<Longrightarrow> process_all ms ex = Inr (evss, ex1) \<Longrightarrow>
   \<exists>ex1'. process_all (filter (about sy) ms) ex' = Inr (published_for sy ms evss, ex1') \<and> agree_on sy ex1 ex1'"
proof (induction ms arbitrary: ex ex' evss)
  case Nil
  then show ?case by (simp add: published_for_def)
next
  case (Cons m ms)
  obtain now ts msg where m: "m = (now, ts, msg)" by (cases m)
  from Cons.prems(2) m obtain evs ex2 evss2 where run: "process now ts msg ex = Inr (evs, ex2)"
    "process_all ms ex2 = Inr (evss2, ex1)" "evss = evs # evss2" by (auto simp: bind_res_Inr_iff)
  show ?case
  proof (cases "msg_symbol msg = sy")
    case True
    from process_same [of msg ex ex'] Cons.prems(1) run(1) True obtain ex2'
      where p: "process now ts msg ex' = Inr (evs, ex2')" "agree_on sy ex2 ex2'" by blast
    from Cons.IH [OF p(2) run(2)] p(1) show ?thesis
      using True by (auto simp: m run(3) published_for_def)
  next
    case False
    from Cons.IH [OF process_other [OF Cons.prems(1) False run(1)] run(2)] show ?thesis
      using False by (simp add: m run(3) published_for_def)
  qed
qed

lemma process_all_unknown:
  "instruments_ok ex \<Longrightarrow> process_all ms ex = Inr (evss, ex1) \<Longrightarrow> engine_of sy ex = None \<Longrightarrow> engine_of sy ex1 = None"
proof (induction ms arbitrary: ex evss)
  case (Cons m ms)
  obtain now ts msg where m: "m = (now, ts, msg)" by (cases m)
  from Cons.prems(2) m obtain evs ex2 evss2 where run: "process now ts msg ex = Inr (evs, ex2)"
    "process_all ms ex2 = Inr (evss2, ex1)" by (auto simp: bind_res_Inr_iff)
  have "engine_of sy ex2 = None"
    using process_keeps(2) [OF Cons.prems(1) run(1), of sy] process_unknown [OF Cons.prems(1), of msg now ts] run(1) Cons.prems(3)
    by (cases "sy = msg_symbol msg") auto
  with Cons.IH [OF process_keeps(1) [OF Cons.prems(1) run(1)] run(2)] show ?case .
qed simp

lemma process_all_engine:
  "instruments_ok ex \<Longrightarrow> engine_of sy ex = Some s \<Longrightarrow> process_all ms ex = Inr (evss, ex1) \<Longrightarrow>
   \<exists>rs s1. run_events (map timed_event (filter (about sy) ms)) s = Inr (rs, s1) \<and> engine_of sy ex1 = Some s1"
proof (induction ms arbitrary: ex s evss)
  case Nil
  then show ?case by simp
next
  case (Cons m ms)
  obtain now ts msg where m: "m = (now, ts, msg)" by (cases m)
  from Cons.prems(3) m obtain evs ex2 evss2 where run: "process now ts msg ex = Inr (evs, ex2)"
    "process_all ms ex2 = Inr (evss2, ex1)" by (auto simp: bind_res_Inr_iff)
  note k = process_keeps [OF Cons.prems(1) run(1)]
  show ?case
  proof (cases "msg_symbol msg = sy")
    case True
    from process_result [OF Cons.prems(1) Cons.prems(2) [folded True] run(1)] obtain res s2
      where "submit (message_event now msg) s = Inr (res, s2)" "engine_of sy ex2 = Some s2" using True by metis
    moreover from Cons.IH [OF k(1) this(2) run(2)] obtain rs s1
      where "run_events (map timed_event (filter (about sy) ms)) s2 = Inr (rs, s1)" "engine_of sy ex1 = Some s1" by blast
    ultimately show ?thesis using True by (simp add: m)
  next
    case False
    then have "engine_of sy ex2 = Some s" using k(2) [of sy] Cons.prems(2) by simp
    from Cons.IH [OF k(1) this run(2)] False show ?thesis by (simp add: m)
  qed
qed

text \<open>
  C24. Instruments are isolated: for every list of messages with unused ids and non-negative prices, the
  event lists published for the messages of one symbol are exactly those that the exchange publishes when
  it receives these messages alone; the engine of the symbol ends in the same state, which is the state a
  single engine reaches on their events.
\<close>
theorem instruments_isolated:
  assumes "orderly (\<lambda>_. {}) (messages ms)"
  shows "\<exists>evss ex. process_all ms (new_exchange cfg) = Inr (evss, ex) \<and>
    (\<forall>sy. \<exists>ex'. process_all (filter (about sy) ms) (new_exchange cfg) = Inr (published_for sy ms evss, ex') \<and>
       engine_of sy ex' = engine_of sy ex \<and>
       (has_symbol sy ex \<longrightarrow> (\<exists>rs s. run_events (map timed_event (filter (about sy) ms)) (new_engine cfg) = Inr (rs, s) \<and>
          engine_of sy ex = Some s)))"
proof -
  note new = exchange_ok_new [of cfg]
  from process_all_ok [OF new assms] obtain evss ex where run: "process_all ms (new_exchange cfg) = Inr (evss, ex)"
    and ok: "instruments_ok ex" by (auto simp: exchange_ok_def)
  have ok0: "instruments_ok (new_exchange cfg)" by (rule instruments_ok_new)
  have "\<exists>ex'. process_all (filter (about sy) ms) (new_exchange cfg) = Inr (published_for sy ms evss, ex') \<and> agree_on sy ex ex'" for sy
    by (rule process_all_about [OF _ run]) (simp add: agree_on_def ok0)
  moreover have "\<exists>rs s. run_events (map timed_event (filter (about sy) ms)) (new_engine cfg) = Inr (rs, s) \<and> engine_of sy ex = Some s"
    if h: "has_symbol sy ex" for sy
  proof -
    have "engine_of sy (new_exchange cfg) \<noteq> None"
      using process_all_unknown [OF ok0 run] h has_symbol_engine [OF ok] by blast
    then have "engine_of sy (new_exchange cfg) = Some (new_engine cfg)" by (auto simp: engine_of_new split: if_splits)
    from process_all_engine [OF ok0 this run] show ?thesis .
  qed
  ultimately show ?thesis using run by (fastforce simp: agree_on_def)
qed

text \<open>Two symbols interleaved: the trade of \<open>STOCK_2\<close> does not depend on the order of \<open>STOCK_1\<close>.\<close>

definition ex_note :: "string \<Rightarrow> order_id \<Rightarrow> side \<Rightarrow> order_message" where
  "ex_note sy i sd = default_message\<lparr> msg_symbol := sy, msg_order_id := i, msg_side := sd, msg_price := 100, msg_quantity := 5 \<rparr>"

definition ex_mixed :: "timed_message list" where
  "ex_mixed = [(1, 1, ex_note ''STOCK_2'' 1 Sell), (2, 2, ex_note ''STOCK_1'' 1 Buy), (3, 3, ex_note ''STOCK_2'' 2 Buy)]"

theorem instruments_isolated_witness:
  "\<exists>evss ex ex'. process_all ex_mixed (new_exchange default_config) = Inr (evss, ex) \<and>
    process_all [(1, 1, ex_note ''STOCK_2'' 1 Sell), (3, 3, ex_note ''STOCK_2'' 2 Buy)] (new_exchange default_config) =
      Inr (published_for ''STOCK_2'' ex_mixed evss, ex') \<and> engine_of ''STOCK_2'' ex' = engine_of ''STOCK_2'' ex"
proof -
  have "orderly (\<lambda>_. {}) (messages ex_mixed)"
    by (simp add: ex_mixed_def ex_note_def message_ok_def use_id_def tick_price_def default_message_def)
  from instruments_isolated [OF this, of default_config] obtain evss ex where
    r: "process_all ex_mixed (new_exchange default_config) = Inr (evss, ex)"
    and f: "\<And>sy. \<exists>ex'. process_all (filter (about sy) ex_mixed) (new_exchange default_config) =
      Inr (published_for sy ex_mixed evss, ex') \<and> engine_of sy ex' = engine_of sy ex" by blast
  have "filter (about ''STOCK_2'') ex_mixed = [(1, 1, ex_note ''STOCK_2'' 1 Sell), (3, 3, ex_note ''STOCK_2'' 2 Buy)]"
    by (simp add: ex_mixed_def ex_note_def)
  with r f [of "''STOCK_2''"] show ?thesis by auto
qed

end
