(* ===== verification/Exchange_Market.thy ===== *)
theory Exchange_Market
  imports Stop_Cascade Exchange_Isolation
begin

text \<open>
  The exchange as a venue: one market per symbol. Each message becomes an event of the market of its symbol,
  \<open>reacts\<close> (\<^verbatim>\<open>Stop_Cascade\<close>) says what this market does, and \<open>answer\<close> what is published, with the best prices
  read off the ladder. The specification mentions no engine, book, level or index; the exchange computes it.
\<close>

type_synonym venue = "string \<Rightarrow> market option"

definition markets_of :: "exchange \<Rightarrow> venue" where
  "markets_of ex = (\<lambda>sy. map_option market_of (engine_of sy ex))"

definition top_price :: "order list list \<Rightarrow> price option" where
  "top_price d = (case d of (p # ps) # d1 \<Rightarrow> Some (ord_price p) | _ \<Rightarrow> None)"

definition top_of_book :: "timestamp \<Rightarrow> order_message \<Rightarrow> ladder \<Rightarrow> exchange_event" where
  "top_of_book ts msg L = (let bid = top_price (L Buy); ask = top_price (L Sell) in
     BookUpdated \<lparr> upd_timestamp = ts, upd_symbol = msg_symbol msg,
       upd_best_bid = value_or_0 bid, upd_best_ask = value_or_0 ask,
       upd_spread = (if bid = None \<or> ask = None then 0 else the ask - the bid),
       upd_bid_levels = length (L Buy), upd_ask_levels = length (L Sell) \<rparr>)"

definition answer :: "timestamp \<Rightarrow> order_message \<Rightarrow> match_result \<Rightarrow> market \<Rightarrow> exchange_event list" where
  "answer ts msg r M = map (rejected_event ts msg) (rejections r)
     @ map (canceled_event ts msg) (filter (\<lambda>rep. rep_status rep = Cancelled) (reports r))
     @ map (executed_event ts msg) (trades r)
     @ (if msg_action msg = NewOrder \<and> rejections r = [] then [accepted_event ts msg] else [])
     @ [top_of_book ts msg (ladder M)]"

fun handles :: "timed_message list \<Rightarrow> venue \<Rightarrow> exchange_event list list \<Rightarrow> venue \<Rightarrow> bool" where
  "handles [] V evss V1 = (evss = [] \<and> V1 = V)"
| "handles ((now, ts, msg) # ms) V evss V2 = (case V (msg_symbol msg) of
     None \<Rightarrow> (\<exists>evss1. evss = [] # evss1 \<and> handles ms V evss1 V2)
   | Some M \<Rightarrow> (\<exists>r M1 evss1. evss = answer ts msg r M1 # evss1 \<and> reacts (message_event now msg) M r M1 \<and>
       handles ms (V(msg_symbol msg \<mapsto> M1)) evss1 V2))"

definition opening_venue :: venue where
  "opening_venue = (\<lambda>sy. if sy \<in> set (map symbol_name [1..<kInstrumentCount + 1]) then Some empty_market else None)"

section \<open>One message\<close>

lemma top_price_book:
  assumes "book_ok b"
  shows "top_price (ladder_of b Buy) = best_bid b" and "top_price (ladder_of b Sell) = best_ask b"
proof -
  have "top_price (depth sd b) = (case side_levels sd b of [] \<Rightarrow> None | (p, l) # m \<Rightarrow> Some p)" for sd
  proof (cases "side_levels sd b")
    case Nil
    then show ?thesis by (simp add: top_price_def depth_def queues_def)
  next
    case (Cons e m)
    obtain pr l where e: "e = (pr, l)" by fastforce
    from depth_front [OF assms Cons [unfolded e]] obtain p ps d where "depth sd b = (p # ps) # d" "ord_price p = pr" .
    then show ?thesis by (simp add: top_price_def Cons e)
  qed
  from this [of Buy] this [of Sell] show "top_price (ladder_of b Buy) = best_bid b" "top_price (ladder_of b Sell) = best_ask b"
    by (simp_all add: ladder_of_def best_bid_def best_ask_def)
qed

lemma ladder_counts:
  "length (ladder_of b Buy) = bid_level_count b" "length (ladder_of b Sell) = ask_level_count b"
  by (simp_all add: ladder_of_def depth_def queues_def bid_level_count_def ask_level_count_def)

lemma updated_top:
  assumes "book_ok b" and "updated_event ts msg b = Inr e"
  shows "e = top_of_book ts msg (ladder_of b)"
proof -
  from assms(2) obtain sp where "spread b = Inr sp"
    and e: "e = BookUpdated \<lparr> upd_timestamp = ts, upd_symbol = msg_symbol msg, upd_best_bid = value_or_0 (best_bid b),
      upd_best_ask = value_or_0 (best_ask b), upd_spread = value_or_0 sp, upd_bid_levels = bid_level_count b,
      upd_ask_levels = ask_level_count b \<rparr>"
    unfolding updated_event_def bind_res_Inr_iff by blast
  then have "value_or_0 sp = (if best_bid b = None \<or> best_ask b = None then 0 else the (best_ask b) - the (best_bid b))"
    by (cases "best_bid b"; cases "best_ask b") (auto simp: spread_def value_or_0_def split: if_splits)
  then show ?thesis unfolding e top_of_book_def by (simp only: Let_def top_price_book [OF assms(1)] ladder_counts)
qed

lemma translate_answer:
  assumes "book_ok (book s)" and "translate_result ts msg r (book s) = Inr evs"
  shows "evs = answer ts msg r (market_of s)"
proof -
  from assms(2) obtain e where e: "updated_event ts msg (book s) = Inr e" by (auto simp: translate_result_def bind_res_Inr_iff)
  from updated_top [OF assms(1) e] have "e = top_of_book ts msg (ladder (market_of s))" by (simp add: market_of_def)
  then show ?thesis using assms(2) by (simp add: translate_result_def e answer_def)
qed

lemma message_event_ok:
  assumes "history_ok (used (msg_symbol msg)) [] s" and "message_ok used msg"
  shows "event_ok (message_event now msg) s"
  using history_event_ok [OF assms(1)] assms(2) by (cases "msg_action msg") (simp_all add: message_event_def message_ok_def)

lemma process_handles:
  assumes ok: "exchange_ok used ex" and m: "message_ok used msg" and s: "engine_of (msg_symbol msg) ex = Some s"
    and run: "process now ts msg ex = Inr (evs, ex1)"
  shows "\<exists>r M1. evs = answer ts msg r M1 \<and> reacts (message_event now msg) (market_of s) r M1 \<and>
    markets_of ex1 = (markets_of ex)(msg_symbol msg \<mapsto> M1)"
proof -
  have ins: "instruments_ok ex" and h: "history_ok (used (msg_symbol msg)) [] s"
    using ok s by (simp_all add: exchange_ok_def)
  have e: "engine_ok s" using h by (simp add: history_ok_def engine_ok_def)
  have ev: "event_ok (message_event now msg) s" by (rule message_event_ok [OF h m])
  from process_result [OF ins s run] obtain r s1 where r: "submit (message_event now msg) s = Inr (r, s1)"
    "translate_result ts msg r (book s1) = Inr evs"
    "\<And>sy. engine_of sy ex1 = (if sy = msg_symbol msg then Some s1 else engine_of sy ex)" by blast
  have "engine_ok s1" using submit_returns [OF e ev] r(1) by auto
  from translate_answer [OF engine_okD(1) [OF this] r(2)] have "evs = answer ts msg r (market_of s1)" .
  moreover have "markets_of ex1 = (markets_of ex)(msg_symbol msg \<mapsto> market_of s1)"
    by (auto simp: markets_of_def r(3) fun_eq_iff)
  ultimately show ?thesis using event_reacts [OF e ev r(1)] by blast
qed

section \<open>Runs\<close>

lemma exchange_handles:
  "exchange_ok used ex \<Longrightarrow> orderly used (messages ms) \<Longrightarrow> process_all ms ex = Inr (evss, ex1) \<Longrightarrow>
   handles ms (markets_of ex) evss (markets_of ex1)"
proof (induction ms arbitrary: used ex evss)
  case Nil
  then show ?case by simp
next
  case (Cons m ms)
  obtain now ts msg where m: "m = (now, ts, msg)" by (cases m)
  have ok: "message_ok used msg" "orderly (use_id msg used) (messages ms)" using Cons.prems(2) m by simp_all
  from Cons.prems(3) m obtain evs ex2 evss2 where run: "process now ts msg ex = Inr (evs, ex2)"
    "process_all ms ex2 = Inr (evss2, ex1)" "evss = evs # evss2" by (auto simp: bind_res_Inr_iff)
  have "exchange_ok (use_id msg used) ex2" using process_ok [OF Cons.prems(1) ok(1), of now ts] run(1) by auto
  from Cons.IH [OF this ok(2) run(2)] have rest: "handles ms (markets_of ex2) evss2 (markets_of ex1)" .
  show ?case
  proof (cases "engine_of (msg_symbol msg) ex")
    case None
    then have "evs = []" "ex2 = ex" using run(1) process_unknown [of ex msg now ts] Cons.prems(1) by (simp_all add: exchange_ok_def)
    then show ?thesis using rest None by (simp add: m run(3) markets_of_def)
  next
    case (Some s)
    then have "markets_of ex (msg_symbol msg) = Some (market_of s)" by (simp add: markets_of_def)
    moreover from process_handles [OF Cons.prems(1) ok(1) Some run(1)] rest obtain r M1 where "evs = answer ts msg r M1"
      "reacts (message_event now msg) (market_of s) r M1" "handles ms ((markets_of ex)(msg_symbol msg \<mapsto> M1)) evss2 (markets_of ex1)"
      by metis
    ultimately show ?thesis by (simp add: m run(3)) blast
  qed
qed

lemma handles_deterministic: "handles ms V evss V1 \<Longrightarrow> handles ms V evss' V1' \<Longrightarrow> evss' = evss \<and> V1' = V1"
proof (induction ms arbitrary: V evss evss')
  case (Cons m ms)
  obtain now ts msg where m: "m = (now, ts, msg)" by (cases m)
  show ?case
  proof (cases "V (msg_symbol msg)")
    case None
    then show ?thesis using Cons by (auto simp: m)
  next
    case (Some M)
    from Cons.prems Some m obtain r M1 es r' M1' es' where
      a: "evss = answer ts msg r M1 # es" "reacts (message_event now msg) M r M1" "handles ms (V(msg_symbol msg \<mapsto> M1)) es V1" and
      b: "evss' = answer ts msg r' M1' # es'" "reacts (message_event now msg) M r' M1'" "handles ms (V(msg_symbol msg \<mapsto> M1')) es' V1'"
      by auto
    from reacts_deterministic [OF a(2) b(2)] have "r' = r" "M1' = M1" by simp_all
    with Cons.IH [OF a(3)] a(1) b(1,3) show ?thesis by blast
  qed
qed simp

lemma markets_of_new: "markets_of (new_exchange cfg) = opening_venue"
proof -
  have "(\<exists>i. 1 \<le> i \<and> i \<le> kInstrumentCount \<and> sy = symbol_name i) \<longleftrightarrow> sy \<in> set (map symbol_name [1..<kInstrumentCount + 1])" for sy
    by (auto simp del: upt_rec_numeral)
  then show ?thesis by (simp add: markets_of_def engine_of_new opening_venue_def market_of_new fun_eq_iff del: upt_Suc)
qed

lemma venue_run:
  assumes "orderly (\<lambda>_. {}) (messages ms)"
  shows "\<exists>evss ex. process_all ms (new_exchange cfg) = Inr (evss, ex) \<and>
    (\<forall>evss' V. handles ms opening_venue evss' V \<longleftrightarrow> evss' = evss \<and> V = markets_of ex)"
proof -
  from process_all_ok [OF exchange_ok_new assms] obtain evss ex
    where run: "process_all ms (new_exchange cfg) = Inr (evss, ex)" by blast
  from exchange_handles [OF exchange_ok_new assms run] have "handles ms opening_venue evss (markets_of ex)" by (simp add: markets_of_new)
  with run handles_deterministic show ?thesis by metis
qed

text \<open>
  C3. The exchange implements the venue: for every list of messages with unused ids and non-negative prices, new
  orders of every type and cancels, for known and unknown symbols, the exchange processes all of them, and the
  events published for each message and the final markets of all symbols are the one outcome that the venue allows.
\<close>
theorem exchange_implements_venue:
  assumes "orderly (\<lambda>_. {}) (messages ms)"
  shows "\<exists>evss ex. process_all ms (new_exchange cfg) = Inr (evss, ex) \<and>
    (\<forall>evss' V. handles ms opening_venue evss' V \<longleftrightarrow> evss' = evss \<and> V = markets_of ex)"
  by (rule venue_run [OF assms])

theorem exchange_implements_venue_witness:
  "\<exists>evss V. handles ex_mixed opening_venue evss V \<and> map length evss = [2, 2, 3] \<and>
     (case last evss of [TradeExecuted e, OrderAccepted a, BookUpdated u] \<Rightarrow> exe_buy_order_id e = 2 \<and> exe_sell_order_id e = 1 \<and>
        exe_quantity e = 5 \<and> acc_order_id a = 2 \<and> upd_bid_levels u = 0 \<and> upd_ask_levels u = 0 | _ \<Rightarrow> False)"
proof -
  have "orderly (\<lambda>_. {}) (messages ex_mixed)"
    by (simp add: ex_mixed_def ex_note_def message_ok_def use_id_def tick_price_def default_message_def)
  from exchange_implements_venue [OF this, of default_config] obtain evss ex where
    r: "process_all ex_mixed (new_exchange default_config) = Inr (evss, ex)" "handles ex_mixed opening_venue evss (markets_of ex)" by blast
  have "case process_all ex_mixed (new_exchange default_config) of Inl f \<Rightarrow> False | Inr (evss, ex) \<Rightarrow> map length evss = [2, 2, 3] \<and>
     (case last evss of [TradeExecuted e, OrderAccepted a, BookUpdated u] \<Rightarrow> exe_buy_order_id e = 2 \<and> exe_sell_order_id e = 1 \<and>
        exe_quantity e = 5 \<and> acc_order_id a = 2 \<and> upd_bid_levels u = 0 \<and> upd_ask_levels u = 0 | _ \<Rightarrow> False)" by code_simp
  with r show ?thesis by (intro exI [of _ evss] exI [of _ "markets_of ex"]) simp
qed

end
