(* ===== verification/Exchange_Program.thy ===== *)
theory Exchange_Program
  imports Exchange_Startup Exchange_Market
begin

text \<open>
  The exchange program from its arguments to its return (\<^verbatim>\<open>src/exchange_main.cpp\<close>): it starts the gateway,
  waits until the signal handler has set the flag, and stops the gateway. The four threads of the
  gateway run beside it. The wait polls the flag; a poll that finds it clear changes nothing and is not a step.
  What the program prints on standard output is part of its state, one string per line; what it prints on standard
  error when its arguments end it comes with the exit code.
\<close>

datatype main_phase = Waiting | Joining | Returned

record program =
  prog_gateway :: gateway
  prog_shutdown :: bool
  prog_phase :: main_phase
  prog_output :: "string list"

text \<open>The lines that \<open>main\<close> and the gateway print; the dots in the first are a UTF-8 ellipsis.\<close>

definition init_line :: string where
  "init_line = ''[lob-exchange] Initializing exchange with '' @ show_nat kInstrumentCount @ '' instruments (STOCK_1''
     @ [CHR 0xE2, CHR 0x80, CHR 0xA6] @ ''STOCK_'' @ show_nat kInstrumentCount @ '')''"

definition start_lines :: "gateway_config \<Rightarrow> string list" where
  "start_lines cfg = [''[lob-exchange] Running'', ''  PULL  : '' @ pull_endpoint cfg, ''  PUB   : '' @ pub_endpoint cfg,
     ''  Snap  : every '' @ show_nat (unat (snapshot_interval_ms cfg)) @ '' ms'', ''  Replay: '' @ replay_log_path cfg]"

definition stop_line :: "gateway \<Rightarrow> string" where
  "stop_line g = ''[lob-exchange] Stopped. inbound_drops='' @ show_nat (unat (gw_inbound_drops g))
     @ '' pub_drops='' @ show_nat (unat (dsp_drops (gw_dispatcher g)))
     @ '' replay_drops='' @ show_nat (unat (rpl_drops (gw_replay g)))"

definition exchange_usage :: "string \<Rightarrow> string list" where
  "exchange_usage prog = [''Usage: '' @ prog @ '' [OPTIONS]'', [], ''Options:'',
     ''  --pull <endpoint>          ZMQ PULL endpoint (default: tcp://*:5555)'',
     ''  --pub  <endpoint>          ZMQ PUB  endpoint (default: tcp://*:5556)'',
     ''  --snapshot-interval <ms>   Snapshot interval ms (default: 100)'',
     ''  --log-path <path>          Replay log path (default: logs/replay.ndjson)'', [],
     ''Instruments: STOCK_1 '' @ [CHR 0xE2, CHR 0x80, CHR 0xA6] @ '' STOCK_25'']"

text \<open>
  How the program gets to its wait: an early exit code with the lines on standard error, an exception that leaves
  \<open>main\<close>, or running. \<open>prog\<close> is the name of the program.
\<close>

datatype launch = Exits nat "string list" | Escapes "number_error + string" | Runs program

definition exchange_launch :: "bool \<Rightarrow> bool \<Rightarrow> string \<Rightarrow> string list \<Rightarrow> launch" where
  "exchange_launch pull_ok pub_ok prog args = (case exchange_args args default_gateway_config of
     Help \<Rightarrow> Exits 0 (exchange_usage prog)
   | Unknown_argument a \<Rightarrow> Exits 1 ((''Unknown argument: '' @ a) # exchange_usage prog)
   | Throws e \<Rightarrow> Escapes (Inl e)
   | Run_exchange cfg \<Rightarrow> (case gateway_start pull_ok pub_ok (new_gateway cfg) of
       Inl msg \<Rightarrow> Escapes (Inr msg)
     | Inr g \<Rightarrow> Runs \<lparr> prog_gateway = g, prog_shutdown = False, prog_phase = Waiting,
         prog_output = init_line # start_lines cfg \<rparr>))"

text \<open>The steps of the gateway that belong to its four threads: those that neither call \<open>stop\<close> nor finish it.\<close>

definition thread_step :: "'j json_lib \<Rightarrow> gateway \<Rightarrow> gateway \<Rightarrow> bool" where
  "thread_step lib g g1 \<longleftrightarrow> gw_step lib g g1 \<and> gw_running g1 = gw_running g \<and>
     dsp_running (gw_dispatcher g1) = dsp_running (gw_dispatcher g) \<and> rpl_running (gw_replay g1) = rpl_running (gw_replay g)"

definition signal_handler :: "program \<Rightarrow> program" where
  "signal_handler p = p\<lparr> prog_shutdown := True \<rparr>"

inductive main_step :: "'j json_lib \<Rightarrow> program \<Rightarrow> program \<Rightarrow> bool" for lib where
  handle: "prog_phase p \<noteq> Returned \<Longrightarrow> main_step lib p (signal_handler p)"
| threads: "prog_phase p \<noteq> Returned \<Longrightarrow> thread_step lib (prog_gateway p) g \<Longrightarrow>
     main_step lib p (p\<lparr> prog_gateway := g \<rparr>)"
| leave: "prog_phase p = Waiting \<Longrightarrow> prog_shutdown p \<Longrightarrow>
     main_step lib p (p\<lparr> prog_phase := Joining, prog_gateway := (prog_gateway p)\<lparr> gw_running := False \<rparr>,
       prog_output := prog_output p @ [[], ''[lob-exchange] Shutdown signal received.''] \<rparr>)"
| return: "prog_phase p = Joining \<Longrightarrow> gw_receiver (prog_gateway p) = R_exit \<Longrightarrow> gw_exchanger (prog_gateway p) = X_exit \<Longrightarrow>
     gateway_finish lib (prog_gateway p) = Inr g \<Longrightarrow>
     main_step lib p (p\<lparr> prog_phase := Returned, prog_gateway := g, prog_output := prog_output p @ [stop_line g] \<rparr>)"

abbreviation main_reach :: "'j json_lib \<Rightarrow> program \<Rightarrow> program \<Rightarrow> bool" where
  "main_reach lib \<equiv> (main_step lib)\<^sup>*\<^sup>*"

section \<open>The program uses the gateway as it may\<close>

lemma main_step_gateway:
  assumes "main_step lib p p1"
  shows "gw_reach lib (prog_gateway p) (prog_gateway p1)"
  using assms
proof cases
  case handle
  then show ?thesis by (simp add: signal_handler_def)
next
  case (threads g)
  then show ?thesis by (auto simp: thread_step_def)
next
  case leave
  then show ?thesis using gw_step.stop [of lib "prog_gateway p"] by auto
next
  case (return g)
  then show ?thesis using gw_step.join [of "prog_gateway p" lib g] by auto
qed

lemma main_reach_gateway: "main_reach lib p p1 \<Longrightarrow> gw_reach lib (prog_gateway p) (prog_gateway p1)"
  by (induction rule: rtranclp_induct) (auto dest: main_step_gateway)

text \<open>What the phase says about the gateway.\<close>

definition phase_ok :: "'j json_lib \<Rightarrow> program \<Rightarrow> bool" where
  "phase_ok lib p \<longleftrightarrow> gw_receiver (prog_gateway p) \<noteq> R_off \<and> gw_exchanger (prog_gateway p) \<noteq> X_off \<and>
     (case prog_phase p of
        Waiting \<Rightarrow> gw_running (prog_gateway p)
      | Joining \<Rightarrow> prog_shutdown p \<and> \<not> gw_running (prog_gateway p) \<and> dsp_running (gw_dispatcher (prog_gateway p)) \<and>
          rpl_running (gw_replay (prog_gateway p))
      | Returned \<Rightarrow> prog_shutdown p \<and> gw_receiver (prog_gateway p) = R_exit \<and> gw_exchanger (prog_gateway p) = X_exit \<and>
          ring_list (dsp_ring (gw_dispatcher (prog_gateway p))) = [] \<and> ring_list (rpl_ring (gw_replay (prog_gateway p))) = [] \<and>
          last (prog_output p) = stop_line (prog_gateway p))"

lemma gw_step_threads_on:
  assumes "gw_step lib g g1" and inv: "gw_inv lib cfg g" and "gw_receiver g \<noteq> R_off" and "gw_exchanger g \<noteq> X_off"
  shows "gw_receiver g1 \<noteq> R_off \<and> gw_exchanger g1 \<noteq> X_off"
  using assms(1)
proof cases
  case (r_push msg room g2)
  then show ?thesis using inbound_push_inv [OF inv, of msg] assms(4) by (auto simp: same_control_def)
next
  case (x_begin now)
  then show ?thesis using exchange_begin_inv [OF inv x_begin(2)] assms(3) by (auto simp: same_control_def)
next
  case (x_one now ts found)
  then show ?thesis using exchange_one_inv [OF inv x_one(2)] assms(3,4) by (auto simp: same_control_def)
next
  case (x_snap clock t)
  then show ?thesis using snapshot_due_inv [OF inv x_snap(2)] assms(3,4) by (auto simp: same_control_def)
next
  case (x_exit g2)
  then show ?thesis using assms(3) by (auto simp: inbound_pop_def bind_res_Inr_iff)
next
  case join
  then show ?thesis using gateway_finish_inv [OF inv] by auto
qed (use assms(3,4) in simp_all)

lemma phase_ok_step:
  assumes "main_step lib p p1" and inv: "gw_inv lib cfg (prog_gateway p)" "control_ok (prog_gateway p)" and ph: "phase_ok lib p"
  shows "phase_ok lib p1"
  using assms(1)
proof cases
  case handle
  then show ?thesis using ph by (cases "prog_phase p") (simp_all add: phase_ok_def signal_handler_def)
next
  case (threads g)
  then show ?thesis
    using ph gw_step_threads_on [OF _ inv(1), of g]
    by (cases "prog_phase p") (auto simp: phase_ok_def thread_step_def)
next
  case leave
  then show ?thesis using ph inv(2) by (auto simp: phase_ok_def control_ok_def)
next
  case (return g)
  then show ?thesis using ph gateway_finish_inv [OF inv(1)] by (auto simp: phase_ok_def)
qed

lemma launch_ok:
  assumes "exchange_launch True True prog args = Runs p"
  shows "\<exists>cfg. exchange_args args default_gateway_config = Run_exchange cfg \<and> capacities_ok cfg \<and>
    gateway_start True True (new_gateway cfg) = Inr (prog_gateway p) \<and> phase_ok lib p \<and> prog_phase p = Waiting"
proof -
  from assms obtain cfg g where cfg: "exchange_args args default_gateway_config = Run_exchange cfg"
    and st: "gateway_start True True (new_gateway cfg) = Inr g"
    and p: "p = \<lparr> prog_gateway = g, prog_shutdown = False, prog_phase = Waiting, prog_output = init_line # start_lines cfg \<rparr>"
    by (auto simp: exchange_launch_def split: exchange_cmd.splits sum.splits)
  have "phase_ok lib p"
    using st by (auto simp: p phase_ok_def gateway_start_def bind_res_Inr_iff)
  then show ?thesis using cfg st exchange_capacities [OF cfg] p by simp
qed

lemma main_reach_ok:
  assumes "main_reach lib p0 p" and "capacities_ok cfg" and st: "gateway_start True True (new_gateway cfg) = Inr (prog_gateway p0)"
    and "phase_ok lib p0"
  shows "gw_inv lib cfg (prog_gateway p) \<and> control_ok (prog_gateway p) \<and> phase_ok lib p"
  using assms(1)
proof (induction rule: rtranclp_induct)
  case base
  then show ?case using gw_started [OF rtranclp.rtrancl_refl assms(2) st st] assms(4) by simp
next
  case (step p1 p2)
  have "gw_reach lib (prog_gateway p0) (prog_gateway p2)"
    using main_reach_gateway [OF step.hyps(1)] main_step_gateway [OF step.hyps(2)] by (rule rtranclp_trans)
  from gw_started [OF this assms(2) st st] phase_ok_step [OF step.hyps(2)] step.IH show ?case by blast
qed

section \<open>The program can always be stopped\<close>

text \<open>
  The state of a gateway that is shutting down: stopped, with its outbound queues still running. \<open>settling\<close>
  is kept by the steps below, each of which brings one of the two threads closer to its end.
\<close>

definition settling :: "'j json_lib \<Rightarrow> gateway_config \<Rightarrow> gateway \<Rightarrow> bool" where
  "settling lib cfg g \<longleftrightarrow> gw_inv lib cfg g \<and> \<not> gw_running g \<and> dsp_running (gw_dispatcher g) \<and> rpl_running (gw_replay g)"

lemma settling_control: "settling lib cfg g \<Longrightarrow> same_control g g1 \<Longrightarrow> gw_inv lib cfg g1 \<Longrightarrow> settling lib cfg g1"
  by (simp add: settling_def same_control_def)

lemma drain_reach:
  assumes "settling lib cfg g" and "orderly (\<lambda>_. {}) (gw_accepted g)" and "gw_exchanger g = X_drain"
  shows "\<exists>g1. (thread_step lib)\<^sup>*\<^sup>* g g1 \<and> settling lib cfg g1 \<and> gw_exchanger g1 = X_exit \<and> gw_receiver g1 = gw_receiver g \<and>
    gw_accepted g1 = gw_accepted g \<and> messages (gw_processed g1) = gw_accepted g"
  using assms
proof (induction "length (ring_list (gw_inbound g))" arbitrary: g)
  case 0
  then have inv: "gw_inv lib cfg g" and nil: "ring_list (gw_inbound g) = []"
    by (simp_all add: settling_def del: ring_list_length)
  have "gw_step lib g (g\<lparr> gw_exchanger := X_exit \<rparr>)" by (rule gw_step.x_exit [OF 0(4) exchange_one_none(1) [OF inv nil]])
  then have "thread_step lib g (g\<lparr> gw_exchanger := X_exit \<rparr>)" by (simp add: thread_step_def)
  then have "(thread_step lib)\<^sup>*\<^sup>* g (g\<lparr> gw_exchanger := X_exit \<rparr>)" by (rule r_into_rtranclp)
  moreover have "messages (gw_processed g) = gw_accepted g" using inv nil by (simp add: gw_inv_def)
  ultimately show ?case using 0(2) by (intro exI [of _ "g\<lparr> gw_exchanger := X_exit \<rparr>"]) (simp add: settling_def)
next
  case (Suc n)
  then have inv: "gw_inv lib cfg g" by (simp add: settling_def)
  from exchange_one_orderly [OF inv Suc.prems(2), of 0 0] obtain g1 where
    g1: "exchange_one lib 0 0 g = Inr (ring_list (gw_inbound g) \<noteq> [], g1)" "gw_inv lib cfg g1" "same_control g g1"
      "ring_list (gw_inbound g1) = tl (ring_list (gw_inbound g))" by blast
  have "gw_step lib g g1" by (rule gw_step.x_one [OF _ g1(1)]) (simp add: Suc.prems(3))
  then have st: "thread_step lib g g1" using g1(3) by (simp add: thread_step_def same_control_def)
  have "n = length (ring_list (gw_inbound g1))" using Suc.hyps(2) g1(4) by (simp del: ring_list_length)
  from Suc.hyps(1) [OF this settling_control [OF Suc.prems(1) g1(3,2)]] Suc.prems(2,3) g1(3) obtain g2 where
    "(thread_step lib)\<^sup>*\<^sup>* g1 g2" "settling lib cfg g2" "gw_exchanger g2 = X_exit" "gw_receiver g2 = gw_receiver g1"
    "gw_accepted g2 = gw_accepted g1" "messages (gw_processed g2) = gw_accepted g1" by (auto simp: same_control_def)
  then show ?case using st g1(3) by (auto simp: same_control_def intro: converse_rtranclp_into_rtranclp)
qed

text \<open>The snapshot interval, in nanoseconds, fits into a signed 64-bit number.\<close>

definition interval_ok :: "gateway_config \<Rightarrow> bool" where
  "interval_ok cfg \<longleftrightarrow> int64_ok (sint (snapshot_interval_ms cfg) * 1000000)"

lemma loop_leaves:
  assumes "settling lib cfg g" and "orderly (\<lambda>_. {}) (gw_accepted g)" and "gw_exchanger g = X_loop"
  shows "\<exists>g1. (thread_step lib)\<^sup>*\<^sup>* g g1 \<and> settling lib cfg g1 \<and> gw_exchanger g1 = X_exit \<and> gw_receiver g1 = gw_receiver g"
proof -
  let ?g = "g\<lparr> gw_exchanger := X_drain \<rparr>"
  have "gw_step lib g ?g" using assms(1,3) by (intro gw_step.x_leave) (simp_all add: settling_def)
  then have "thread_step lib g ?g" by (simp add: thread_step_def)
  moreover have "settling lib cfg ?g" using assms(1) by (simp add: settling_def)
  ultimately show ?thesis using drain_reach [of lib cfg ?g] assms(2) by (auto intro: converse_rtranclp_into_rtranclp)
qed

lemma exchanger_leaves:
  assumes "settling lib cfg g" and "orderly (\<lambda>_. {}) (gw_accepted g)" and "gw_exchanger g \<noteq> X_off" and "interval_ok (gw_config g)"
  shows "\<exists>g1. (thread_step lib)\<^sup>*\<^sup>* g g1 \<and> settling lib cfg g1 \<and> gw_exchanger g1 = X_exit \<and> gw_receiver g1 = gw_receiver g"
proof (cases "gw_exchanger g")
  case X_start
  from assms(4) obtain g1 where g1: "exchange_begin 0 g = Inr g1"
    by (auto simp: interval_ok_def exchange_begin_def snapshot_time_def Let_def)
  from assms(1) have "gw_inv lib cfg g" by (simp add: settling_def)
  note keep = exchange_begin_inv [OF this g1]
  have "gw_step lib g g1" by (rule gw_step.x_begin [OF X_start g1])
  then have "thread_step lib g g1" using keep by (simp add: thread_step_def same_control_def)
  moreover have "settling lib cfg g1" "gw_accepted g1 = gw_accepted g" "gw_receiver g1 = gw_receiver g"
    using assms(1) keep by (simp_all add: settling_def same_control_def)
  ultimately show ?thesis using loop_leaves [of lib cfg g1] assms(2) keep by (auto intro: converse_rtranclp_into_rtranclp)
next
  case X_loop
  then show ?thesis using loop_leaves [OF assms(1,2)] by blast
next
  case X_drain
  then show ?thesis using drain_reach [OF assms(1,2)] by blast
qed (use assms in auto)

lemma receiver_leaves:
  assumes "settling lib cfg g" and "gw_receiver g \<noteq> R_off"
  shows "\<exists>g1. (thread_step lib)\<^sup>*\<^sup>* g g1 \<and> settling lib cfg g1 \<and> gw_receiver g1 = R_exit \<and> gw_exchanger g1 = gw_exchanger g"
proof -
  have exit: "(thread_step lib)\<^sup>*\<^sup>* g (g\<lparr> gw_receiver := R_exit \<rparr>) \<and> settling lib cfg (g\<lparr> gw_receiver := R_exit \<rparr>)"
    if "settling lib cfg g" "gw_receiver g = R_loop" for g
    using that gw_step.r_exit [of g lib] by (auto simp: settling_def thread_step_def)
  show ?thesis
  proof (cases "gw_receiver g")
    case (R_push msg)
    from assms(1) have "gw_inv lib cfg g" by (simp add: settling_def)
    from inbound_push_inv [OF this, of msg] obtain room g1 where g1: "inbound_push msg g = Inr (room, g1)" "same_control g g1"
      "gw_inv lib cfg (g1\<lparr> gw_accepted := gw_accepted g @ (if room then [msg] else []) \<rparr>)" by blast
    let ?g = "g1\<lparr> gw_receiver := R_loop, gw_accepted := gw_accepted g @ (if room then [msg] else []) \<rparr>"
    have "thread_step lib g ?g" using gw_step.r_push [OF R_push g1(1), of lib] g1(2) by (simp add: thread_step_def same_control_def)
    moreover have "settling lib cfg ?g" using assms(1) g1(2,3) by (simp add: settling_def same_control_def)
    ultimately show ?thesis using exit [of ?g] g1(2)
      by (auto simp: same_control_def intro!: exI [of _ "?g\<lparr> gw_receiver := R_exit \<rparr>"] intro: converse_rtranclp_into_rtranclp)
  next
    case R_loop
    then show ?thesis using exit [OF assms(1)] by (intro exI [of _ "g\<lparr> gw_receiver := R_exit \<rparr>"]) simp
  qed (use assms in auto)
qed

lemma threads_reach:
  "(thread_step lib)\<^sup>*\<^sup>* (prog_gateway p) g \<Longrightarrow> prog_phase p \<noteq> Returned \<Longrightarrow> main_reach lib p (p\<lparr> prog_gateway := g \<rparr>)"
proof (induction rule: rtranclp_induct)
  case (step g1 g2)
  then have "main_step lib (p\<lparr> prog_gateway := g1 \<rparr>) (p\<lparr> prog_gateway := g2 \<rparr>)"
    using main_step.threads [of "p\<lparr> prog_gateway := g1 \<rparr>" lib g2] by simp
  with step show ?case by (simp add: rtranclp.rtrancl_into_rtrancl)
qed simp

lemma joining_returns:
  assumes "settling lib cfg (prog_gateway p)" and "orderly (\<lambda>_. {}) (gw_accepted (prog_gateway p))" and "prog_phase p = Joining"
    and "gw_receiver (prog_gateway p) \<noteq> R_off" and "gw_exchanger (prog_gateway p) \<noteq> X_off" and "interval_ok (gw_config (prog_gateway p))"
  shows "\<exists>p1. main_reach lib p p1 \<and> prog_phase p1 = Returned"
proof -
  from exchanger_leaves [OF assms(1,2,5,6)] obtain g1 where g1: "(thread_step lib)\<^sup>*\<^sup>* (prog_gateway p) g1" "settling lib cfg g1"
    "gw_exchanger g1 = X_exit" "gw_receiver g1 = gw_receiver (prog_gateway p)" by blast
  from receiver_leaves [OF g1(2)] g1(4) assms(4) obtain g2 where g2: "(thread_step lib)\<^sup>*\<^sup>* g1 g2" "settling lib cfg g2"
    "gw_receiver g2 = R_exit" "gw_exchanger g2 = gw_exchanger g1" by auto
  have reach: "main_reach lib p (p\<lparr> prog_gateway := g2 \<rparr>)" using g1(1) g2(1) assms(3) by (intro threads_reach) simp_all
  from gateway_finish_inv [of lib cfg g2] g2(2) obtain g3 where "gateway_finish lib g2 = Inr g3" by (auto simp: settling_def)
  with main_step.return [of "p\<lparr> prog_gateway := g2 \<rparr>" lib g3] g1(3) g2(3,4) assms(3)
  have "\<exists>p1. main_step lib (p\<lparr> prog_gateway := g2 \<rparr>) p1 \<and> prog_phase p1 = Returned" by auto
  with reach show ?thesis by (blast intro: rtranclp.rtrancl_into_rtrancl)
qed

lemma program_returns:
  assumes inv: "gw_inv lib cfg (prog_gateway p)" "control_ok (prog_gateway p)" and ph: "phase_ok lib p"
    and ord: "orderly (\<lambda>_. {}) (gw_accepted (prog_gateway p))" "interval_ok (gw_config (prog_gateway p))"
  shows "\<exists>p1. main_reach lib p p1 \<and> prog_phase p1 = Returned"
proof (cases "prog_phase p")
  case Waiting
  let ?p = "signal_handler p"
  let ?p2 = "?p\<lparr> prog_phase := Joining, prog_gateway := (prog_gateway ?p)\<lparr> gw_running := False \<rparr>,
    prog_output := prog_output ?p @ [[], ''[lob-exchange] Shutdown signal received.''] \<rparr>"
  have "main_step lib p ?p" by (rule main_step.handle) (simp add: Waiting)
  moreover have "main_step lib ?p ?p2" by (rule main_step.leave) (simp_all add: signal_handler_def Waiting)
  moreover have "\<exists>p1. main_reach lib ?p2 p1 \<and> prog_phase p1 = Returned"
    using ph inv ord Waiting by (intro joining_returns) (auto simp: settling_def signal_handler_def phase_ok_def control_ok_def)
  ultimately show ?thesis by (meson converse_rtranclp_into_rtranclp)
next
  case Joining
  then show ?thesis using ph inv ord by (intro joining_returns) (auto simp: settling_def phase_ok_def)
qed blast

lemma outputs_complete:
  assumes inv: "gw_inv lib cfg g" and q: "ring_list (dsp_ring (gw_dispatcher g)) = []" "ring_list (rpl_ring (gw_replay g)) = []"
    and small: "length (gw_events g) < 2 ^ 64"
  shows "dsp_drops (gw_dispatcher g) = 0 \<Longrightarrow> dsp_sent (gw_dispatcher g) = map (serialize_event lib) (gw_events g)"
    and "rpl_drops (gw_replay g) = 0 \<Longrightarrow> rpl_file (gw_replay g) = file_lines (map (serialize_event lib) (gw_events g))"
proof -
  show "dsp_drops (gw_dispatcher g) = 0 \<Longrightarrow> dsp_sent (gw_dispatcher g) = map (serialize_event lib) (gw_events g)"
    using flows_complete [of "serialize_event lib" "gw_events g" "dsp_sent (gw_dispatcher g)" "[]"] inv q(1) small
    by (simp add: gw_inv_def dispatcher_ok_def)
  show "rpl_drops (gw_replay g) = 0 \<Longrightarrow> rpl_file (gw_replay g) = file_lines (map (serialize_event lib) (gw_events g))"
    using flows_complete [of id "map (serialize_event lib) (gw_events g)" _ "[]"] inv q(2) small
    by (fastforce simp: gw_inv_def replay_ok_def)
qed



end
