(* ===== verification/Event_Log.thy ===== *)
theory Event_Log
  imports Gateway_Properties Text_Input
begin

text \<open>
  What can be read back from the published lines and from the replay log. The serializer loses nothing: a line
  determines its event, and the file of the replay log its list of events, as long as the numbers of the events fit
  their types and the symbols are plain text, which is so for every event of the exchange.
\<close>

section \<open>A line determines its event\<close>

lemma writesD:
  assumes "json_writes lib"
  shows "js_dump lib (js_uint lib a) = js_dump lib (js_uint lib b) \<longleftrightarrow> a = b"
    and "int64_ok m \<Longrightarrow> int64_ok n \<Longrightarrow> js_dump lib (js_int lib m) = js_dump lib (js_int lib n) \<longleftrightarrow> m = n"
    and "plain_text s \<Longrightarrow> plain_text t \<Longrightarrow> js_dump lib (js_string lib s) = js_dump lib (js_string lib t) \<longleftrightarrow> s = t"
    and "js_dump lib (js_array lib xs) = js_dump lib (js_array lib ys) \<Longrightarrow> map (js_dump lib) xs = map (js_dump lib) ys"
    and "js_dump lib (js_object lib kvs) = js_dump lib (js_object lib kvs') \<Longrightarrow> map fst kvs = map fst kvs' \<Longrightarrow>
      distinct (map fst kvs) \<Longrightarrow> map (js_dump lib \<circ> snd) kvs = map (js_dump lib \<circ> snd) kvs'"
    and "CHR 0x0A \<notin> set (js_dump lib j)"
  using assms unfolding json_writes_def by blast+

lemma plain_names [simp]:
  "plain_text (side_to_str sd)" "plain_text (order_type_to_str ty)" "plain_text (reject_reason_to_str rr)"
proof -
  show "plain_text (side_to_str sd)" by (simp add: plain_text_def side_to_str_def)
  show "plain_text (order_type_to_str ty)" by (cases ty) (simp_all add: plain_text_def)
  show "plain_text (reject_reason_to_str rr)" by (cases rr) (simp_all add: plain_text_def)
qed

lemma names_inj [simp]:
  "side_to_str sd = side_to_str sd' \<longleftrightarrow> sd = sd'" "order_type_to_str ty = order_type_to_str ty' \<longleftrightarrow> ty = ty'"
  "reject_reason_to_str rr = reject_reason_to_str rr' \<longleftrightarrow> rr = rr'"
proof -
  show "side_to_str sd = side_to_str sd' \<longleftrightarrow> sd = sd'" by (cases sd; cases sd') (simp_all add: side_to_str_def)
  show "order_type_to_str ty = order_type_to_str ty' \<longleftrightarrow> ty = ty'" by (cases ty; cases ty') simp_all
  show "reject_reason_to_str rr = reject_reason_to_str rr' \<longleftrightarrow> rr = rr'" by (cases rr; cases rr') simp_all
qed

lemma levels_inj:
  "n < 2 ^ 64 \<Longrightarrow> m < 2 ^ 64 \<Longrightarrow> (of_nat n :: 64 word) = of_nat m \<longleftrightarrow> n = m"
  by (simp add: word_of_nat_eq_iff take_bit_nat_eq_self)

lemma depth_inj:
  assumes w: "json_writes lib" and "list_all (\<lambda>(p, q). int64_ok p) ls" and "list_all (\<lambda>(p, q). int64_ok p) ls'"
    and eq: "js_dump lib (depth_json lib ls) = js_dump lib (depth_json lib ls')"
  shows "ls = ls'"
proof -
  let ?obj = "\<lambda>(px, q). js_object lib [(''price'', js_int lib px), (''qty'', js_uint lib q)]"
  have one: "x = y" if "js_dump lib (?obj x) = js_dump lib (?obj y)" "int64_ok (fst x)" "int64_ok (fst y)" for x y
    using that writesD(5) [OF w, of "[(''price'', js_int lib (fst x)), (''qty'', js_uint lib (snd x))]"
        "[(''price'', js_int lib (fst y)), (''qty'', js_uint lib (snd y))]"]
    by (cases x; cases y) (simp add: writesD(1,2) [OF w])
  have "map (js_dump lib) (map ?obj ls) = map (js_dump lib) (map ?obj ls')"
    by (rule writesD(4) [OF w eq [unfolded depth_json_def]])
  then show ?thesis
    using assms(2,3)
  proof (induction ls arbitrary: ls')
    case (Cons x ls)
    then show ?case using one [of x] by (cases ls') (auto simp: case_prod_unfold)
  qed simp
qed

lemmas event_json = trade_json_def book_json_def snapshot_json_def accepted_json_def rejected_json_def canceled_json_def

lemma serialize_inj:
  assumes w: "json_writes lib" and "sendable e" and "sendable e'" and "serialize_event lib e = serialize_event lib e'"
  shows "e = e'"
proof -
  note facts = sendable_def event_json writesD(1-3) [OF w] levels_inj
  show ?thesis
  proof (cases e)
    case (OrderAccepted x)
    then obtain y where "e' = OrderAccepted y" using assms(4) by (cases e') auto
    then show ?thesis using assms(2-4) OrderAccepted by (cases x; cases y) (auto simp: facts dest!: writesD(5) [OF w])
  next
    case (OrderRejected x)
    then obtain y where "e' = OrderRejected y" using assms(4) by (cases e') auto
    then show ?thesis using assms(2-4) OrderRejected by (cases x; cases y) (auto simp: facts dest!: writesD(5) [OF w])
  next
    case (OrderCanceled x)
    then obtain y where "e' = OrderCanceled y" using assms(4) by (cases e') auto
    then show ?thesis using assms(2-4) OrderCanceled by (cases x; cases y) (auto simp: facts dest!: writesD(5) [OF w])
  next
    case (TradeExecuted x)
    then obtain y where "e' = TradeExecuted y" using assms(4) by (cases e') auto
    then show ?thesis using assms(2-4) TradeExecuted by (cases x; cases y) (auto simp: facts dest!: writesD(5) [OF w])
  next
    case (BookUpdated x)
    then obtain y where "e' = BookUpdated y" using assms(4) by (cases e') auto
    then show ?thesis using assms(2-4) BookUpdated by (cases x; cases y) (auto simp: facts dest!: writesD(5) [OF w])
  next
    case (Snapshot x)
    then obtain y where "e' = Snapshot y" using assms(4) by (cases e') auto
    then show ?thesis using assms(2-4) Snapshot by (cases x; cases y) (auto simp: facts dest!: writesD(5) [OF w] dest: depth_inj [OF w])
  qed
qed

section \<open>A file determines its lines\<close>

lemma serialize_one_line:
  assumes "json_writes lib"
  shows "newline \<notin> set (serialize_event lib e)"
proof -
  have nl: "newline = CHR 0x0A" by code_simp
  then show ?thesis using writesD(6) [OF assms] by (cases e) (auto simp: nl)
qed

lemma file_lines_split: "list_all (\<lambda>row. newline \<notin> set row) rows \<Longrightarrow> split_on newline (file_lines rows) = rows"
  by (induction rows) (simp_all add: file_lines_def split_on_token)

lemma file_lines_inj:
  assumes w: "json_writes lib" and "list_all sendable es" and "list_all sendable es'"
    and "file_lines (map (serialize_event lib) es) = file_lines (map (serialize_event lib) es')"
  shows "es = es'"
proof -
  have "split_on newline (file_lines (map (serialize_event lib) xs)) = map (serialize_event lib) xs" for xs
    by (rule file_lines_split) (simp add: list_all_iff serialize_one_line [OF w])
  then have "map (serialize_event lib) es = map (serialize_event lib) es'" using assms(4) by metis
  then show ?thesis
    using assms(2,3)
  proof (induction es arbitrary: es')
    case (Cons e es)
    then show ?case by (cases es') (auto dest: serialize_inj [OF w])
  qed simp
qed

section \<open>What has left a queue\<close>

lemma subseq_of_map:
  assumes "subseq xs (map f ys)"
  shows "\<exists>zs. subseq zs ys \<and> xs = map f zs"
  using assms by (auto simp: subseq_conv_nths nths_map)

lemma flows_written:
  assumes "flows id (map f E) rows pending d"
  shows "\<exists>es. rows = map f es \<and> subseq es E \<and> (d = 0 \<and> length E < 2 ^ 64 \<longrightarrow> prefix es E \<and> (pending = [] \<longrightarrow> es = E))"
proof -
  from assms obtain acc where acc: "subseq acc (map f E)" "acc = rows @ pending"
    and d: "d = of_nat (length (map f E) - length acc)" by (auto simp: flows_def)
  from subseq_of_map [OF acc(1)] obtain zs where zs: "subseq zs E" "acc = map f zs" by blast
  let ?es = "take (length rows) zs"
  have "rows = map f ?es" using zs(2) acc(2) by (metis append_eq_conv_conj take_map)
  moreover have "subseq ?es E" using zs(1) by (metis prefix_imp_subseq subseq_order.trans take_is_prefix)
  moreover have "prefix ?es E \<and> (pending = [] \<longrightarrow> ?es = E)" if "d = 0" "length E < 2 ^ 64"
  proof -
    have "(of_nat (length E - length zs) :: 64 word) = of_nat 0" using that(1) d zs(2) by simp
    then have "length E - length zs = 0" using that(2) by (subst (asm) levels_inj) simp_all
    then have "length zs = length E" using list_emb_length [OF zs(1)] by simp
    then have "zs = E" using zs(1) subseq_same_length by blast
    moreover have "pending = [] \<Longrightarrow> length rows = length zs" using zs(2) acc(2) by (metis append_Nil2 length_map)
    ultimately show ?thesis by (simp add: take_is_prefix)
  qed
  ultimately show ?thesis by blast
qed

section \<open>Every event of the exchange can be sent\<close>

lemma known_plain: "fmlookup (index (new_exchange cfg)) sy = Some k \<Longrightarrow> plain_text sy"
proof -
  have "(of_char c :: nat) < 128" if "c \<in> set (show_nat n)" for c n
    using show_nat_digits [OF that] by (simp add: is_digit_def)
  then show "fmlookup (index (new_exchange cfg)) sy = Some k \<Longrightarrow> plain_text sy"
    by (auto simp: new_exchange_simps symbol_name_def plain_text_def list_all_iff)
qed

lemma process_symbol:
  assumes "process now ts msg ex = Inr (evs, ex1)"
  shows "index ex1 = index ex" and "e \<in> set evs \<Longrightarrow> event_symbol e = msg_symbol msg \<and> fmlookup (index ex) (msg_symbol msg) \<noteq> None"
proof -
  have "event_symbol e = msg_symbol msg" if "translate_result ts msg res b = Inr evs'" "e \<in> set evs'" for res b evs'
    using that by (auto simp: translate_result_def updated_event_def bind_res_Inr_iff rejected_event_def canceled_event_def
        accepted_event_def executed_event_def split: if_splits)
  then show "index ex1 = index ex"
    "e \<in> set evs \<Longrightarrow> event_symbol e = msg_symbol msg \<and> fmlookup (index ex) (msg_symbol msg) \<noteq> None"
    using assms by (auto simp: process_def bind_res_Inr_iff split: option.splits if_splits)
qed

lemma process_all_index: "process_all ms ex = Inr (evss, ex1) \<Longrightarrow> index ex1 = index ex"
  by (induction ms arbitrary: ex evss rule: messages.induct) (fastforce simp: bind_res_Inr_iff dest: process_symbol(1))+

lemma gateway_index:
  assumes "gw_inv lib cfg g"
  shows "fmlookup (index (gw_exchange g)) sy = Some k \<Longrightarrow> plain_text sy"
proof -
  from assms have "index (gw_exchange g) = index (new_exchange (gw_engine_config cfg))"
    by (auto simp: gw_inv_def dest: process_all_index)
  then show "fmlookup (index (gw_exchange g)) sy = Some k \<Longrightarrow> plain_text sy" using known_plain by metis
qed

lemma emitted_events: "emit_snapshots lib sns g = Inr g1 \<Longrightarrow> gw_events g1 = gw_events g @ map Snapshot sns"
  by (induction lib sns g rule: emit_snapshots.induct) (auto simp: bind_res_Inr_iff)

lemma exchange_one_events:
  assumes inv: "gw_inv lib cfg g" and run: "exchange_one lib now ts g = Inr (found, g1)"
  shows "gw_events g1 = gw_events g \<or> (\<exists>msg rest evs ex. ring_list (gw_inbound g) = msg # rest \<and>
    process now ts msg (gw_exchange g) = Inr (evs, ex) \<and> gw_events g1 = gw_events g @ evs)"
proof (cases "ring_list (gw_inbound g)")
  case Nil
  then show ?thesis using exchange_one_none [OF inv Nil] run by simp
next
  case (Cons msg rest)
  from ring_pop_some [OF _ Cons] inv have "\<exists>r. ring_pop (gw_inbound g) = Inr (Some msg, r)" by (auto simp: gw_inv_def)
  then show ?thesis using run Cons by (auto simp: exchange_one_def inbound_pop_def bind_res_Inr_iff)
qed

lemma gw_step_accepted:
  assumes "gw_step lib g g1" and inv: "gw_inv lib cfg g"
  shows "\<exists>ms. gw_accepted g1 = gw_accepted g @ ms"
  using assms(1)
proof cases
  case (x_begin now)
  then show ?thesis using exchange_begin_inv [OF inv x_begin(2)] by (simp add: same_control_def)
next
  case (x_one now ts found)
  then show ?thesis using exchange_one_inv [OF inv x_one(2)] by (simp add: same_control_def)
next
  case (x_snap clock t)
  then show ?thesis using snapshot_due_inv [OF inv x_snap(2)] by (simp add: same_control_def)
next
  case (x_exit g2)
  then show ?thesis by (auto simp: inbound_pop_def bind_res_Inr_iff)
next
  case join
  then show ?thesis using gateway_finish_inv [OF inv] by auto
qed simp_all

lemma gw_step_sendable:
  assumes "gw_step lib g g1" and inv: "gw_inv lib cfg g" and ord: "orderly (\<lambda>_. {}) (gw_accepted g)"
    and old: "list_all sendable (gw_events g)"
  shows "list_all sendable (gw_events g1)"
  using assms(1)
proof cases
  case (r_push msg room g2)
  then show ?thesis using old by (auto simp: inbound_push_def bind_res_Inr_iff)
next
  case (x_begin now)
  then show ?thesis using old by (auto simp: exchange_begin_def bind_res_Inr_iff)
next
  case (x_one now ts found)
  have "list_all sendable evs" if "ring_list (gw_inbound g) = msg # rest" "process now ts msg (gw_exchange g) = Inr (evs, ex)"
    for msg rest evs ex
    using process_typed [OF inv_exchange_ok(1) [OF inv ord] inv_exchange_ok(2) [OF inv ord that(1)] that(2)]
      process_symbol(2) [OF that(2)] gateway_index [OF inv] by (fastforce simp: list_all_iff sendable_def)
  then show ?thesis using exchange_one_events [OF inv x_one(2)] old by auto
next
  case (x_snap clock t)
  have "list_all sendable (map Snapshot ss)" if "snapshot_all clock (gw_exchange g) = Inr ss" for ss
  proof -
    have "instruments_ok (gw_exchange g)" using inv_exchange_ok(1) [OF inv ord] by (simp add: exchange_ok_def)
    then have "plain_text sy" if "sy \<in> fst ` set (instruments (gw_exchange g))" for sy
      using that gateway_index [OF inv, of sy] by (force simp: instruments_ok_def in_set_conv_nth)
    then show ?thesis using snapshots_typed [OF inv_exchange_ok(1) [OF inv ord] that] by (auto simp: list_all_iff sendable_def)
  qed
  then show ?thesis
    using x_snap(2) old by (auto simp: snapshot_due_def bind_res_Inr_iff dest!: emitted_events split: if_splits)
next
  case (x_exit g2)
  then show ?thesis using old by (auto simp: inbound_pop_def bind_res_Inr_iff)
next
  case join
  then show ?thesis using gateway_finish_inv [OF inv] old by auto
qed (use old in simp_all)

lemma events_sendable:
  assumes reach: "gw_reach lib g0 g" and "capacities_ok cfg" and st: "gateway_start True True (new_gateway cfg) = Inr g0"
    and ord: "orderly (\<lambda>_. {}) (gw_accepted g)"
  shows "list_all sendable (gw_events g)"
  using reach ord
proof (induction rule: rtranclp_induct)
  case base
  then show ?case using st by (auto simp: gateway_start_def bind_res_Inr_iff new_gateway_def)
next
  case (step g1 g2)
  note inv = conjunct1 [OF gw_started [OF step.hyps(1) assms(2) st st]]
  from gw_step_accepted [OF step.hyps(2) inv] step.prems have "orderly (\<lambda>_. {}) (gw_accepted g1)" by (auto simp: orderly_append)
  with gw_step_sendable [OF step.hyps(2) inv] step.IH show ?case by blast
qed

section \<open>Reading the replay log\<close>


text \<open>A gateway that has processed a message and written the first of its events.\<close>

definition ex_written :: "fault + gateway" where
  "ex_written = bind_res (inbound_push ex_in ex_loop) (\<lambda>(room, g).
     bind_res (exchange_one ex_lib 0 1 (g\<lparr> gw_receiver := R_loop, gw_accepted := [ex_in] \<rparr>)) (\<lambda>(found, g1).
     bind_res (write_one (gw_replay g1)) (\<lambda>(wrote, rl). Inr (g1\<lparr> gw_replay := rl \<rparr>))))"

lemma ex_written_value:
  "case ex_written of Inl f \<Rightarrow> False | Inr g \<Rightarrow> rpl_file (gw_replay g) \<noteq> [] \<and> rpl_drops (gw_replay g) = 0 \<and>
     length (gw_events g) = 2 \<and> gw_accepted g = [ex_in]"
  by code_simp

lemma ex_written_reach:
  assumes "ex_written = Inr g"
  shows "gw_reach ex_lib ex_gw g"
proof -
  from assms obtain room g1 found g2 wrote rl where w: "inbound_push ex_in ex_loop = Inr (room, g1)"
    "exchange_one ex_lib 0 1 (g1\<lparr> gw_receiver := R_loop, gw_accepted := [ex_in] \<rparr>) = Inr (found, g2)"
    "write_one (gw_replay g2) = Inr (wrote, rl)" "g = g2\<lparr> gw_replay := rl \<rparr>"
    by (auto simp: ex_written_def bind_res_Inr_iff)
  have room: "room"
    using ring_push_room [of "gw_inbound ex_loop" ex_in] new_ring_ok [of 1 default_message, where 'w = 32] w(1)
    by (auto simp: ex_loop_fields inbound_push_def bind_res_Inr_iff simp del: ring_list_length)
  let ?g0 = "ex_loop\<lparr> gw_receiver := R_push ex_in \<rparr>"
  have push: "inbound_push ex_in ?g0 = Inr (room, g1\<lparr> gw_receiver := R_push ex_in \<rparr>)"
    using w(1) by (auto simp: inbound_push_def bind_res_Inr_iff)
  note ex_begin
  moreover have "gw_step ex_lib ex_loop ?g0"
    by (rule r_recv [OF _ _ ex_receive [folded ex_loop_fields(7)]]) (simp_all add: ex_loop_fields)
  moreover have "gw_step ex_lib ?g0 (g1\<lparr> gw_receiver := R_loop, gw_accepted := [ex_in] \<rparr>)"
    using gw_step.r_push [OF _ push, of ex_lib] room by (simp add: ex_loop_fields)
  moreover have "gw_step ex_lib (g1\<lparr> gw_receiver := R_loop, gw_accepted := [ex_in] \<rparr>) g2"
    by (rule gw_step.x_one [OF _ w(2)]) (use w(1) in \<open>auto simp: inbound_push_def bind_res_Inr_iff ex_loop_fields\<close>)
  moreover have "gw_step ex_lib g2 g" using gw_step.w_one [OF w(3)] w(4) by simp
  ultimately show ?thesis by (meson converse_rtranclp_into_rtranclp rtranclp.rtrancl_refl)
qed


end
