(* ===== verification/Logger.thy ===== *)
theory Logger
  imports Queue_Flow Text_Format
begin

text \<open>
  The asynchronous logger (\<^verbatim>\<open>src/logging/logger.hpp\<close>, \<^verbatim>\<open>logger.cpp\<close>): fixed-size records in a ring whose
  capacity the constructor rounds up to a power of two. \<open>lgr_file\<close> is what has been appended to the file;
  the clock reading of \<open>log\<close> is an argument.
\<close>

datatype level = Debug | Info | Warn | Error

fun level_str :: "level \<Rightarrow> string" where
  "level_str Debug = ''DEBUG''"
| "level_str Info = ''INFO''"
| "level_str Warn = ''WARN''"
| "level_str Error = ''ERROR''"

record log_record =
  rec_level :: level
  rec_category :: "char list"
  rec_message :: "char list"
  rec_timestamp :: "64 word"

record logger =
  lgr_ring :: "(log_record, 32 word) ring"
  lgr_drops :: "64 word"
  lgr_running :: bool
  lgr_path :: string
  lgr_file :: string

text \<open>The loop \<open>while (n < queue_size) n <<= 1\<close> on \<open>uint32_t\<close>; \<open>None\<close> when it does not end.\<close>

partial_function (option) round_up :: "32 word \<Rightarrow> 32 word \<Rightarrow> 32 word option" where
  "round_up n q = (if n < q then round_up (push_bit 1 n) q else Some n)"

definition nul :: char where "nul = char_of (0 :: nat)"

definition blank_record :: log_record where
  "blank_record = \<lparr> rec_level = Debug, rec_category = replicate 16 nul, rec_message = replicate 256 nul, rec_timestamp = 0 \<rparr>"

definition new_logger :: "string \<Rightarrow> 32 word \<Rightarrow> logger option" where
  "new_logger path queue_size = map_option (\<lambda>n. \<lparr> lgr_ring = new_ring blank_record n, lgr_drops = 0, lgr_running = False,
     lgr_path = path, lgr_file = [] \<rparr>) (round_up 1 queue_size)"

definition logger_start :: "logger \<Rightarrow> logger" where
  "logger_start l = (if lgr_running l then l else l\<lparr> lgr_running := True \<rparr>)"

text \<open>\<open>memset\<close> to zero, then \<open>memcpy\<close> of at most \<open>size - 1\<close> characters.\<close>

definition char_array :: "nat \<Rightarrow> string \<Rightarrow> char list" where
  "char_array n s = take (n - 1) s @ replicate (n - min (length s) (n - 1)) nul"

definition logger_log :: "timestamp \<Rightarrow> level \<Rightarrow> string \<Rightarrow> string \<Rightarrow> logger \<Rightarrow> fault + logger" where
  "logger_log now lv category msg l = bind_res (ring_push \<lparr> rec_level = lv, rec_category = char_array 16 category,
       rec_message = char_array 256 msg, rec_timestamp = now \<rparr> (lgr_ring l)) (\<lambda>(room, r).
     Inr (l\<lparr> lgr_ring := r, lgr_drops := (if room then lgr_drops l else lgr_drops l + 1) \<rparr>))"

text \<open>Output of a character array stops at the first zero.\<close>

definition c_str :: "char list \<Rightarrow> string" where
  "c_str cs = takeWhile (\<lambda>c. c \<noteq> nul) cs"

definition log_line :: "log_record \<Rightarrow> string" where
  \<open>log_line rc = ''{"ts":'' @ show_nat (unat (rec_timestamp rc)) @ '',"level":"'' @ level_str (rec_level rc) @
     ''","cat":"'' @ c_str (rec_category rc) @ ''","msg":"'' @ c_str (rec_message rc) @ ''"}'' @ [char_of (10 :: nat)]\<close>

definition log_write_one :: "logger \<Rightarrow> fault + bool \<times> logger" where
  "log_write_one l = bind_res (ring_pop (lgr_ring l)) (\<lambda>(x, r). case x of
     None \<Rightarrow> Inr (False, l)
   | Some rc \<Rightarrow> Inr (True, l\<lparr> lgr_ring := r, lgr_file := lgr_file l @ log_line rc \<rparr>))"

fun log_writer :: "nat \<Rightarrow> logger \<Rightarrow> fault + logger" where
  "log_writer 0 l = Inl Out_of_fuel"
| "log_writer (Suc n) l = bind_res (log_write_one l) (\<lambda>(more, l1). if more then log_writer n l1 else Inr l1)"

text \<open>\<open>stop\<close> clears the flag and joins the writer, which goes on until the ring is empty.\<close>

definition logger_stop :: "logger \<Rightarrow> fault + logger" where
  "logger_stop l = (if lgr_running l then log_writer (ring_capacity (lgr_ring l)) (l\<lparr> lgr_running := False \<rparr>) else Inr l)"

section \<open>The capacity\<close>

declare round_up.simps [code]

lemma unat_exp_32: "k < 32 \<Longrightarrow> unat (2 ^ k :: 32 word) = 2 ^ k"
  using new_ring_ok(3) [of k "()", where 'w = 32] by (simp add: new_ring_def ring_capacity_def)

lemma round_up_from:
  assumes "k \<le> j" and "j < 32" and "unat q \<le> 2 ^ j" and "\<forall>i. k \<le> i \<longrightarrow> i < j \<longrightarrow> 2 ^ i < unat q"
  shows "round_up (2 ^ k) q = Some (2 ^ j)"
  using assms
proof (induction "j - k" arbitrary: k)
  case 0
  then show ?case by (simp add: round_up.simps word_less_nat_alt unat_exp_32)
next
  case (Suc d)
  then have "k < j" by simp
  then have "(2 ^ k :: 32 word) < q" using Suc.prems by (simp add: word_less_nat_alt unat_exp_32)
  moreover have "push_bit 1 (2 ^ k :: 32 word) = 2 ^ Suc k" by (simp add: push_bit_eq_mult)
  moreover have "round_up (2 ^ Suc k) q = Some (2 ^ j)"
    using Suc.hyps(1) [of "Suc k"] Suc.hyps(2) Suc.prems by (simp del: power_Suc)
  ultimately show ?case by (subst round_up.simps) (simp only: if_True)
qed

lemma round_up_zero: "round_up n q = Some y \<Longrightarrow> 0 < q \<longrightarrow> n \<noteq> 0"
  by (rule round_up.raw_induct [of "\<lambda>n q y. 0 < q \<longrightarrow> n \<noteq> 0"]) (auto split: if_splits, blast)

lemma round_up_large:
  assumes "k \<le> 31" and "2 ^ 31 < unat q"
  shows "round_up (2 ^ k) q = None"
  using assms(1)
proof (induction "31 - k" arbitrary: k)
  case 0
  then have k: "k = 31" by simp
  have "(2 ^ 31 :: 32 word) < q" using assms(2) by (simp add: word_less_nat_alt)
  moreover have "push_bit 1 (2 ^ 31 :: 32 word) = 0" by simp
  moreover have "round_up 0 q = None"
    using round_up_zero [of 0 q] assms(2) by (cases "round_up 0 q") (auto simp: unat_gt_0 [symmetric] word_less_nat_alt)
  ultimately have "round_up (2 ^ 31) q = None" by (subst round_up.simps) (simp only: if_True)
  then show ?case unfolding k .
next
  case (Suc d)
  then have "k < 31" by simp
  then have "(2 :: nat) ^ k < 2 ^ 31" by (intro power_strict_increasing) simp_all
  then have "(2 ^ k :: 32 word) < q" using assms(2) \<open>k < 31\<close> by (simp add: word_less_nat_alt unat_exp_32)
  moreover have "push_bit 1 (2 ^ k :: 32 word) = 2 ^ Suc k" by (simp add: push_bit_eq_mult)
  moreover have "round_up (2 ^ Suc k) q = None" using Suc.hyps(1) [of "Suc k"] Suc.hyps(2) \<open>k < 31\<close> by (simp del: power_Suc)
  ultimately show ?case by (subst round_up.simps) (simp only: if_True)
qed

lemma new_logger_ok:
  assumes "unat q \<le> 2 ^ 31"
  obtains k l where "new_logger path q = Some l" "k < 32" "ring_capacity (lgr_ring l) = 2 ^ k" "unat q \<le> 2 ^ k"
    "\<forall>i<k. 2 ^ i < unat q" "ring_ok (lgr_ring l)" "ring_list (lgr_ring l) = []" "lgr_drops l = 0" "lgr_file l = []"
proof -
  define k where "k = (LEAST i. unat q \<le> 2 ^ i)"
  have le: "unat q \<le> 2 ^ k" unfolding k_def using assms by (rule LeastI)
  have "k \<le> 31" unfolding k_def using assms by (rule Least_le)
  moreover have low: "\<forall>i<k. 2 ^ i < unat q" unfolding k_def using not_less_Least by (metis not_less)
  ultimately have "round_up (2 ^ 0) q = Some (2 ^ k)" using round_up_from [of 0 k q] le by simp
  then show ?thesis
    using that [of _ k] le low \<open>k \<le> 31\<close> new_ring_ok [of k blank_record, where 'w = 32] by (simp add: new_logger_def)
qed

text \<open>
  C39. The constructor of the logger: its rounding loop ends exactly for queue sizes up to \<open>2 ^ 31\<close>, with the
  least power of two that is not below the requested size, and the new ring is well-formed and empty; for a
  larger size the 32-bit variable becomes zero and the loop never ends.
\<close>
theorem logger_capacity:
  "if unat q \<le> 2 ^ 31
   then \<exists>k l. new_logger path q = Some l \<and> k < 32 \<and> ring_capacity (lgr_ring l) = 2 ^ k \<and> unat q \<le> 2 ^ k \<and>
     (k = 0 \<or> 2 ^ (k - 1) < unat q) \<and> ring_ok (lgr_ring l) \<and> ring_list (lgr_ring l) = []
   else new_logger path q = None"
proof (cases "unat q \<le> 2 ^ 31")
  case True
  from new_logger_ok [OF True, of path] obtain k l where k: "new_logger path q = Some l" "k < 32"
    "ring_capacity (lgr_ring l) = 2 ^ k" "unat q \<le> 2 ^ k" "\<forall>i<k. 2 ^ i < unat q"
    "ring_ok (lgr_ring l)" "ring_list (lgr_ring l) = []" by blast
  then have "k = 0 \<or> 2 ^ (k - 1) < unat q" by (cases k) auto
  then show ?thesis using True k by auto
next
  case False
  then show ?thesis using round_up_large [of 0 q] by (simp add: new_logger_def)
qed

section \<open>What is written\<close>

definition log_text :: "string list \<Rightarrow> string" where
  "log_text rows = concat rows"

definition log_ok :: "log_record list \<Rightarrow> logger \<Rightarrow> bool" where
  "log_ok E l \<longleftrightarrow> ring_ok (lgr_ring l) \<and>
     (\<exists>rows. lgr_file l = log_text rows \<and> flows log_line E rows (ring_list (lgr_ring l)) (lgr_drops l))"

definition record_of :: "timestamp \<Rightarrow> level \<Rightarrow> string \<Rightarrow> string \<Rightarrow> log_record" where
  "record_of now lv category msg = \<lparr> rec_level = lv, rec_category = char_array 16 category,
     rec_message = char_array 256 msg, rec_timestamp = now \<rparr>"

lemma logger_log_ok:
  assumes "log_ok E l"
  shows "\<exists>l1. logger_log now lv category msg l = Inr l1 \<and> log_ok (E @ [record_of now lv category msg]) l1
    \<and> lgr_running l1 = lgr_running l"
proof -
  from assms obtain rows where r: "ring_ok (lgr_ring l)" "lgr_file l = log_text rows"
    "flows log_line E rows (ring_list (lgr_ring l)) (lgr_drops l)" by (auto simp: log_ok_def)
  from ring.push_flows [OF r(1,3), of "record_of now lv category msg"] obtain b q1
    where q1: "ring_push (record_of now lv category msg) (lgr_ring l) = Inr (b, q1)" "ring_ok q1"
      "flows log_line (E @ [record_of now lv category msg]) rows (ring_list q1) (if b then lgr_drops l else lgr_drops l + 1)"
    by blast
  have "logger_log now lv category msg l = Inr (l\<lparr> lgr_ring := q1, lgr_drops := (if b then lgr_drops l else lgr_drops l + 1) \<rparr>)"
    using q1(1) by (simp add: logger_log_def record_of_def)
  then show ?thesis using q1(2,3) r(2) by (cases b) (auto simp: log_ok_def)
qed

lemma log_write_one_ok:
  assumes "log_ok E l"
  shows "\<exists>l1. log_write_one l = Inr (ring_list (lgr_ring l) \<noteq> [], l1) \<and> log_ok E l1 \<and> lgr_running l1 = lgr_running l
    \<and> ring_list (lgr_ring l1) = tl (ring_list (lgr_ring l))"
proof (cases "ring_list (lgr_ring l)")
  case Nil
  then show ?thesis using ring_pop_none [of "lgr_ring l"] assms by (auto simp: log_ok_def log_write_one_def)
next
  case (Cons x xs)
  from assms obtain rows where r: "ring_ok (lgr_ring l)" "lgr_file l = log_text rows"
    "flows log_line E (rows @ [log_line x]) xs (lgr_drops l)" using Cons by (auto simp: log_ok_def flows_pop)
  have "log_text rows @ log_line x = log_text (rows @ [log_line x])" by (simp add: log_text_def)
  with ring_pop_some [OF r(1) Cons] r show ?thesis
    using Cons by (fastforce simp: log_ok_def log_write_one_def)
qed

interpretation log_writer: drain_loop log_write_one "\<lambda>l. length (ring_list (lgr_ring l))"
    "\<lambda>l. log_ok E l \<and> lgr_running l = b" log_writer for E b
proof (unfold_locales, goal_cases)
  case (2 l)
  then show ?case using log_write_one_ok [of E l] by (fastforce simp del: ring_list_length)
qed simp

text \<open>A record keeps at most 15 characters of the category and 255 of the message.\<close>

lemma c_str_array:
  assumes "0 < n" and "nul \<notin> set s"
  shows "c_str (char_array n s) = take (n - 1) s" and "length (char_array n s) = n"
proof -
  have "\<forall>c\<in>set (take (n - 1) s). c \<noteq> nul" using assms(2) in_set_takeD by fastforce
  moreover have "n - min (length s) (n - 1) \<noteq> 0" using assms(1) by linarith
  then obtain m where "n - min (length s) (n - 1) = Suc m" by (metis not0_implies_Suc)
  ultimately show "c_str (char_array n s) = take (n - 1) s"
    by (simp only: c_str_def char_array_def replicate_Suc takeWhile_append2 takeWhile.simps) simp
  have "min (length s) (n - 1) \<le> n" by simp
  then show "length (char_array n s) = n"
    by (simp only: char_array_def length_append length_take length_replicate le_add_diff_inverse)
qed

lemma c_str_take: "nul \<notin> set s \<Longrightarrow> c_str (take n s) = take n s"
  unfolding c_str_def takeWhile_eq_all_conv using in_set_takeD by fastforce

fun log_all :: "(timestamp \<times> level \<times> string \<times> string) list \<Rightarrow> logger \<Rightarrow> fault + logger" where
  "log_all [] l = Inr l"
| "log_all ((now, lv, category, msg) # es) l = bind_res (logger_log now lv category msg l) (log_all es)"

lemma log_all_ok:
  "log_ok E l \<Longrightarrow> \<exists>l1. log_all es l = Inr l1 \<and> log_ok (E @ map (\<lambda>(now, lv, category, msg). record_of now lv category msg) es) l1
     \<and> lgr_running l1 = lgr_running l"
proof (induction es l arbitrary: E rule: log_all.induct)
  case (2 now lv category msg es l)
  from logger_log_ok [OF "2.prems", of now lv category msg] obtain l1
    where l1: "logger_log now lv category msg l = Inr l1" "log_ok (E @ [record_of now lv category msg]) l1"
      "lgr_running l1 = lgr_running l" by blast
  from "2.IH" [OF l1(1,2)] l1(1,3) show ?case by auto
qed simp


definition ex_log :: "(timestamp \<times> level \<times> string \<times> string) list" where
  "ex_log = [(5, Warn, ''engine'', ''book crossed''), (6, Info, ''engine'', ''late'')]"


end
