(* ===== verification/Engine_View.thy ===== *)
theory Engine_View
  imports Engine_Handlers
begin

text \<open>
  What the engine reads of its state. \<open>same_view\<close> relates two states with the same orders, the same live
  queues, the same last trade price and the same pending stops; the level lists, their lazily deleted
  entries, their volumes, the sequence number and the configuration may differ. A run of the engine from
  one state is matched, result by result, by a run from the other, and the final states are related again.
\<close>

definition same_view :: "engine \<Rightarrow> engine \<Rightarrow> bool" where
  "same_view s s' \<longleftrightarrow> same_book (book s) (book s') \<and> pending_stops s' = pending_stops s"

lemma same_viewD:
  assumes "same_view s s'"
  shows "book_ok (book s')" and "queue_of (book s') = queue_of (book s)" and "id_map (book s') = id_map (book s)"
    and "last_trade_price (book s') = last_trade_price (book s)" and "pending_stops s' = pending_stops s"
  using assms by (simp_all add: same_view_def same_book_def)

lemma same_view_config: "same_view s s' \<Longrightarrow> config_ok X s \<Longrightarrow> config_ok X s'"
  by (auto simp: same_view_def same_book_def config_ok_def stops_only_def)

lemma same_view_refl: "config_ok X s \<Longrightarrow> same_view s s"
  by (simp add: same_view_def same_book_def config_ok_def)

lemma same_view_weight: "same_view s s' \<Longrightarrow> engine_weight s' = engine_weight s"
  by (simp add: same_view_def same_book_def engine_weight_def)

lemma same_view_stops:
  "same_view s s' \<Longrightarrow> same_view (s\<lparr> pending_stops := ps \<rparr>) (s'\<lparr> pending_stops := ps \<rparr>)"
  by (simp add: same_view_def)

section \<open>Choosing and filling the passive order\<close>

lemma passive_level_None:
  assumes "book_ok b"
  shows "passive_level a b = None \<longleftrightarrow> (\<forall>p. queue_of b (opp (ord_side a)) p = [])"
proof -
  have "side_levels sd b = [] \<longleftrightarrow> (\<forall>p. queue_of b sd p = [])" for sd
    using queue_at_nonempty [OF book_ok_levels [OF assms, of sd]]
    by (cases "side_levels sd b") (force simp: queue_of_def)+
  from this [of "opp (ord_side a)"] show ?thesis
    by (cases "side_levels (opp (ord_side a)) b") (simp_all add: passive_level_sd)
qed

lemma is_passive_view:
  assumes "same_view s s'" and "is_passive a (book s) i p" and "is_passive a (book s') j p'"
  shows "j = i \<and> p' = p"
proof -
  note v = same_viewD [OF assms(1)]
  from assms(2) obtain ids where i: "ord_side p = opp (ord_side a)" "fmlookup (id_map (book s)) i = Some p"
      "queue_of (book s) (opp (ord_side a)) (ord_price p) = i # ids"
      "\<forall>pr. queue_of (book s) (opp (ord_side a)) pr \<noteq> [] \<longrightarrow>
         pr = ord_price p \<or> better (opp (ord_side a)) (ord_price p) pr"
    by (auto simp: is_passive_def)
  from assms(3) v obtain ids' where j: "ord_side p' = opp (ord_side a)" "fmlookup (id_map (book s)) j = Some p'"
      "queue_of (book s) (opp (ord_side a)) (ord_price p') = j # ids'"
      "\<forall>pr. queue_of (book s) (opp (ord_side a)) pr \<noteq> [] \<longrightarrow>
         pr = ord_price p' \<or> better (opp (ord_side a)) (ord_price p') pr"
    by (auto simp: is_passive_def)
  have "ord_price p' = ord_price p \<or> better (opp (ord_side a)) (ord_price p) (ord_price p')"
    and "ord_price p = ord_price p' \<or> better (opp (ord_side a)) (ord_price p') (ord_price p)"
    using i(3,4) j(3,4) by force+
  then have "ord_price p' = ord_price p" by (cases "opp (ord_side a)") auto
  then have "j = i" using i(3) j(3) by simp
  then show ?thesis using i(2) j(2) by simp
qed

lemma fill_view:
  assumes ok: "config_ok (a # X) s" and v: "same_view s s'" and lev: "passive_level a (book s) = Some e"
    and front: "passive_front a e s = Inr (i, p, s1)" and fill: "apply_fill a i q s1 = Inr (a1, t, s2)"
  shows "\<exists>e' s1' s2'. passive_level a (book s') = Some e' \<and> beyond_limit a (snd e') = beyond_limit a (snd e) \<and>
    passive_front a e' s' = Inr (i, p, s1') \<and> apply_fill a i q s1' = Inr (a1, t, s2') \<and> same_view s2 s2'"
proof -
  note bk = config_okD(1) [OF ok] and sv = same_viewD [OF v]
  have "passive_level a (book s') \<noteq> None"
    using lev passive_level_None [OF bk, of a] passive_level_None [OF sv(1), of a] sv(2) by simp
  then obtain e' where e': "passive_level a (book s') = Some e'" by blast
  from fill_returns [OF sv(1) e'] obtain j p' s1' a1' t' s2'
    where f': "passive_front a e' s' = Inr (j, p', s1')" "apply_fill a j q s1' = Inr (a1', t', s2')" by blast
  from fill_facts [OF bk lev front fill] obtain b2 where b2: "s2 = s\<lparr> book := b2 \<rparr>"
      "a1 = a\<lparr> ord_quantity := ord_quantity a - q \<rparr>" "t = fill_trade a p q" "is_passive a (book s) i p"
      "lvl_price (snd e) = ord_price p" "id_map b2 = fill_map i p q (id_map (book s))"
      "queue_of b2 = (\<lambda>sd pr. if sd = ord_side p \<and> pr = ord_price p
          then queue_after p q (queue_of (book s) sd pr) else queue_of (book s) sd pr)"
      "last_trade_price b2 = ord_price p" by blast
  from fill_facts [OF sv(1) e' f'] obtain b2' where b2': "s2' = s'\<lparr> book := b2' \<rparr>" "book_ok b2'"
      "a1' = a\<lparr> ord_quantity := ord_quantity a - q \<rparr>" "t' = fill_trade a p' q" "is_passive a (book s') j p'"
      "lvl_price (snd e') = ord_price p'" "id_map b2' = fill_map j p' q (id_map (book s'))"
      "queue_of b2' = (\<lambda>sd pr. if sd = ord_side p' \<and> pr = ord_price p'
          then queue_after p' q (queue_of (book s') sd pr) else queue_of (book s') sd pr)"
      "last_trade_price b2' = ord_price p'" by blast
  have eq: "j = i" "p' = p" using is_passive_view [OF v b2(4) b2'(5)] by simp_all
  have "same_view s2 s2'"
    using b2 b2' [unfolded eq sv] sv(5) by (simp add: same_view_def same_book_def)
  moreover have "beyond_limit a (snd e') = beyond_limit a (snd e)" using b2 b2' eq by (simp add: beyond_limit_def)
  ultimately show ?thesis using e' f' b2 b2' eq by auto
qed

lemma match_done_view:
  assumes ok: "config_ok (a # X) s" and v: "same_view s s'"
  shows "match_done a (book s') = match_done a (book s)"
proof (cases "passive_level a (book s)")
  case None
  then have "passive_level a (book s') = None"
    using passive_level_None [OF config_okD(1) [OF ok], of a] passive_level_None [OF same_viewD(1) [OF v], of a]
      same_viewD(2) [OF v] by simp
  with None show ?thesis by (simp add: match_done_def)
next
  case (Some e)
  from fill_returns [OF config_okD(1) [OF ok] Some] obtain i p s1 a1 t s2
    where f: "passive_front a e s = Inr (i, p, s1)" "apply_fill a i 0 s1 = Inr (a1, t, s2)" by blast
  from fill_view [OF ok v Some f] Some show ?thesis by (auto simp: match_done_def)
qed

lemma rest_view:
  assumes "config_ok (a # X) s" and "same_view s s'"
  shows "same_view (rest_order a s) (rest_order a s')"
proof -
  note ok' = same_view_config [OF assms(2,1)] and v = same_viewD [OF assms(2)]
  have "book_ok (book (rest_order a s'))" using config_okD(1) [OF config_ok_rest [OF ok']] .
  moreover have "queue_of (insert_order a (book s')) = queue_of (insert_order a (book s))"
    using assms(1) ok' v insert_order_queue(1) [of "book s" a] insert_order_queue(1) [of "book s'" a]
    by (simp add: config_ok_def fun_eq_iff)
  ultimately show ?thesis using v by (simp add: same_view_def same_book_def rest_order_def)
qed

section \<open>The matching functions\<close>

text \<open>
  \<open>same_match\<close> and \<open>same_answer\<close>: whatever a run from \<open>s\<close> returns, the run from a state with the same view
  returns, up to the view of the final state.
\<close>

definition same_match ::
  "fault + order \<times> match_result \<times> engine \<Rightarrow> fault + order \<times> match_result \<times> engine \<Rightarrow> bool" where
  "same_match m m' \<longleftrightarrow> (\<forall>a r s. m = Inr (a, r, s) \<longrightarrow> (\<exists>s'. m' = Inr (a, r, s') \<and> same_view s s'))"

definition same_answer :: "fault + 'a \<times> engine \<Rightarrow> fault + 'a \<times> engine \<Rightarrow> bool" where
  "same_answer m m' \<longleftrightarrow> (\<forall>r s. m = Inr (r, s) \<longrightarrow> (\<exists>s'. m' = Inr (r, s') \<and> same_view s s'))"

lemma same_matchD:
  "same_match m m' \<Longrightarrow> m = Inr (a, r, s) \<Longrightarrow> \<exists>s'. m' = Inr (a, r, s') \<and> same_view s s'"
  by (simp add: same_match_def)

lemma same_answerD:
  "same_answer m m' \<Longrightarrow> m = Inr (r, s) \<Longrightarrow> \<exists>s'. m' = Inr (r, s') \<and> same_view s s'"
  by (simp add: same_answer_def)

text \<open>One iteration of a match loop, given that the fill and the rest of the loop agree.\<close>

lemma iteration_view:
  assumes ok: "config_ok (a # X) s" and v: "same_view s s'" and nz: "ord_quantity a \<noteq> 0"
    and lev: "passive_level a (book s) = Some e" and front: "passive_front a e s = Inr (i, p, s1)"
    and ex: "execute_fill n a i (min (ord_quantity a) (ord_quantity p)) r s1 = Inr (a1, r1, s2)"
    and IH: "\<forall>X a1 t s2 s' s2'. apply_fill a i (min (ord_quantity a) (ord_quantity p)) s1 = Inr (a1, t, s2) \<longrightarrow>
      apply_fill a i (min (ord_quantity a) (ord_quantity p)) s' = Inr (a1, t, s2') \<longrightarrow>
      config_ok X s2 \<longrightarrow> same_view s2 s2' \<longrightarrow>
      same_match (execute_fill n a i (min (ord_quantity a) (ord_quantity p)) r s1)
        (execute_fill n a i (min (ord_quantity a) (ord_quantity p)) r s')"
  shows "config_ok (a1 # X) s2" and
    "\<exists>e' s1' s2'. passive_level a (book s') = Some e' \<and> beyond_limit a (snd e') = beyond_limit a (snd e) \<and>
      passive_front a e' s' = Inr (i, p, s1') \<and>
      execute_fill n a i (min (ord_quantity a) (ord_quantity p)) r s1' = Inr (a1, r1, s2') \<and> same_view s2 s2'"
proof -
  let ?q = "min (ord_quantity a) (ord_quantity p)"
  obtain t s3 where f: "apply_fill a i ?q s1 = Inr (a1, t, s3)"
    and ev: "evaluate_stop_triggers n (push_trade t r) s3 = Inr (r1, s2)"
    using ex by (auto simp: execute_fill.simps bind_res_Inr_iff)
  note ok3 = config_ok_fill [OF ok lev front f]
  show "config_ok (a1 # X) s2" using evaluated_ok(1) [OF ev ok3] .
  from fill_view [OF ok v lev front f] obtain e' s1' s3' where x:
    "passive_level a (book s') = Some e'" "beyond_limit a (snd e') = beyond_limit a (snd e)"
    "passive_front a e' s' = Inr (i, p, s1')" "apply_fill a i ?q s1' = Inr (a1, t, s3')" "same_view s3 s3'"
    by blast
  from same_matchD [OF IH [rule_format, OF f x(4) ok3 x(5)] ex] x show
    "\<exists>e' s1' s2'. passive_level a (book s') = Some e' \<and> beyond_limit a (snd e') = beyond_limit a (snd e) \<and>
      passive_front a e' s' = Inr (i, p, s1') \<and> execute_fill n a i ?q r s1' = Inr (a1, r1, s2') \<and> same_view s2 s2'"
    by blast
qed

lemma limit_rest_view:
  assumes ok: "config_ok (prepare_order o1 # X) s" and ty: "ord_type o1 = Limit \<or> ord_type o1 = Iceberg"
    and IH: "same_match (match_limit n (prepare_order o1) empty_result s) (match_limit n (prepare_order o1) empty_result s')"
  shows "same_answer (process_new_order (Suc n) o1 s) (process_new_order (Suc n) o1 s')"
  unfolding same_answer_def
proof (intro allI impI)
  fix r s1 assume "process_new_order (Suc n) o1 s = Inr (r, s1)"
  from process_new_limit [OF this ty] obtain a s2 where m: "match_limit n (prepare_order o1) empty_result s = Inr (a, r, s2)"
    and s1: "s1 = (if must_rest a then rest_order a s2 else s2)" by blast
  from same_matchD [OF IH m] obtain s2' where m': "match_limit n (prepare_order o1) empty_result s' = Inr (a, r, s2')"
    and v2: "same_view s2 s2'" by blast
  have "ord_type (prepare_order o1) \<noteq> Market" using ty by (auto simp: prepare_order_simps)
  then have ok2: "config_ok (a # X) s2" using ok_inv.limit_matched [OF m config_okD(4) [OF ok]] ok by blast
  have aty: "ord_type a = ord_type o1" using match_static [OF m] by (simp add: prepare_order_simps)
  have "process_new_order (Suc n) o1 s' = Inr (r, if must_rest a then rest_order a s2' else s2')"
    using ty m' aty by (auto simp: process_new_eqs must_rest_def)
  then show "\<exists>s1'. process_new_order (Suc n) o1 s' = Inr (r, s1') \<and> same_view s1 s1'"
    using v2 rest_view [OF ok2 v2] by (simp add: s1)
qed

lemma triggers_view: "same_view s s' \<Longrightarrow> immediately_triggered o1 s' = immediately_triggered o1 s"
  by (simp add: same_view_def same_book_def immediately_triggered_def)

lemma engine_view:
  "\<forall>X s'. config_ok (a # X) s \<longrightarrow> same_view s s' \<longrightarrow> same_match (match_limit n a r s) (match_limit n a r s')"
  "\<forall>X s'. config_ok (a # X) s \<longrightarrow> same_view s s' \<longrightarrow> same_match (match_market n a r s) (match_market n a r s')"
  "\<forall>X a1 t s1 s' s1'. apply_fill a i q s = Inr (a1, t, s1) \<longrightarrow> apply_fill a i q s' = Inr (a1, t, s1') \<longrightarrow>
     config_ok X s1 \<longrightarrow> same_view s1 s1' \<longrightarrow> same_match (execute_fill n a i q r s) (execute_fill n a i q r s')"
  "\<forall>X s'. config_ok X s \<longrightarrow> same_view s s' \<longrightarrow>
     same_answer (evaluate_stop_triggers n r s) (evaluate_stop_triggers n r s')"
  "\<forall>X s'. config_ok (ws @ X) s \<longrightarrow> (\<forall>x\<in>set ws. is_stop x) \<longrightarrow> same_view s s' \<longrightarrow>
     same_answer (stop_loop n lp ws r s) (stop_loop n lp ws r s')"
  "\<forall>X s'. config_ok (st # X) s \<longrightarrow> same_view s s' \<longrightarrow>
     same_answer (process_triggered_stop n st r s) (process_triggered_stop n st r s')"
  "\<forall>X s'. config_ok (o1 # X) s \<longrightarrow> same_view s s' \<longrightarrow>
     same_answer (process_new_order n o1 s) (process_new_order n o1 s')"
proof (induction n a r s and n a r s and n a i q r s and n r s and n lp ws r s and n st r s
    and n o1 s rule: engine_induct)
  case (2 n aggr r s)
  show ?case
  proof (intro allI impI)
    fix X s' assume ok: "config_ok (aggr # X) s" and v: "same_view s s'"
    show "same_match (match_limit (Suc n) aggr r s) (match_limit (Suc n) aggr r s')"
      unfolding same_match_def
    proof (intro allI impI)
      fix a' r' s1 assume run: "match_limit (Suc n) aggr r s = Inr (a', r', s1)"
      then show "\<exists>s1'. match_limit (Suc n) aggr r s' = Inr (a', r', s1') \<and> same_view s1 s1'"
      proof (cases rule: match_limit_SucE)
        case stop
        then have "match_done aggr (book s')" using match_done_view [OF ok v] by simp
        then show ?thesis using stop v by (auto simp: match_limit.simps match_done_def split: option.splits)
      next
        case (iterate e i p s2 a1 r1 s3)
        note it = iteration_view [OF ok v iterate(1,2,4,5) "2.IH"(1) [OF iterate(1-4) refl refl]]
        from it(2) obtain e' s2' s3' where x: "passive_level aggr (book s') = Some e'" "\<not> beyond_limit aggr (snd e')"
          "passive_front aggr e' s' = Inr (i, p, s2')"
          "execute_fill n aggr i (min (ord_quantity aggr) (ord_quantity p)) r s2' = Inr (a1, r1, s3')" "same_view s3 s3'"
          using iterate(3) by auto
        from same_matchD [OF "2.IH"(2) [OF iterate(1-4) refl refl iterate(5) refl refl, rule_format, OF it(1) x(5)] iterate(6)]
        show ?thesis using iterate(1) x by (simp add: match_limit.simps)
      qed (use v in \<open>simp add: match_limit.simps\<close>)
    qed
  qed
next
  case (4 n aggr r s)
  show ?case
  proof (intro allI impI)
    fix X s' assume ok: "config_ok (aggr # X) s" and v: "same_view s s'"
    show "same_match (match_market (Suc n) aggr r s) (match_market (Suc n) aggr r s')"
      unfolding same_match_def
    proof (intro allI impI)
      fix a' r' s1 assume run: "match_market (Suc n) aggr r s = Inr (a', r', s1)"
      then show "\<exists>s1'. match_market (Suc n) aggr r s' = Inr (a', r', s1') \<and> same_view s1 s1'"
      proof (cases rule: match_market_SucE)
        case (iterate e i p s2 a1 r1 s3)
        note it = iteration_view [OF ok v iterate(1-4) "4.IH"(1) [OF iterate(1-3) refl refl]]
        from it(2) obtain e' s2' s3' where x: "passive_level aggr (book s') = Some e'"
          "passive_front aggr e' s' = Inr (i, p, s2')"
          "execute_fill n aggr i (min (ord_quantity aggr) (ord_quantity p)) r s2' = Inr (a1, r1, s3')" "same_view s3 s3'"
          by auto
        from same_matchD [OF "4.IH"(2) [OF iterate(1-3) refl refl iterate(4) refl refl, rule_format, OF it(1) x(4)] iterate(5)]
        show ?thesis using iterate(1) x by (simp add: match_market.simps)
      qed (use v passive_level_None [OF config_okD(1) [OF ok], of aggr] passive_level_None [OF same_viewD(1) [OF v], of aggr]
            same_viewD(2) [OF v] in \<open>simp_all add: match_market.simps\<close>)
    qed
  qed
next
  case (5 n aggr i q r s)
  show ?case
  proof (intro allI impI)
    fix X a1 t s1 s' s1'
    assume f: "apply_fill aggr i q s = Inr (a1, t, s1)" "apply_fill aggr i q s' = Inr (a1, t, s1')"
      and "config_ok X s1" "same_view s1 s1'"
    then have "same_answer (evaluate_stop_triggers n (push_trade t r) s1) (evaluate_stop_triggers n (push_trade t r) s1')"
      using 5 [OF f(1) refl refl] by blast
    then show "same_match (execute_fill n aggr i q r s) (execute_fill n aggr i q r s')"
      using f by (fastforce simp: same_match_def same_answer_def execute_fill.simps bind_res_Inr_iff)
  qed
next
  case (6 n r s)
  show ?case
  proof (intro allI impI)
    fix X s' assume ok: "config_ok X s" and v: "same_view s s'"
    show "same_answer (evaluate_stop_triggers n r s) (evaluate_stop_triggers n r s')"
    proof (cases "pending_stops s = [] \<or> last_trade_price (book s) = 0")
      case True
      then show ?thesis using v same_viewD(4,5) [OF v] by (auto simp: evaluate_stop_triggers.simps same_answer_def)
    next
      case False
      moreover have "\<forall>x\<in>set (pending_stops s). is_stop x" using config_okD(4) [OF ok] by (simp add: stops_only_def)
      ultimately show ?thesis using 6 config_ok_wake [OF ok] same_view_stops [OF v, of "[]"] same_viewD(4,5) [OF v]
        by (simp add: evaluate_stop_triggers.simps) blast
    qed
  qed
next
  case (8 n lp st working r s)
  show ?case
  proof (intro allI impI)
    fix X s' assume ok: "config_ok ((st # working) @ X) s" and ws: "\<forall>x\<in>set (st # working). is_stop x" and v: "same_view s s'"
    then have ok': "config_ok (st # working @ X) s" and is_stop: "is_stop st" by simp_all
    show "same_answer (stop_loop n lp (st # working) r s) (stop_loop n lp (st # working) r s')"
    proof (cases "stop_triggered lp st")
      case True
      have p: "same_answer (process_triggered_stop n st r s) (process_triggered_stop n st r s')"
        using "8.IH"(1) [OF True] ok' v by blast
      show ?thesis
        unfolding same_answer_def
      proof (intro allI impI)
        fix r' s1 assume "stop_loop n lp (st # working) r s = Inr (r', s1)"
        then obtain r2 s2 where x: "process_triggered_stop n st r s = Inr (r2, s2)" "stop_loop n lp working r2 s2 = Inr (r', s1)"
          using True by (auto simp: stop_loop.simps bind_res_Inr_iff)
        from same_answerD [OF p x(1)] obtain s2' where x': "process_triggered_stop n st r s' = Inr (r2, s2')" "same_view s2 s2'"
          by blast
        have "same_answer (stop_loop n lp working r2 s2) (stop_loop n lp working r2 s2')"
          using "8.IH"(2) [OF True x(1) refl] triggered_ok(1) [OF x(1) ok' is_stop] ws x'(2) by simp blast
        from same_answerD [OF this x(2)] x'(1) True
        show "\<exists>s1'. stop_loop n lp (st # working) r s' = Inr (r', s1') \<and> same_view s1 s1'" by (simp add: stop_loop.simps)
      qed
    next
      case False
      have "same_view (s\<lparr> pending_stops := pending_stops s @ [st] \<rparr>) (s'\<lparr> pending_stops := pending_stops s' @ [st] \<rparr>)"
        using same_view_stops [OF v] same_viewD(5) [OF v] by simp
      then show ?thesis using "8.IH"(3) [OF False] config_ok_sleep [OF ok' is_stop] ws False
        by (simp add: stop_loop.simps) blast
    qed
  qed
next
  case (9 n st r s)
  show ?case
  proof (intro allI impI)
    fix X s' assume ok: "config_ok (st # X) s" and v: "same_view s s'"
    have "same_answer (process_new_order n (convert_stop st) s) (process_new_order n (convert_stop st) s')"
      using 9 config_ok_ids [OF ok, of "convert_stop st"] v by simp blast
    then show "same_answer (process_triggered_stop n st r s) (process_triggered_stop n st r s')"
      by (fastforce simp: same_answer_def process_triggered_stop.simps bind_res_Inr_iff)
  qed
next
  case (11 n o1 s)
  show ?case
  proof (intro allI impI)
    fix X s' assume ok: "config_ok (o1 # X) s" and v: "same_view s s'"
    have ok': "config_ok (prepare_order o1 # X) s" using config_ok_ids [OF ok] by simp
    have stop: "same_answer (process_new_order (Suc n) o1 s) (process_new_order (Suc n) o1 s')"
      if ty: "is_stop o1" and IH: "immediately_triggered (prepare_order o1) s \<Longrightarrow>
        same_answer (process_triggered_stop n (prepare_order o1) empty_result s)
          (process_triggered_stop n (prepare_order o1) empty_result s')"
      using ty IH v triggers_view [OF v] same_view_stops [OF v] same_viewD(5) [OF v]
      by (cases "immediately_triggered (prepare_order o1) s"; cases "ord_type o1")
         (simp_all add: process_new_order.simps prepare_order_simps Let_def is_stop_def same_answer_def)
    show "same_answer (process_new_order (Suc n) o1 s) (process_new_order (Suc n) o1 s')"
    proof (cases "ord_type o1")
      case Limit
      have "same_match (match_limit n (prepare_order o1) empty_result s) (match_limit n (prepare_order o1) empty_result s')"
        using "11.IH"(1) Limit ok' v by (simp add: prepare_order_simps) blast
      then show ?thesis using limit_rest_view [OF ok'] Limit by blast
    next
      case Iceberg
      have "same_match (match_limit n (prepare_order o1) empty_result s) (match_limit n (prepare_order o1) empty_result s')"
        using "11.IH"(5) Iceberg ok' v by (simp add: prepare_order_simps) blast
      then show ?thesis using limit_rest_view [OF ok'] Iceberg by blast
    next
      case Market
      have "same_match (match_market n (prepare_order o1) empty_result s) (match_market n (prepare_order o1) empty_result s')"
        using "11.IH"(2) Market ok' v by (simp add: prepare_order_simps) blast
      then show ?thesis using Market
        by (fastforce simp: same_match_def same_answer_def process_new_eqs bind_res_Inr_iff)
    next
      case Stop
      show ?thesis using "11.IH"(3) Stop ok' v by (intro stop) (simp add: is_stop_def, simp add: prepare_order_simps, blast)
    next
      case StopLimit
      show ?thesis using "11.IH"(4) StopLimit ok' v by (intro stop) (simp add: is_stop_def, simp add: prepare_order_simps, blast)
    qed
  qed
qed (simp_all add: engine_simps same_match_def same_answer_def)

section \<open>The handlers\<close>

lemma same_viewI:
  assumes "engine_ok s'" and "\<And>sd p. queue_of (book s') sd p = queue_of (book s) sd p"
    and "id_map (book s') = id_map (book s)" and "last_trade_price (book s') = last_trade_price (book s)"
    and "pending_stops s' = pending_stops s"
  shows "same_view s s'"
  using assms engine_okD(1) [OF assms(1)] by (simp add: same_view_def same_book_def fun_eq_iff)

lemma same_view_engine: "same_view s s' \<Longrightarrow> engine_ok s \<Longrightarrow> engine_ok s'"
  unfolding engine_ok_def by (rule same_view_config)

lemma same_view_counted: "same_view s s' \<Longrightarrow> same_view (counted s) (counted s')"
  by (simp add: same_view_def)

lemma cancel_book_view:
  assumes ok: "engine_ok s" and v: "same_view s s'" and c: "cancellable i (book s)" "cancellable i (book s')"
  shows "same_view (s\<lparr> book := snd (cancel_order i (book s)) \<rparr>) (s'\<lparr> book := snd (cancel_order i (book s')) \<rparr>)"
proof (cases "fmlookup (id_map (book s)) i")
  case None
  then show ?thesis using v same_viewD(3) [OF v] by (simp add: cancel_order_None)
next
  case (Some o1)
  note ok' = same_view_engine [OF v ok] and sv = same_viewD [OF v]
  have Some': "fmlookup (id_map (book s')) i = Some o1" using Some sv(3) by simp
  show ?thesis
  proof (rule same_viewI [OF engine_ok_cancel_book [OF ok' c(2)]])
    show "queue_of (book (s'\<lparr> book := snd (cancel_order i (book s')) \<rparr>)) sd p =
        queue_of (book (s\<lparr> book := snd (cancel_order i (book s)) \<rparr>)) sd p" for sd p
      using cancel_queues [OF ok Some c(1)] cancel_queues [OF ok' Some' c(2)] sv(2) by simp
  qed (use sv in \<open>simp_all add: cancel_order_fields(1) [OF Some] cancel_order_fields(1) [OF Some'] cancel_order_fields(2)\<close>)
qed

lemma cancel_view:
  assumes ok: "engine_ok s" and v: "same_view s s'"
    and c: "cancellable (cancel_order_id e) (book s)" "cancellable (cancel_order_id e) (book s')"
  shows "same_answer (Inr (process_cancel e s)) (Inr (process_cancel e s'))"
  using v same_viewD(3,5) [OF v] cancel_book_view [OF ok v c] same_view_stops [OF v]
  by (auto simp: same_answer_def process_cancel_def find_order_def split: option.splits if_splits)

lemma modify_view:
  assumes ok: "engine_ok s" and v: "same_view s s'"
    and c: "cancellable (mod_order_id e) (book s)" "cancellable (mod_order_id e) (book s')"
  shows "same_answer (Inr (process_modify e s)) (Inr (process_modify e s'))"
proof (cases "\<exists>o1. fmlookup (id_map (book s)) (mod_order_id e) = Some o1 \<and> is_resting o1")
  case False
  then show ?thesis using v same_viewD(3) [OF v]
    by (auto simp: same_answer_def process_modify_def find_order_def split: option.splits)
next
  case True
  note ok' = same_view_engine [OF v ok] and sv = same_viewD [OF v]
  from True obtain o1 where o1: "fmlookup (id_map (book s)) (mod_order_id e) = Some o1" and r: "is_resting o1" by blast
  have o1': "fmlookup (id_map (book s')) (mod_order_id e) = Some o1" using o1 sv(3) by simp
  note run = process_modify_resting [OF o1 r] and run' = process_modify_resting [OF o1' r]
  have ok1: "engine_ok (snd (process_modify e s'))" using process_modify_ok [OF ok' c(2)] .
  have "same_view (snd (process_modify e s)) (snd (process_modify e s'))"
  proof (rule same_viewI [OF ok1])
    show "queue_of (book (snd (process_modify e s'))) sd p = queue_of (book (snd (process_modify e s))) sd p" for sd p
      using modify_move(2) [OF ok o1 c(1) refl] modify_move(2) [OF ok' o1' c(2) refl] sv(2)
        modify_in_place(2) [OF ok o1 refl] modify_in_place(2) [OF ok' o1' refl]
      by (simp add: run run')
    show "id_map (book (snd (process_modify e s'))) = id_map (book (snd (process_modify e s)))"
      using modify_move(1) [OF ok o1 c(1) refl] modify_move(1) [OF ok' o1' c(2) refl] sv(3)
        modify_in_place(1) [OF ok o1 refl] modify_in_place(1) [OF ok' o1' refl]
      by (simp add: run run')
  qed (use sv in \<open>simp_all add: run run' cancel_order_fields(2)\<close>)
  moreover have "fst (process_modify e s') = fst (process_modify e s)" by (simp add: run run')
  ultimately show ?thesis by (auto simp: same_answer_def prod_eq_iff)
qed

lemma new_order_view:
  assumes "engine_ok s" and "fresh_id (ord_id o1) s" and "same_view s s'"
  shows "same_answer (process_new_order n o1 s) (process_new_order n o1 s')"
  using engine_view(7) fresh_config [OF assms(1,2)] assms(3) by blast

lemma submit_view:
  assumes ok: "engine_ok s" and v: "same_view s s'" and ev: "event_ok ev s" "event_ok ev s'"
  shows "same_answer (submit ev s) (submit ev s')"
proof -
  have okc: "engine_ok (counted s)" using ok by simp
  note vc = same_view_counted [OF v]
  have fuel: "event_fuel ev s' = event_fuel ev s"
    using same_view_weight [OF v] by (simp add: event_fuel_def split: order_event.split)
  show ?thesis
  proof (cases ev)
    case (NewOrderEvent o1)
    have "fresh_id (ord_id o1) (counted s)" using ev(1) NewOrderEvent by (simp add: fresh_id_def)
    from new_order_view [OF okc this vc] fuel show ?thesis by (simp add: NewOrderEvent submit_new_run)
  next
    case (CancelOrderEvent e)
    then show ?thesis using cancel_view [OF okc vc, of e] ev by (simp add: submit_def submit_fuel_def)
  next
    case (ModifyOrderEvent e)
    then show ?thesis using modify_view [OF okc vc, of e] ev by (simp add: submit_def submit_fuel_def)
  next
    case (ReplaceOrderEvent e)
    show ?thesis
    proof (cases "has_order (old_order_id e) (book s)")
      case True
      have h: "has_order (old_order_id e) (book (counted s))" "has_order (old_order_id e) (book s')"
        using True same_viewD(3) [OF v] by (simp_all add: has_order_def)
      have "event_ok (ReplaceOrderEvent e) (counted s)" using ev(1) ReplaceOrderEvent by (simp add: fresh_id_def)
      note rr = replace_ready [OF okc this h(1)]
      have "cancellable (old_order_id e) (book (counted s))" "cancellable (old_order_id e) (book (counted s'))"
        using ev ReplaceOrderEvent by simp_all
      from new_order_view [OF rr cancel_book_view [OF okc vc this]] fuel show ?thesis
        by (simp add: ReplaceOrderEvent submit_replace_run [OF True] submit_replace_run [OF h(2)])
    next
      case False
      then have "\<not> has_order (old_order_id e) (book s')" using same_viewD(3) [OF v] by (simp add: has_order_def)
      then show ?thesis using False vc
        by (simp add: ReplaceOrderEvent submit_def submit_fuel_def process_replace_def same_answer_def)
    qed
  qed
qed

lemma run_events_view:
  "engine_ok s \<Longrightarrow> same_view s s' \<Longrightarrow> events_ok evs s \<Longrightarrow> events_ok evs s' \<Longrightarrow>
    same_answer (run_events evs s) (run_events evs s')"
proof (induction evs arbitrary: s s')
  case Nil
  then show ?case by (simp add: same_answer_def)
next
  case (Cons ev evs)
  from Cons.prems(3,4) have ev: "event_ok ev s" "event_ok ev s'" by simp_all
  from submit_returns [OF Cons.prems(1) ev(1)] obtain r s1 where s1: "submit ev s = Inr (r, s1)" "engine_ok s1" by blast
  from same_answerD [OF submit_view [OF Cons.prems(1,2) ev] s1(1)] obtain s1'
    where s1': "submit ev s' = Inr (r, s1')" "same_view s1 s1'" by blast
  have "events_ok evs s1" "events_ok evs s1'" using Cons.prems(3,4) s1(1) s1'(1) by simp_all
  from Cons.IH [OF s1(2) s1'(2) this] show ?case
    by (fastforce simp: same_answer_def s1(1) s1'(1) bind_res_Inr_iff)
qed

end
