(* ===== verification/Csv_Replay.thy ===== *)
theory Csv_Replay
  imports Core_Types Text_Input
begin

text \<open>
  The CSV reader (\<^verbatim>\<open>src/feed/csv_replay.hpp\<close>, \<^verbatim>\<open>csv_replay.cpp\<close>). The state holds the unread rest of the file, the
  two counters and what the reader has reported on standard error: line numbers and exceptions. An exception
  inside the loop of \<open>next\<close> is a value of \<open>csv_error\<close>, with the string that its message mentions.
\<close>

datatype csv_error =
    Not_enough_fields string
  | Unknown_event_type string
  | Invalid_side string
  | Invalid_order_type string
  | Bad_number string number_error  \<comment> \<open>from the function of this name\<close>

record csv_reader =
  csv_file :: string
  csv_line_number :: "64 word"
  csv_error_count :: "64 word"
  csv_reported :: "(64 word \<times> csv_error) list"

text \<open>The reported lines; \<open>exn\<close> is the text of an exception of the standard library, which is not specified.\<close>

fun csv_what :: "(string \<Rightarrow> number_error \<Rightarrow> string) \<Rightarrow> csv_error \<Rightarrow> string" where
  "csv_what exn (Not_enough_fields ty) = ''Not enough fields for '' @ ty"
| "csv_what exn (Unknown_event_type ty) = ''Unknown event type: '' @ ty"
| "csv_what exn (Invalid_side s) = ''Invalid side: '' @ s"
| "csv_what exn (Invalid_order_type s) = ''Invalid order type: '' @ s"
| "csv_what exn (Bad_number f e) = exn f e"

definition csv_report :: "(string \<Rightarrow> number_error \<Rightarrow> string) \<Rightarrow> 64 word \<times> csv_error \<Rightarrow> string" where
  "csv_report exn report = ''CsvReplayReader: line '' @ show_nat (unat (fst report)) @ '': '' @ csv_what exn (snd report) @ '' ''
     @ [CHR 0xE2, CHR 0x80, CHR 0x94] @ '' skipping''"

definition csv_newline :: char where "csv_newline = CHR 0x0A"

text \<open>The constructor, with the contents of the file at \<open>path\<close>; \<open>None\<close> for a file that cannot be opened. The header line is skipped.\<close>

definition csv_open :: "string \<Rightarrow> string option \<Rightarrow> string + csv_reader" where
  "csv_open path file = (case file of None \<Rightarrow> Inl (''CsvReplayReader: cannot open '' @ path)
     | Some text \<Rightarrow> Inr (case getline csv_newline text of
         None \<Rightarrow> \<lparr> csv_file = [], csv_line_number = 0, csv_error_count = 0, csv_reported = [] \<rparr>
       | Some (header, rest) \<Rightarrow> \<lparr> csv_file = rest, csv_line_number = 1, csv_error_count = 0, csv_reported = [] \<rparr>))"

definition csv_split :: "string \<Rightarrow> string list" where
  "csv_split line = split_on CHR '','' line"

definition csv_parse_side :: "string \<Rightarrow> csv_error + side" where
  "csv_parse_side s = (if s = ''BUY'' then Inr Buy else if s = ''SELL'' then Inr Sell else Inl (Invalid_side s))"

definition csv_parse_order_type :: "string \<Rightarrow> csv_error + order_type" where
  "csv_parse_order_type s =
     (if s = ''LIMIT'' then Inr Limit
      else if s = ''MARKET'' then Inr Market
      else if s = ''STOP'' then Inr Stop
      else if s = ''STOPLIMIT'' then Inr StopLimit
      else if s = ''ICEBERG'' then Inr Iceberg
      else Inl (Invalid_order_type s))"

definition csv_number :: "string \<Rightarrow> number_error + 'a \<Rightarrow> csv_error + 'a" where
  "csv_number f r = (case r of Inl e \<Rightarrow> Inl (Bad_number f e) | Inr x \<Rightarrow> Inr x)"

definition csv_new :: "string list \<Rightarrow> csv_error + order_event" where
  "csv_new fs = (if length fs < 9 then Inl (Not_enough_fields ''NEW'') else
     bind_res (csv_number ''stoull'' (stoull (fs ! 1))) (\<lambda>i.
     bind_res (csv_parse_side (fs ! 2)) (\<lambda>sd.
     bind_res (csv_parse_order_type (fs ! 3)) (\<lambda>ty.
     bind_res (csv_number ''stoll'' (stoll (fs ! 4))) (\<lambda>p.
     bind_res (csv_number ''stoull'' (stoull (fs ! 5))) (\<lambda>q.
     bind_res (csv_number ''stoull'' (stoull (fs ! 6))) (\<lambda>pk.
     bind_res (csv_number ''stoll'' (stoll (fs ! 7))) (\<lambda>sp.
     bind_res (csv_number ''stoull'' (stoull (fs ! 8))) (\<lambda>ts.
     Inr (NewOrderEvent (default_order\<lparr> ord_id := i, ord_side := sd, ord_type := ty, ord_price := p, ord_quantity := q,
       ord_orig_qty := q, ord_peak_qty := pk, ord_stop_price := sp, ord_timestamp := ts, ord_status := New \<rparr>)))))))))))"

definition csv_cancel :: "string list \<Rightarrow> csv_error + order_event" where
  "csv_cancel fs = (if length fs < 9 then Inl (Not_enough_fields ''CANCEL'') else
     bind_res (csv_number ''stoull'' (stoull (fs ! 1))) (\<lambda>i.
     bind_res (csv_number ''stoull'' (stoull (fs ! 8))) (\<lambda>ts.
     Inr (CancelOrderEvent \<lparr> cancel_order_id = i, cancel_timestamp = ts \<rparr>))))"

definition csv_modify :: "string list \<Rightarrow> csv_error + order_event" where
  "csv_modify fs = (if length fs < 9 then Inl (Not_enough_fields ''MODIFY'') else
     bind_res (csv_number ''stoull'' (stoull (fs ! 1))) (\<lambda>i.
     bind_res (if fs ! 4 = [] then Inr 0 else csv_number ''stoll'' (stoll (fs ! 4))) (\<lambda>p.
     bind_res (if fs ! 5 = [] then Inr 0 else csv_number ''stoull'' (stoull (fs ! 5))) (\<lambda>q.
     bind_res (csv_number ''stoull'' (stoull (fs ! 8))) (\<lambda>ts.
     Inr (ModifyOrderEvent \<lparr> mod_order_id = i, mod_new_price = p, mod_new_quantity = q, mod_timestamp = ts \<rparr>))))))"

text \<open>The body of the \<open>try\<close>; \<open>None\<close> is the \<open>continue\<close> for a line without fields.\<close>

definition csv_line :: "string \<Rightarrow> csv_error + order_event option" where
  "csv_line line = (let fs = csv_split line in
     if fs = [] then Inr None
     else if hd fs = ''NEW'' then bind_res (csv_new fs) (\<lambda>e. Inr (Some e))
     else if hd fs = ''CANCEL'' then bind_res (csv_cancel fs) (\<lambda>e. Inr (Some e))
     else if hd fs = ''MODIFY'' then bind_res (csv_modify fs) (\<lambda>e. Inr (Some e))
     else Inl (Unknown_event_type (hd fs)))"

function csv_next :: "csv_reader \<Rightarrow> order_event option \<times> csv_reader" where
  "csv_next r = (case getline csv_newline (csv_file r) of
     None \<Rightarrow> (None, r)
   | Some (line, rest) \<Rightarrow>
       let r1 = r\<lparr> csv_file := rest, csv_line_number := csv_line_number r + 1 \<rparr> in
       if line = [] then csv_next r1
       else case csv_line line of
           Inl e \<Rightarrow> csv_next (r1\<lparr> csv_error_count := csv_error_count r1 + 1,
             csv_reported := csv_reported r1 @ [(csv_line_number r1, e)] \<rparr>)
         | Inr None \<Rightarrow> csv_next r1
         | Inr (Some ev) \<Rightarrow> (Some ev, r1))"
  by pat_completeness auto
termination
  by (relation "measure (\<lambda>r. length (csv_file r))") (auto dest: getline_shrinks)

declare csv_next.simps [simp del]

text \<open>One iteration of the loop.\<close>

lemma csv_next_end: "csv_file r = [] \<Longrightarrow> csv_next r = (None, r)"
  by (simp add: csv_next.simps [of r] getline_def)

lemma csv_next_line:
  assumes "getline csv_newline (csv_file r) = Some (line, rest)"
  shows "csv_next r = (let r1 = r\<lparr> csv_file := rest, csv_line_number := csv_line_number r + 1 \<rparr> in
     if line = [] then csv_next r1
     else case csv_line line of
         Inl e \<Rightarrow> csv_next (r1\<lparr> csv_error_count := csv_error_count r1 + 1,
             csv_reported := csv_reported r1 @ [(csv_line_number r1, e)] \<rparr>)
       | Inr None \<Rightarrow> csv_next r1
       | Inr (Some ev) \<Rightarrow> (Some ev, r1))"
  using assms by (simp add: csv_next.simps [of r])

lemma csv_next_shrinks: "csv_next r = (Some ev, r1) \<Longrightarrow> length (csv_file r1) < length (csv_file r)"
proof (induction "length (csv_file r)" arbitrary: r rule: less_induct)
  case less
  show ?case
  proof (cases "getline csv_newline (csv_file r)")
    case None
    then show ?thesis using less.prems by (simp add: csv_next.simps [of r])
  next
    case (Some p)
    obtain line rest where p: "p = (line, rest)" by fastforce
    note sh = getline_shrinks [OF Some [unfolded p]]
    have ih: "csv_next r2 = (Some ev, r1) \<Longrightarrow> csv_file r2 = rest \<Longrightarrow> length (csv_file r1) < length rest" for r2
      using less.hyps [of r2] sh by simp
    show ?thesis
      using less.prems [unfolded csv_next_line [OF Some [unfolded p]]] sh
      by (auto simp: Let_def dest!: ih split: if_splits sum.splits option.splits)
  qed
qed

text \<open>The loop \<open>while (reader.next(event))\<close> of the clients.\<close>

function csv_read_all :: "csv_reader \<Rightarrow> order_event list \<times> csv_reader" where
  "csv_read_all r = (case csv_next r of
     (None, r1) \<Rightarrow> ([], r1)
   | (Some ev, r1) \<Rightarrow> (let (evs, r2) = csv_read_all r1 in (ev # evs, r2)))"
  by pat_completeness auto
termination
  by (relation "measure (\<lambda>r. length (csv_file r))") (auto dest: csv_next_shrinks [OF sym])

declare csv_read_all.simps [simp del]

section \<open>What is read\<close>

definition line_event :: "string \<Rightarrow> order_event list" where
  "line_event ln1 = (case csv_line ln1 of Inr (Some ev) \<Rightarrow> [ev] | _ \<Rightarrow> [])"

definition bad_line :: "string \<Rightarrow> bool" where
  "bad_line ln1 \<longleftrightarrow> (case csv_line ln1 of Inl e \<Rightarrow> True | Inr x \<Rightarrow> False)"

text \<open>The errors of lines that follow line \<open>n\<close>, with their line numbers.\<close>

fun line_errors :: "64 word \<Rightarrow> string list \<Rightarrow> (64 word \<times> csv_error) list" where
  "line_errors n [] = []"
| "line_errors n (ln1 # rows) = (case csv_line ln1 of Inl e \<Rightarrow> [(n + 1, e)] | Inr x \<Rightarrow> []) @ line_errors (n + 1) rows"

lemma csv_line_Nil [simp]: "csv_line [] = Inr None"
  by (simp add: csv_line_def csv_split_def)

lemma csv_read_all_end: "csv_file r = [] \<Longrightarrow> csv_read_all r = ([], r)"
  by (simp add: csv_read_all.simps [of r] csv_next_end)

lemma csv_read_all_line:
  assumes "getline csv_newline (csv_file r) = Some (line, rest)"
    and "r1 = r\<lparr> csv_file := rest, csv_line_number := csv_line_number r + 1,
      csv_error_count := csv_error_count r + (if bad_line line then 1 else 0),
      csv_reported := csv_reported r @ line_errors (csv_line_number r) [line] \<rparr>"
  shows "csv_read_all r = (line_event line @ fst (csv_read_all r1), snd (csv_read_all r1))"
proof -
  have skip: "csv_next r = csv_next r1 \<Longrightarrow> csv_read_all r = csv_read_all r1"
    by (simp add: csv_read_all.simps [of r] csv_read_all.simps [of r1])
  show ?thesis
  proof (cases "csv_line line")
    case (Inl e)
    then have "csv_next r = csv_next r1" using csv_next_line [OF assms(1)] assms(2) by (auto simp: Let_def bad_line_def)
    then show ?thesis using skip Inl by (simp add: line_event_def)
  next
    case (Inr x)
    show ?thesis
    proof (cases x)
      case None
      then have "csv_next r = csv_next r1"
        using csv_next_line [OF assms(1)] assms(2) Inr by (simp add: Let_def bad_line_def)
      then show ?thesis using skip Inr None by (simp add: line_event_def)
    next
      case (Some ev)
      then have "line \<noteq> []" using Inr by auto
      then have "csv_next r = (Some ev, r1)"
        using csv_next_line [OF assms(1)] assms(2) Inr Some by (simp add: Let_def bad_line_def)
      then show ?thesis using Inr Some by (simp add: csv_read_all.simps [of r] line_event_def split_beta)
    qed
  qed
qed

lemma csv_read_all_result:
  "csv_read_all r = (concat (map line_event (split_on csv_newline (csv_file r))),
     r\<lparr> csv_file := [], csv_line_number := csv_line_number r + of_nat (length (split_on csv_newline (csv_file r))),
       csv_error_count := csv_error_count r + of_nat (length (filter bad_line (split_on csv_newline (csv_file r)))),
       csv_reported := csv_reported r @ line_errors (csv_line_number r) (split_on csv_newline (csv_file r)) \<rparr>)"
proof (induction "length (csv_file r)" arbitrary: r rule: less_induct)
  case less
  show ?case
  proof (cases "getline csv_newline (csv_file r)")
    case None
    then have "csv_file r = []" by (simp add: getline_def split: if_splits)
    then show ?thesis by (simp add: csv_read_all_end)
  next
    case (Some p)
    obtain line rest where p: "p = (line, rest)" by fastforce
    let ?r1 = "r\<lparr> csv_file := rest, csv_line_number := csv_line_number r + 1,
      csv_error_count := csv_error_count r + (if bad_line line then 1 else 0),
      csv_reported := csv_reported r @ line_errors (csv_line_number r) [line] \<rparr>"
    have "split_on csv_newline (csv_file r) = line # split_on csv_newline rest"
      using Some p by (simp add: split_on.simps [of csv_newline "csv_file r"])
    moreover note less [of ?r1] getline_shrinks [OF Some [unfolded p]]
    ultimately show ?thesis
      using csv_read_all_line [OF Some [unfolded p] refl] by simp
  qed
qed


section \<open>Round trip\<close>

definition side_csv :: "side \<Rightarrow> string" where
  "side_csv sd = (if sd = Buy then ''BUY'' else ''SELL'')"

fun type_csv :: "order_type \<Rightarrow> string" where
  "type_csv Limit = ''LIMIT''"
| "type_csv Market = ''MARKET''"
| "type_csv Stop = ''STOP''"
| "type_csv StopLimit = ''STOPLIMIT''"
| "type_csv Iceberg = ''ICEBERG''"

abbreviation word_csv :: "64 word \<Rightarrow> string" where "word_csv w \<equiv> show_nat (unat w)"

fun event_fields :: "order_event \<Rightarrow> string list" where
  "event_fields (NewOrderEvent o1) = [''NEW'', word_csv (ord_id o1), side_csv (ord_side o1), type_csv (ord_type o1),
     show_int (ord_price o1), word_csv (ord_quantity o1), word_csv (ord_peak_qty o1), show_int (ord_stop_price o1),
     word_csv (ord_timestamp o1)]"
| "event_fields (CancelOrderEvent e) = [''CANCEL'', word_csv (cancel_order_id e), [], [], [], [], [], [], word_csv (cancel_timestamp e)]"
| "event_fields (ModifyOrderEvent e) = [''MODIFY'', word_csv (mod_order_id e), [], [], show_int (mod_new_price e),
     word_csv (mod_new_quantity e), [], [], word_csv (mod_timestamp e)]"
| "event_fields (ReplaceOrderEvent e) = []"

definition event_row :: "order_event \<Rightarrow> string" where
  "event_row ev = join_with CHR '','' (event_fields ev)"

text \<open>The events a file can hold: no replacements, new orders as the reader builds them, prices of 64 bits.\<close>

fun csv_event :: "order_event \<Rightarrow> bool" where
  "csv_event (NewOrderEvent o1) \<longleftrightarrow> ord_orig_qty o1 = ord_quantity o1 \<and> ord_status o1 = New \<and> ord_reserve_qty o1 = 0
     \<and> int64_ok (ord_price o1) \<and> int64_ok (ord_stop_price o1)"
| "csv_event (CancelOrderEvent e) \<longleftrightarrow> True"
| "csv_event (ModifyOrderEvent e) \<longleftrightarrow> int64_ok (mod_new_price e)"
| "csv_event (ReplaceOrderEvent e) \<longleftrightarrow> False"

lemma csv_parse_names [simp]:
  "csv_parse_side (side_csv sd) = Inr sd" "csv_parse_order_type (type_csv ty) = Inr ty"
  by (cases sd; simp add: csv_parse_side_def side_csv_def) (cases ty; simp add: csv_parse_order_type_def)

lemma csv_number_simps [simp]:
  "csv_number f (Inr x) = Inr x" "csv_number f (stoull (word_csv w)) = Inr w" "int64_ok i \<Longrightarrow> csv_number f (stoll (show_int i)) = Inr i"
  by (simp_all add: csv_number_def stoll_show)

lemma show_int_nonempty [simp]: "show_int i \<noteq> []"
  by (simp add: show_int_def show_nat_nonempty)

definition separator :: "char \<Rightarrow> bool" where
  "separator c \<longleftrightarrow> c = CHR '','' \<or> c = csv_newline"

lemma no_separator:
  assumes "separator c"
  shows "c \<notin> set (show_nat n)" and "c \<notin> set (show_int i)" and "c \<notin> set (side_csv sd)" and "c \<notin> set (type_csv ty)"
proof -
  have "c \<noteq> CHR ''-''" using assms by (auto simp: separator_def csv_newline_def)
  moreover have "\<not> is_digit c" using assms by (auto simp: separator_def csv_newline_def is_digit_def of_char_of)
  ultimately show "c \<notin> set (show_nat n)" "c \<notin> set (show_int i)"
    using show_nat_digits by (auto simp: show_int_def)
  show "c \<notin> set (side_csv sd)" "c \<notin> set (type_csv ty)"
    using assms by (auto simp: separator_def csv_newline_def side_csv_def) (cases ty; auto)+
qed

lemma event_fields_ok:
  assumes "separator c"
  shows "list_all (\<lambda>x. c \<notin> set x) (event_fields ev)"
proof -
  have "c \<notin> set ''NEW'' \<and> c \<notin> set ''CANCEL'' \<and> c \<notin> set ''MODIFY''"
    using assms by (auto simp: separator_def csv_newline_def)
  then show ?thesis using no_separator [OF assms] by (cases ev) auto
qed

lemma set_join_with: "set (join_with d xs) \<subseteq> insert d (\<Union> (set ` set xs))"
  by (induction d xs rule: join_with.induct) auto

lemma csv_event_split:
  assumes "csv_event ev"
  shows "csv_split (event_row ev) = event_fields ev"
proof -
  have "event_fields ev \<noteq> [] \<and> last (event_fields ev) \<noteq> []"
    using assms by (cases ev) (simp_all add: show_nat_nonempty)
  then show ?thesis
    unfolding csv_split_def event_row_def using event_fields_ok [of "CHR '',''" ev]
    by (intro split_join) (simp_all add: separator_def)
qed

lemma csv_event_line:
  assumes "csv_event ev"
  shows "csv_line (event_row ev) = Inr (Some ev)"
proof (cases ev)
  case (NewOrderEvent o1)
  then show ?thesis
    using assms csv_event_split [OF assms]
    by (cases o1) (simp add: csv_line_def csv_new_def default_order_def)
next
  case (CancelOrderEvent e)
  then show ?thesis using csv_event_split [OF assms] by (simp add: csv_line_def csv_cancel_def)
next
  case (ModifyOrderEvent e)
  then show ?thesis
    using assms csv_event_split [OF assms] by (simp add: csv_line_def csv_modify_def show_nat_nonempty)
qed (use assms in simp)

lemma csv_event_newline: "csv_newline \<notin> set (event_row ev)"
  using set_join_with [of "CHR '',''" "event_fields ev"] event_fields_ok [of csv_newline ev]
  by (auto simp: event_row_def separator_def list_all_iff csv_newline_def)

definition event_file :: "order_event list \<Rightarrow> string" where
  "event_file evs = concat (map (\<lambda>ev. event_row ev @ [csv_newline]) evs)"

lemma event_file_read:
  assumes "list_all csv_event evs" and "csv_newline \<notin> set header"
  shows "csv_open path (Some (header @ csv_newline # event_file evs)) =
      Inr \<lparr> csv_file = event_file evs, csv_line_number = 1, csv_error_count = 0, csv_reported = [] \<rparr>"
    and "csv_read_all \<lparr> csv_file = event_file evs, csv_line_number = 1, csv_error_count = 0, csv_reported = [] \<rparr> =
      (evs, \<lparr> csv_file = [], csv_line_number = of_nat (length evs + 1), csv_error_count = 0, csv_reported = [] \<rparr>)"
proof -
  have "\<forall>c\<in>set header. c \<noteq> csv_newline" using assms(2) by auto
  then have "getline csv_newline (header @ csv_newline # event_file evs) = Some (header, event_file evs)"
    by (simp add: getline_def takeWhile_append2 dropWhile_append2)
  then show "csv_open path (Some (header @ csv_newline # event_file evs)) =
      Inr \<lparr> csv_file = event_file evs, csv_line_number = 1, csv_error_count = 0, csv_reported = [] \<rparr>"
    by (simp add: csv_open_def)
  have rows: "split_on csv_newline (event_file evs) = map event_row evs"
    by (induction evs) (simp_all add: event_file_def split_on_token csv_event_newline)
  have "concat (map line_event (map event_row evs)) = evs" "filter bad_line (map event_row evs) = []"
    "line_errors n (map event_row evs) = []" for n
    using assms(1) by (induction evs arbitrary: n) (simp_all add: line_event_def bad_line_def csv_event_line)
  then show "csv_read_all \<lparr> csv_file = event_file evs, csv_line_number = 1, csv_error_count = 0, csv_reported = [] \<rparr> =
      (evs, \<lparr> csv_file = [], csv_line_number = of_nat (length evs + 1), csv_error_count = 0, csv_reported = [] \<rparr>)"
    by (simp add: csv_read_all_result rows)
qed



end
