(* ===== verification/Snapshot_Manager.thy ===== *)
theory Snapshot_Manager
  imports Engine_Prices Engine_Findings
begin

text \<open>
  Binary snapshots (\<^verbatim>\<open>src/snapshot/snapshot.hpp\<close>, \<^verbatim>\<open>snapshot.cpp\<close>). A file is a list of bytes. Integers are
  written as they lie in memory, least significant byte first. The bytes of an \<open>Order\<close> in memory depend on
  the platform: \<open>img\<close> gives them, \<open>val\<close> is the order that bytes stand for, \<open>n\<close> is \<open>sizeof(Order)\<close>. What the
  code relies on is that copying the bytes of an order back gives the order (\<open>image_ok\<close>), as C++ promises for
  trivially copyable types.
\<close>

type_synonym byte = "8 word"

fun le_bytes :: "nat \<Rightarrow> nat \<Rightarrow> byte list" where
  "le_bytes 0 v = []"
| "le_bytes (Suc k) v = of_nat (v mod 256) # le_bytes k (v div 256)"

fun le_value :: "byte list \<Rightarrow> nat" where
  "le_value [] = 0"
| "le_value (b # bs) = unat b + 256 * le_value bs"

definition kMagic :: nat where "kMagic = 0x4C4F4201"

definition image_ok :: "nat \<Rightarrow> (order \<Rightarrow> byte list) \<Rightarrow> (byte list \<Rightarrow> order) \<Rightarrow> bool" where
  "image_ok n img val \<longleftrightarrow> (\<forall>o1. int64_ok (ord_price o1) \<longrightarrow> int64_ok (ord_stop_price o1) \<longrightarrow>
     length (img o1) = n \<and> val (img o1) = o1)"

section \<open>Saving\<close>

definition level_orders :: "order_book \<Rightarrow> price \<times> price_level \<Rightarrow> order list" where
  "level_orders b e = concat (map (\<lambda>i. case find_order i b of None \<Rightarrow> [] | Some o1 \<Rightarrow> [o1]) (level_order_ids (snd e)))"

definition side_orders :: "order_book \<Rightarrow> levels \<Rightarrow> order list" where
  "side_orders b m = concat (map (level_orders b) m)"

definition snapshot_bytes :: "(order \<Rightarrow> byte list) \<Rightarrow> order_book \<Rightarrow> order list \<Rightarrow> 64 word \<Rightarrow> byte list" where
  "snapshot_bytes img b stops sq = le_bytes 4 kMagic @ le_bytes 8 (unat sq)
     @ le_bytes 8 (nat (last_trade_price b mod 2 ^ 64))
     @ le_bytes 4 (order_count b)
     @ concat (map img (side_orders b (bids b))) @ concat (map img (side_orders b (asks b)))
     @ le_bytes 4 (length stops) @ concat (map img stops)"

text \<open>
  \<open>save\<close> returns whether everything was written. \<open>opened\<close> says whether the file could be opened; the writes to
  an open file succeed (a full disk is outside the model).
\<close>

definition snapshot_save ::
  "(order \<Rightarrow> byte list) \<Rightarrow> bool \<Rightarrow> order_book \<Rightarrow> order list \<Rightarrow> 64 word \<Rightarrow> bool \<times> byte list option" where
  "snapshot_save img opened b stops sq = (if opened then (True, Some (snapshot_bytes img b stops sq)) else (False, None))"

section \<open>Loading\<close>

text \<open>
  An input stream: the bytes left and whether it is still good. \<open>read\<close> on a stream with too few bytes
  stores those it has and fails; a failed stream leaves the destination (\<open>old\<close>) alone.
\<close>

type_synonym istream = "byte list \<times> bool"

definition in_read :: "nat \<Rightarrow> byte list \<Rightarrow> istream \<Rightarrow> byte list \<times> istream" where
  "in_read n old s = (case s of (bs, good) \<Rightarrow>
     if \<not> good then (old, s)
     else if n \<le> length bs then (take n bs, (drop n bs, True))
     else (bs @ drop (length bs) old, ([], False)))"

fun load_orders :: "nat \<Rightarrow> (order \<Rightarrow> byte list) \<Rightarrow> (byte list \<Rightarrow> order) \<Rightarrow> nat \<Rightarrow> istream \<Rightarrow> order list \<times> istream" where
  "load_orders n img val 0 s = ([], s)"
| "load_orders n img val (Suc k) s = (let (bs, s1) = in_read n (img default_order) s;
     (os, s2) = load_orders n img val k s1 in (val bs # os, s2))"

definition signed64 :: "nat \<Rightarrow> int" where
  "signed64 v = sint (of_nat v :: 64 word)"

text \<open>
  \<open>load\<close> changes the book, the stops and the sequence number it is given, also when it fails after the magic
  number; the result is its return value and the three of them.
\<close>

definition snapshot_load :: "nat \<Rightarrow> (order \<Rightarrow> byte list) \<Rightarrow> (byte list \<Rightarrow> order) \<Rightarrow> byte list option \<Rightarrow>
    order_book \<times> order list \<times> 64 word \<Rightarrow> bool \<times> order_book \<times> order list \<times> 64 word" where
  "snapshot_load n img val file st = (case (file, st) of
     (None, _) \<Rightarrow> (False, st)
   | (Some bytes, (b, stops, sq)) \<Rightarrow>
       let (mg, s1) = in_read 4 (le_bytes 4 0) (bytes, True) in
       if le_value mg \<noteq> kMagic then (False, st) else
       let (sqb, s2) = in_read 8 (le_bytes 8 (unat sq)) s1;
           (pb, s3) = in_read 8 (le_bytes 8 0) s2;
           (cb, s4) = in_read 4 (le_bytes 4 0) s3;
           (os, s5) = load_orders n img val (le_value cb) s4;
           (kb, s6) = in_read 4 (le_bytes 4 0) s5;
           (sts, s7) = load_orders n img val (le_value kb) s6
       in (snd s7, fold insert_order os (b\<lparr> last_trade_price := signed64 (le_value pb) \<rparr>), sts, of_nat (le_value sqb)))"

section \<open>Bytes\<close>

lemma le_bytes_length [simp]: "length (le_bytes k v) = k"
  by (induction k v rule: le_bytes.induct) auto

lemma le_value_bytes: "le_value (le_bytes k v) = v mod 256 ^ k"
proof (induction k v rule: le_bytes.induct)
  case (2 k v)
  have "unat (of_nat (v mod 256) :: byte) = v mod 256" by (simp add: unsigned_of_nat take_bit_nat_eq_self)
  moreover have "v mod 256 + 256 * (v div 256 mod 256 ^ k) = v mod (256 * 256 ^ k)" by (simp add: mod_mult2_eq)
  ultimately show ?case using 2 by simp
qed simp

lemma in_read_exact: "length x = n \<Longrightarrow> in_read n old (x @ rest, True) = (x, (rest, True))"
  by (auto simp: in_read_def)

lemma load_orders_exact:
  assumes "image_ok n img val"
  shows "list_all (\<lambda>o1. int64_ok (ord_price o1) \<and> int64_ok (ord_stop_price o1)) os \<Longrightarrow>
    load_orders n img val (length os) (concat (map img os) @ rest, True) = (os, (rest, True))"
proof (induction os)
  case (Cons o1 os)
  then have "length (img o1) = n" "val (img o1) = o1" using assms by (simp_all add: image_ok_def)
  then show ?case using Cons by (simp add: in_read_exact)
qed simp

lemma signed64_back:
  assumes "int64_ok p"
  shows "signed64 (nat (p mod 2 ^ 64)) = p"
proof -
  have "(of_nat (nat (p mod 2 ^ 64)) :: 64 word) = word_of_int (p mod 2 ^ 64)" by simp
  also have "\<dots> = word_of_int p" by (simp add: word_of_int_eq_iff take_bit_eq_mod)
  finally have "signed64 (nat (p mod 2 ^ 64)) = sint (word_of_int p :: 64 word)" by (simp add: signed64_def)
  moreover have "signed_take_bit 63 p = p" using assms by (simp add: int64_ok_def signed_take_bit_int_eq_self_iff)
  ultimately show ?thesis by (simp add: signed_of_int)
qed

section \<open>Rebuilding the book\<close>

text \<open>The queues and the id map that inserting a list of orders with distinct new ids gives.\<close>

definition ids_at :: "side \<Rightarrow> price \<Rightarrow> order list \<Rightarrow> order_id list" where
  "ids_at sd p os = map ord_id (filter (\<lambda>o1. ord_side o1 = sd \<and> ord_price o1 = p) os)"

lemma ids_at_append: "ids_at sd p (os @ os') = ids_at sd p os @ ids_at sd p os'"
  by (simp add: ids_at_def)

lemma insert_all:
  assumes "book_ok b" and "distinct (map ord_id os)" and "\<forall>o1\<in>set os. fmlookup (id_map b) (ord_id o1) = None"
  shows "book_ok (fold insert_order os b) \<and> last_trade_price (fold insert_order os b) = last_trade_price b \<and>
    (\<forall>sd p. queue_of (fold insert_order os b) sd p = queue_of b sd p @ ids_at sd p os) \<and>
    (\<forall>sd p. stale_of (fold insert_order os b) sd p = stale_of b sd p) \<and>
    (\<forall>i. fmlookup (id_map (fold insert_order os b)) i =
      (case find (\<lambda>o1. ord_id o1 = i) os of Some o1 \<Rightarrow> Some o1 | None \<Rightarrow> fmlookup (id_map b) i))"
  using assms
proof (induction os arbitrary: b)
  case (Cons o1 os)
  have fresh: "fmlookup (id_map b) (ord_id o1) = None" and d: "distinct (map ord_id os)"
    and new: "\<forall>o2\<in>set os. fmlookup (id_map (insert_order o1 b)) (ord_id o2) = None"
    using Cons.prems(2,3) by force+
  have "ord_id o2 \<noteq> ord_id o1" if "o2 \<in> set os" for o2
    using Cons.prems(2) that by (metis distinct.simps(2) image_eqI list.set_map list.simps(9))
  then have "find (\<lambda>o2. ord_id o2 = ord_id o1) os = None" by (auto simp: find_None_iff)
  with Cons.IH [OF insert_order_ok [OF Cons.prems(1) fresh] d new] show ?case
    using insert_order_queue [OF Cons.prems(1) fresh] by (auto simp: ids_at_def split: option.splits)
qed (simp add: ids_at_def)

section \<open>The orders that are saved\<close>

text \<open>A queue without stale entries of live orders lists its live ids.\<close>

lemma live_filter:
  "D \<subseteq> C \<Longrightarrow> set (live D q) \<inter> C = {} \<Longrightarrow> filter (\<lambda>i. i \<notin> C) q = live D q"
  by (induction D q rule: live.induct) (auto split: if_splits)

definition unstale :: "order_book \<Rightarrow> bool" where
  "unstale b \<longleftrightarrow> (\<forall>sd p i. i \<in> stale_of b sd p \<longrightarrow> fmlookup (id_map b) i = None)"

lemma level_orders_eq:
  assumes bk: "book_ok b" and un: "unstale b" and e: "(p, l) \<in> set (side_levels sd b)"
  shows "level_orders b (p, l) = map (\<lambda>i. the (fmlookup (id_map b) i)) (queue_of b sd p)"
proof -
  have "distinct (map fst (side_levels sd b))"
    using book_ok_levels [OF bk, of sd] bid_side.sorted_distinct ask_side.sorted_distinct
    by (cases sd) (auto simp: levels_ok_def better_Buy better_Sell)
  then have m: "map_of (side_levels sd b) p = Some l" using e by simp
  then have q: "queue_of b sd p = live_ids l" and st: "stale_of b sd p = lvl_cancelled l"
    by (simp_all add: queue_of_def queue_at_def stale_of_def stale_at_def)
  have lk: "fmlookup (id_map b) i \<noteq> None" if "i \<in> set (live_ids l)" for i
    using book_ok_queue [OF bk, of i sd p] that q by auto
  then have "set (live_ids l) \<inter> lvl_cancelled l = {}" using un st unfolding unstale_def by blast
  then have "level_order_ids l = live_ids l"
    using live_filter [of "lvl_cancelled l" "lvl_cancelled l" "lvl_queue l"] by (simp add: level_order_ids_def live_ids_def)
  moreover have "concat (map (\<lambda>i. case find_order i b of None \<Rightarrow> [] | Some o1 \<Rightarrow> [o1]) is) = map (\<lambda>i. the (fmlookup (id_map b) i)) is"
    if "\<forall>i\<in>set is. fmlookup (id_map b) i \<noteq> None" for "is"
    using that by (induction "is") (auto simp: find_order_def)
  ultimately show ?thesis using lk by (simp add: level_orders_def q)
qed

lemma queue_entry:
  assumes "book_ok b" and "i \<in> set (queue_of b sd p)"
  shows "\<exists>o1. fmlookup (id_map b) i = Some o1 \<and> ord_id o1 = i \<and> ord_side o1 = sd \<and> ord_price o1 = p"
  using assms book_ok_queue book_ok_id by blast

lemma queue_unique:
  assumes "book_ok b" and "i \<in> set (queue_of b sd p)" and "i \<in> set (queue_of b sd' p')"
  shows "sd = sd' \<and> p = p'"
  using queue_entry [OF assms(1,2)] queue_entry [OF assms(1,3)] by auto

definition saved_ids :: "order_book \<Rightarrow> side \<Rightarrow> price list \<Rightarrow> order_id list" where
  "saved_ids b sd ps = concat (map (queue_of b sd) ps)"

definition side_keys :: "order_book \<Rightarrow> side \<Rightarrow> price list" where
  "side_keys b sd = map fst (side_levels sd b)"

lemma side_keys_facts:
  assumes "book_ok b"
  shows "distinct (side_keys b sd)" and "p \<in> set (side_keys b sd) \<longleftrightarrow> queue_of b sd p \<noteq> []"
proof -
  show "distinct (side_keys b sd)"
    using book_ok_levels [OF assms, of sd] bid_side.sorted_distinct ask_side.sorted_distinct
    by (cases sd) (auto simp: levels_ok_def better_Buy better_Sell side_keys_def)
  show "p \<in> set (side_keys b sd) \<longleftrightarrow> queue_of b sd p \<noteq> []"
    using queue_at_nonempty [OF book_ok_levels [OF assms, of sd], of p] by (simp add: side_keys_def queue_of_def)
qed

lemma side_orders_eq:
  assumes "book_ok b" and "unstale b"
  shows "side_orders b (side_levels sd b) = map (\<lambda>i. the (fmlookup (id_map b) i)) (saved_ids b sd (side_keys b sd))"
proof -
  have "concat (map (level_orders b) m) = map (\<lambda>i. the (fmlookup (id_map b) i)) (concat (map (queue_of b sd) (map fst m)))"
    if "set m \<subseteq> set (side_levels sd b)" for m
    using that by (induction m) (auto simp: level_orders_eq [OF assms])
  from this [OF subset_refl] show ?thesis by (simp add: side_orders_def saved_ids_def side_keys_def)
qed

lemma saved_ids_distinct:
  assumes "book_ok b" and "distinct ps"
  shows "distinct (saved_ids b sd ps)"
  using assms(2)
proof (induction ps)
  case (Cons p ps)
  have "set (queue_of b sd p) \<inter> set (saved_ids b sd ps) = {}"
    using queue_unique [OF assms(1), of _ sd p sd] Cons.prems by (fastforce simp: saved_ids_def)
  then show ?case using Cons queue_distinct [OF assms(1)] by (simp add: saved_ids_def)
qed (simp add: saved_ids_def)

lemma ids_at_saved:
  assumes "book_ok b" and "distinct ps"
  shows "ids_at sd p (map (\<lambda>i. the (fmlookup (id_map b) i)) (saved_ids b sd' ps)) =
    (if sd = sd' \<and> p \<in> set ps then queue_of b sd p else [])"
proof -
  have q: "ids_at sd p (map (\<lambda>i. the (fmlookup (id_map b) i)) is) =
      (if sd = sd' \<and> p = p' then is else [])" if "set is \<subseteq> set (queue_of b sd' p')" for p' "is"
    using that
  proof (induction "is")
    case (Cons i "is")
    then obtain o1 where "fmlookup (id_map b) i = Some o1" "ord_id o1 = i" "ord_side o1 = sd'" "ord_price o1 = p'"
      using queue_entry [OF assms(1), of i sd' p'] by auto
    then show ?case using Cons by (auto simp: ids_at_def)
  qed (simp add: ids_at_def)
  show ?thesis
    using assms(2)
    by (induction ps) (auto simp: saved_ids_def ids_at_append q [OF subset_refl], simp add: ids_at_def)
qed

text \<open>All orders of a book without stale entries, in the order in which they are saved.\<close>

definition saved_orders :: "order_book \<Rightarrow> order list" where
  "saved_orders b = side_orders b (bids b) @ side_orders b (asks b)"

lemma saved_orders_facts:
  assumes bk: "book_ok b" and un: "unstale b"
  shows "distinct (map ord_id (saved_orders b))" and "ids_at sd p (saved_orders b) = queue_of b sd p"
    and "find (\<lambda>o1. ord_id o1 = i) (saved_orders b) = fmlookup (id_map b) i"
    and "length (saved_orders b) = order_count b"
    and "o1 \<in> set (saved_orders b) \<Longrightarrow> fmlookup (id_map b) (ord_id o1) = Some o1"
proof -
  let ?ids = "saved_ids b Buy (side_keys b Buy) @ saved_ids b Sell (side_keys b Sell)"
  let ?get = "\<lambda>i. the (fmlookup (id_map b) i)"
  have os: "saved_orders b = map ?get ?ids"
    using side_orders_eq [OF assms, of Buy] side_orders_eq [OF assms, of Sell] by (simp add: saved_orders_def)
  have ent: "\<exists>o1. fmlookup (id_map b) j = Some o1 \<and> ord_id o1 = j" if "j \<in> set ?ids" for j
    using that queue_entry [OF bk] by (fastforce simp: saved_ids_def)
  then have ids: "map ord_id (saved_orders b) = ?ids" unfolding os map_map by (intro map_idI) fastforce
  have "set (saved_ids b Buy ps) \<inter> set (saved_ids b Sell qs) = {}" for ps qs
    using queue_unique [OF bk, of _ Buy _ Sell] by (auto simp: saved_ids_def)
  then have dist: "distinct ?ids" using saved_ids_distinct [OF bk side_keys_facts(1) [OF bk]] by simp
  then show dist': "distinct (map ord_id (saved_orders b))" unfolding ids .
  show "ids_at sd p (saved_orders b) = queue_of b sd p"
    using ids_at_saved [OF bk side_keys_facts(1) [OF bk]] side_keys_facts(2) [OF bk, of p sd] os
    by (cases sd) (auto simp: ids_at_def)
  have dom: "j \<in> set ?ids \<longleftrightarrow> fmlookup (id_map b) j \<noteq> None" for j
  proof
    assume "fmlookup (id_map b) j \<noteq> None"
    then obtain o1 where "fmlookup (id_map b) j = Some o1" by blast
    then have "j \<in> set (queue_of b (ord_side o1) (ord_price o1))" by (rule book_ok_queued [OF bk])
    moreover from this have "ord_price o1 \<in> set (side_keys b (ord_side o1))" using side_keys_facts(2) [OF bk] by force
    ultimately show "j \<in> set ?ids" by (cases "ord_side o1") (auto simp: saved_ids_def)
  qed (use ent in blast)
  show look: "fmlookup (id_map b) (ord_id o1) = Some o1" if "o1 \<in> set (saved_orders b)" for o1
    using that ent os by fastforce
  show "find (\<lambda>o1. ord_id o1 = i) (saved_orders b) = fmlookup (id_map b) i"
  proof (cases "i \<in> set ?ids")
    case True
    then obtain o1 where o1: "fmlookup (id_map b) i = Some o1" "ord_id o1 = i" using ent by blast
    then have "o1 \<in> set (saved_orders b)" using True os by force
    then show ?thesis using find_distinct [OF dist', of o1] o1 by simp
  next
    case False
    then have "ord_id o1 \<noteq> i" if "o1 \<in> set (saved_orders b)" for o1 using that ids by (metis image_eqI list.set_map)
    then have "find (\<lambda>o1. ord_id o1 = i) (saved_orders b) = None" by (auto simp: find_None_iff)
    moreover have "fmlookup (id_map b) i = None" using False dom by blast
    ultimately show ?thesis by simp
  qed
  have "fset (fmdom (id_map b)) = set ?ids"
  proof (rule set_eqI)
    show "j \<in> fset (fmdom (id_map b)) \<longleftrightarrow> j \<in> set ?ids" for j using dom [of j] by (auto simp: fmlookup_dom_iff)
  qed
  then have "order_count b = length ?ids" using distinct_card [OF dist] by (simp add: order_count_def fcard.rep_eq)
  then show "length (saved_orders b) = order_count b" using os by simp
qed

section \<open>Round trip\<close>

definition fits64 :: "order \<Rightarrow> bool" where
  "fits64 o1 \<longleftrightarrow> int64_ok (ord_price o1) \<and> int64_ok (ord_stop_price o1)"

lemma snapshot_reloads:
  assumes img: "image_ok n img val" and bk: "book_ok b" and un: "unstale b"
    and fit: "\<forall>i o1. fmlookup (id_map b) i = Some o1 \<longrightarrow> fits64 o1" "list_all fits64 stops" "int64_ok (last_trade_price b)"
    and small: "order_count b < 2 ^ 32" "length stops < 2 ^ 32"
  shows "\<exists>bytes b1. snapshot_save img True b stops sq = (True, Some bytes) \<and>
    snapshot_load n img val (Some bytes) (empty_book, [], 0) = (True, b1, stops, sq) \<and> same_book b b1 \<and>
    (\<forall>sd p. stale_of b1 sd p = {})"
proof -
  let ?os = "saved_orders b"
  let ?b0 = "empty_book\<lparr> last_trade_price := last_trade_price b \<rparr>"
  define pv where "pv = nat (last_trade_price b mod 2 ^ 64)"
  note sv = saved_orders_facts [OF bk un]
  have fo: "list_all (\<lambda>o1. int64_ok (ord_price o1) \<and> int64_ok (ord_stop_price o1)) ?os"
    using sv(5) fit(1) by (auto simp: list_all_iff fits64_def)
  have fs: "list_all (\<lambda>o1. int64_ok (ord_price o1) \<and> int64_ok (ord_stop_price o1)) stops"
    using fit(2) by (simp add: list_all_iff fits64_def)
  have bytes: "snapshot_bytes img b stops sq = le_bytes 4 kMagic @ le_bytes 8 (unat sq)
     @ le_bytes 8 pv @ le_bytes 4 (length ?os)
     @ concat (map img ?os) @ le_bytes 4 (length stops) @ concat (map img stops) @ []"
    unfolding sv(4) pv_def by (simp add: snapshot_bytes_def saved_orders_def)
  have vals: "le_value (le_bytes 4 kMagic) = kMagic" "le_value (le_bytes 8 (unat sq)) = unat sq"
    "le_value (le_bytes 8 pv) = pv"
    "le_value (le_bytes 4 (length ?os)) = length ?os" "le_value (le_bytes 4 (length stops)) = length stops"
  proof -
    have "unat sq < 2 ^ 64" "last_trade_price b mod 2 ^ 64 < 2 ^ 64" using unsigned_less [of sq, where ?'a = nat] by simp_all
    then show "le_value (le_bytes 8 (unat sq)) = unat sq" "le_value (le_bytes 8 pv) = pv"
      by (simp_all add: le_value_bytes nat_less_iff pv_def)
  qed (use small sv(4) in \<open>simp_all add: le_value_bytes kMagic_def\<close>)
  have load: "snapshot_load n img val (Some (snapshot_bytes img b stops sq)) (empty_book, [], 0) =
      (True, fold insert_order ?os ?b0, stops, sq)"
    unfolding bytes snapshot_load_def
    by (simp add: in_read_exact vals load_orders_exact [OF img fo] load_orders_exact [OF img fs, of "[]"]
        signed64_back [OF fit(3), folded pv_def] del: append_Nil2)
  have b0: "book_ok ?b0" by (simp add: book_ok_empty)
  have "\<forall>o1\<in>set ?os. fmlookup (id_map ?b0) (ord_id o1) = None" by (simp add: empty_book_def)
  then have res: "book_ok (fold insert_order ?os ?b0)"
    "last_trade_price (fold insert_order ?os ?b0) = last_trade_price b"
    "\<And>sd p. queue_of (fold insert_order ?os ?b0) sd p = queue_of b sd p"
    "\<And>sd p. stale_of (fold insert_order ?os ?b0) sd p = {}"
    "\<And>i. fmlookup (id_map (fold insert_order ?os ?b0)) i = fmlookup (id_map b) i"
  proof -
    have "queue_of ?b0 sd p = []" "stale_of ?b0 sd p = {}" for sd p
      by (cases sd; simp add: queue_of_def queue_at_def stale_of_def stale_at_def empty_book_def)+
    moreover have "fmlookup (id_map ?b0) i = None" for i by (simp add: empty_book_def)
    moreover note sv(2,3) insert_all [OF b0 sv(1)]
    ultimately show "book_ok (fold insert_order ?os ?b0)" "last_trade_price (fold insert_order ?os ?b0) = last_trade_price b"
      "\<And>sd p. queue_of (fold insert_order ?os ?b0) sd p = queue_of b sd p"
      "\<And>sd p. stale_of (fold insert_order ?os ?b0) sd p = {}"
      "\<And>i. fmlookup (id_map (fold insert_order ?os ?b0)) i = fmlookup (id_map b) i"
      by (simp_all split: option.split)
  qed
  then have "id_map (fold insert_order ?os ?b0) = id_map b" by (intro fmap_ext)
  then show ?thesis using load res by (simp add: snapshot_save_def same_book_def fun_eq_iff)
qed


section \<open>A layout of orders\<close>

text \<open>
  The bytes of an order as x86-64 compilers lay it out: 80 bytes, the fields in the order of the struct, each
  aligned to its size, padding zero.
\<close>

definition side_byte :: "side \<Rightarrow> byte" where
  "side_byte s = (case s of Buy \<Rightarrow> 0 | Sell \<Rightarrow> 1)"

definition type_byte :: "order_type \<Rightarrow> byte" where
  "type_byte t = (case t of Limit \<Rightarrow> 0 | Market \<Rightarrow> 1 | Stop \<Rightarrow> 2 | StopLimit \<Rightarrow> 3 | Iceberg \<Rightarrow> 4)"

definition status_byte :: "order_status \<Rightarrow> byte" where
  "status_byte s = (case s of New \<Rightarrow> 0 | Resting \<Rightarrow> 1 | PartialFilled \<Rightarrow> 2 | Filled \<Rightarrow> 3 | Cancelled \<Rightarrow> 4
     | Rejected \<Rightarrow> 5 | Triggered \<Rightarrow> 6)"

definition byte_side :: "byte \<Rightarrow> side" where
  "byte_side b = (if b = 0 then Buy else Sell)"

definition byte_type :: "byte \<Rightarrow> order_type" where
  "byte_type b = (if b = 0 then Limit else if b = 1 then Market else if b = 2 then Stop else if b = 3 then StopLimit
     else Iceberg)"

definition byte_status :: "byte \<Rightarrow> order_status" where
  "byte_status b = (if b = 0 then New else if b = 1 then Resting else if b = 2 then PartialFilled else if b = 3 then Filled
     else if b = 4 then Cancelled else if b = 5 then Rejected else Triggered)"

definition order_bytes :: "order \<Rightarrow> byte list" where
  "order_bytes o1 = le_bytes 8 (unat (ord_id o1))
     @ (side_byte (ord_side o1) # type_byte (ord_type o1) # replicate 6 0)
     @ le_bytes 8 (nat (ord_price o1 mod 2 ^ 64)) @ le_bytes 8 (nat (ord_stop_price o1 mod 2 ^ 64))
     @ le_bytes 8 (unat (ord_quantity o1)) @ le_bytes 8 (unat (ord_orig_qty o1))
     @ le_bytes 8 (unat (ord_peak_qty o1)) @ le_bytes 8 (unat (ord_reserve_qty o1))
     @ le_bytes 8 (unat (ord_timestamp o1)) @ (status_byte (ord_status o1) # replicate 7 0)"

definition field_at :: "nat \<Rightarrow> byte list \<Rightarrow> nat" where
  "field_at k bs = le_value (take 8 (drop k bs))"

definition order_value :: "byte list \<Rightarrow> order" where
  "order_value bs = \<lparr> ord_id = of_nat (field_at 0 bs), ord_side = byte_side (bs ! 8), ord_type = byte_type (bs ! 9),
     ord_price = signed64 (field_at 16 bs), ord_stop_price = signed64 (field_at 24 bs),
     ord_quantity = of_nat (field_at 32 bs), ord_orig_qty = of_nat (field_at 40 bs),
     ord_peak_qty = of_nat (field_at 48 bs), ord_reserve_qty = of_nat (field_at 56 bs),
     ord_timestamp = of_nat (field_at 64 bs), ord_status = byte_status (bs ! 72) \<rparr>"

lemma enum_bytes [simp]: "byte_side (side_byte s) = s" "byte_type (type_byte t) = t" "byte_status (status_byte st) = st"
  by (cases s; cases t; cases st;
      simp add: byte_side_def side_byte_def byte_type_def type_byte_def byte_status_def status_byte_def)+

lemma uint64_back: "of_nat (le_value (le_bytes 8 (unat (w :: 64 word)))) = w"
proof -
  have "unat w < 2 ^ 64" using unsigned_less [of w, where ?'a = nat] by simp
  then show ?thesis by (simp add: le_value_bytes)
qed

lemma int64_back:
  assumes "int64_ok p"
  shows "signed64 (le_value (le_bytes 8 (nat (p mod 2 ^ 64)))) = p"
proof -
  have "p mod 2 ^ 64 < 2 ^ 64" by simp
  then have "nat (p mod 2 ^ 64) < 256 ^ 8" by (simp add: nat_less_iff)
  then show ?thesis using signed64_back [OF assms] by (simp add: le_value_bytes)
qed

lemma order_image_ok: "image_ok 80 order_bytes order_value"
  unfolding image_ok_def
proof (intro allI impI conjI)
  fix o1 :: order assume fit: "int64_ok (ord_price o1)" "int64_ok (ord_stop_price o1)"
  show "length (order_bytes o1) = 80" by (simp add: order_bytes_def)
  show "order_value (order_bytes o1) = o1"
    unfolding order_value_def order_bytes_def field_at_def using int64_back [OF fit(1)] int64_back [OF fit(2)]
    by (simp add: nth_append uint64_back)
qed

section \<open>Instances\<close>

definition ex_book :: order_book where
  "ex_book = insert_order (ex_limit 2 Sell 101 5) (insert_order (ex_limit 1 Buy 99 10) empty_book)"

lemma ex_book_lookup: "fmlookup (id_map ex_book) i =
  (if i = 2 then Some (ex_limit 2 Sell 101 5) else if i = 1 then Some (ex_limit 1 Buy 99 10) else None)"
  by (simp add: ex_book_def ex_limit_def empty_book_def)

lemma ex_book_ok: "book_ok ex_book" "unstale ex_book"
proof -
  have f1: "fmlookup (id_map empty_book) (ord_id (ex_limit 1 Buy 99 10)) = None" by (simp add: empty_book_def)
  note b1 = insert_order_ok [OF book_ok_empty f1]
  have f2: "fmlookup (id_map (insert_order (ex_limit 1 Buy 99 10) empty_book)) (ord_id (ex_limit 2 Sell 101 5)) = None"
    by (simp add: ex_limit_def empty_book_def)
  show "book_ok ex_book" unfolding ex_book_def by (rule insert_order_ok [OF b1 f2])
  have "stale_of empty_book sd p = {}" for sd p by (cases sd) (simp_all add: stale_of_def stale_at_def empty_book_def)
  then show "unstale ex_book"
    using insert_order_queue [OF book_ok_empty f1] insert_order_queue [OF b1 f2] by (simp add: unstale_def ex_book_def)
qed


definition requeued :: order_book where
  "requeued = (case final_state [NewOrderEvent (ex_limit 1 Buy 99 10), NewOrderEvent (ex_limit 2 Buy 99 10), ex_modify 2 0 11]
     of Some s \<Rightarrow> book s | None \<Rightarrow> empty_book)"

text \<open>
  A quantity increase of an order that is not first at its price leaves its id marked as cancelled in the level:
  \<open>save\<close> counts the order and does not write it.
\<close>
theorem snapshot_omits_requeued:
  "order_count requeued = 2 \<and> map ord_id (saved_orders requeued) = [1]"
  by code_simp

text \<open>
  A file that ends after the header: \<open>load\<close> returns false, and by then has inserted an order with every field at
  its default (id 0, price 0, quantity 0) for each order that is missing.
\<close>
theorem truncated_load_inserts:
  "snapshot_load 80 order_bytes order_value
     (Some (le_bytes 4 kMagic @ le_bytes 8 5 @ le_bytes 8 100 @ le_bytes 4 1 @ [])) (empty_book, [], 0) =
   (False, insert_order default_order (empty_book\<lparr> last_trade_price := 100 \<rparr>), [], 5)"
proof -
  have "order_value (order_bytes default_order) = default_order"
    using order_image_ok by (simp add: image_ok_def default_order_def int64_ok_def)
  moreover have "in_read n old ([], True) = (old, ([], False))" if "0 < n" for n old
    using that by (simp add: in_read_def)
  moreover have "in_read n old ([], False) = (old, ([], False))" for n old by (simp add: in_read_def)
  ultimately show ?thesis
    unfolding snapshot_load_def by (simp add: in_read_exact le_value_bytes kMagic_def signed64_def del: append_Nil2)
qed
end
