(* ===== verification/Replay_Tool.thy ===== *)
theory Replay_Tool
  imports Csv_Replay Snapshot_Manager Engine_Properties "HOL-Library.Sublist"
begin

text \<open>
  The replay tool (\<^verbatim>\<open>tools/replay.cpp\<close>): reads a CSV file of events, submits them to an engine that may start from a
  snapshot, prints the trades and compares them with an expected list. A file system is a partial map from
  paths to contents; the standard output is a list of lines, the standard error a list of \<open>diagnostic\<close>s, whose text
  is given by \<open>diagnostic_lines\<close>; \<open>0\<close> and \<open>1\<close> are exit codes. The constructor of the reader throws when the file
  cannot be opened, which nobody catches (\<open>Uncaught\<close>).
\<close>

datatype tool_end = Exit nat | Uncaught string | Engine_fault fault

datatype diagnostic =
    Usage
  | Load_failed string
  | Loaded "64 word"
  | Skipped "64 word \<times> csv_error"
  | Replayed "64 word" nat
  | No_expected_file string
  | Missing_trade nat nat
  | Different_trade nat string string
  | Extra_trades nat nat
  | Output_matches nat

definition replay_usage :: "string \<Rightarrow> string" where
  "replay_usage prog = ''Usage: '' @ prog @ '' --events <csv> [--snapshot <bin>] [--expected <csv>]''"

fun diagnostic_lines :: "string \<Rightarrow> (string \<Rightarrow> number_error \<Rightarrow> string) \<Rightarrow> diagnostic \<Rightarrow> string list" where
  "diagnostic_lines prog exn Usage = [replay_usage prog]"
| "diagnostic_lines prog exn (Load_failed path) = [''Error: failed to load snapshot: '' @ path]"
| "diagnostic_lines prog exn (Loaded sq) = [''Loaded snapshot at sequence '' @ show_nat (unat sq)]"
| "diagnostic_lines prog exn (Skipped r) = [csv_report exn r]"
| "diagnostic_lines prog exn (Replayed evs n) =
     [''Replayed '' @ show_nat (unat evs) @ '' events, produced '' @ show_nat n @ '' trades'']"
| "diagnostic_lines prog exn (No_expected_file path) = [''Error: cannot open expected file: '' @ path]"
| "diagnostic_lines prog exn (Missing_trade k n) =
     [''MISMATCH at trade '' @ show_nat k @ '': expected more trades, got '' @ show_nat n]"
| "diagnostic_lines prog exn (Different_trade k line got) =
     [''MISMATCH at trade '' @ show_nat k @ '':'', ''  expected: '' @ line, ''  got:      '' @ got]"
| "diagnostic_lines prog exn (Extra_trades k n) =
     [''MISMATCH: expected '' @ show_nat k @ '' trades, got '' @ show_nat n]"
| "diagnostic_lines prog exn (Output_matches k) = [''OK: output matches expected ('' @ show_nat k @ '' trades)'']"

record replay_args =
  events_path :: string
  snap_path :: string
  expected_path :: string

fun replay_parse :: "string list \<Rightarrow> replay_args \<Rightarrow> replay_args option" where
  "replay_parse [] a = Some a"
| "replay_parse [x] a = None"
| "replay_parse (x # v # args) a =
     (if x = ''--events'' then replay_parse args (a\<lparr> events_path := v \<rparr>)
      else if x = ''--snapshot'' then replay_parse args (a\<lparr> snap_path := v \<rparr>)
      else if x = ''--expected'' then replay_parse args (a\<lparr> expected_path := v \<rparr>)
      else None)"

definition trade_to_csv :: "trade \<Rightarrow> string" where
  "trade_to_csv t = show_nat (unat (tr_aggressor_id t)) @ '','' @ show_nat (unat (tr_passive_id t)) @ '','' @
     show_int (tr_price t) @ '','' @ show_nat (unat (tr_quantity t))"

text \<open>The loop that replays the events and counts them, with the reader at its end.\<close>

function replay_events :: "csv_reader \<Rightarrow> engine \<Rightarrow> 64 word \<Rightarrow> string list \<Rightarrow>
    (fault + string list \<times> 64 word \<times> engine) \<times> csv_reader" where
  "replay_events r s event_count trade_lines = (case csv_next r of
     (None, r1) \<Rightarrow> (Inr (trade_lines, event_count, s), r1)
   | (Some ev, r1) \<Rightarrow> (case submit ev s of
       Inl f \<Rightarrow> (Inl f, r1)
     | Inr (res, s1) \<Rightarrow> replay_events r1 s1 (event_count + 1) (trade_lines @ map trade_to_csv (trades res))))"
  by auto
termination
  by (relation "measure (\<lambda>(r, s, n, t). length (csv_file r))") (auto dest: csv_next_shrinks [OF sym])

declare replay_events.simps [simp del]

text \<open>
  The loop over the expected file, after its header: a mismatch, or the number of trades compared.
\<close>

function compare_expected :: "string \<Rightarrow> nat \<Rightarrow> string list \<Rightarrow> diagnostic + nat" where
  "compare_expected content idx trade_lines = (case getline csv_newline content of
     None \<Rightarrow> Inr idx
   | Some (line, rest) \<Rightarrow>
       if line = [] then compare_expected rest idx trade_lines
       else if length trade_lines \<le> idx then Inl (Missing_trade idx (length trade_lines))
       else if trade_lines ! idx \<noteq> line then Inl (Different_trade idx line (trade_lines ! idx))
       else compare_expected rest (Suc idx) trade_lines)"
  by auto
termination
  by (relation "measure (\<lambda>(content, idx, t). length content)") (auto dest: getline_shrinks)

declare compare_expected.simps [simp del]

definition check_expected :: "string \<Rightarrow> string list \<Rightarrow> nat \<times> diagnostic" where
  "check_expected content trade_lines =
     (let rest = (case getline csv_newline content of None \<Rightarrow> [] | Some (header, rest) \<Rightarrow> rest) in
      case compare_expected rest 0 trade_lines of Inl d \<Rightarrow> (1, d)
      | Inr idx \<Rightarrow> if idx \<noteq> length trade_lines then (1, Extra_trades idx (length trade_lines)) else (0, Output_matches idx))"

text \<open>The engine that the replay starts from: new, or with the contents of a snapshot.\<close>

definition replay_engine :: "nat \<Rightarrow> (order \<Rightarrow> byte list) \<Rightarrow> (byte list \<Rightarrow> order) \<Rightarrow> (string \<rightharpoonup> byte list) \<Rightarrow> string \<Rightarrow>
    diagnostic + engine \<times> diagnostic list" where
  "replay_engine n img val snaps path = (let e0 = new_engine default_config in
     if path = [] then Inr (e0, [])
     else case snapshot_load n img val (snaps path) (book e0, [], 0) of
       (ok, b, stops, sq) \<Rightarrow> if ok then Inr (e0\<lparr> book := b, pending_stops := stops \<rparr>, [Loaded sq]) else Inl (Load_failed path))"

text \<open>
  \<open>main\<close> without its name argument: how it ends and what it writes to standard output and standard error. \<open>img\<close> and
  \<open>val\<close> are the layout of an order.
\<close>

definition replay_main :: "nat \<Rightarrow> (order \<Rightarrow> byte list) \<Rightarrow> (byte list \<Rightarrow> order) \<Rightarrow> (string \<rightharpoonup> string) \<Rightarrow> (string \<rightharpoonup> byte list) \<Rightarrow>
    string list \<Rightarrow> tool_end \<times> string list \<times> diagnostic list" where
  "replay_main n img val texts snaps args =
     (case replay_parse args \<lparr> events_path = [], snap_path = [], expected_path = [] \<rparr> of None \<Rightarrow> (Exit 1, [], [Usage])
      | Some a \<Rightarrow> if events_path a = [] then (Exit 1, [], [Usage]) else
     (case replay_engine n img val snaps (snap_path a) of Inl d \<Rightarrow> (Exit 1, [], [d])
      | Inr (e1, ds) \<Rightarrow>
     (case csv_open (events_path a) (texts (events_path a)) of Inl msg \<Rightarrow> (Uncaught msg, [], ds)
      | Inr r \<Rightarrow>
     (case replay_events r e1 0 [] of (run, r1) \<Rightarrow>
     let ds1 = ds @ map Skipped (csv_reported r1) in
     case run of Inl f \<Rightarrow> (Engine_fault f, [], ds1)
      | Inr (trade_lines, event_count, e2) \<Rightarrow>
         let ds2 = ds1 @ [Replayed event_count (length trade_lines)] in
         if expected_path a = [] then (Exit 0, trade_lines, ds2)
         else case texts (expected_path a) of None \<Rightarrow> (Exit 1, trade_lines, ds2 @ [No_expected_file (expected_path a)])
           | Some content \<Rightarrow> (case check_expected content trade_lines of
               (code, d) \<Rightarrow> (Exit code, trade_lines, ds2 @ [d]))))))"

section \<open>The verdict\<close>

lemma split_on_getline:
  "getline d s = None \<Longrightarrow> split_on d s = []"
  "getline d s = Some (x, rest) \<Longrightarrow> split_on d s = x # split_on d rest"
  by (simp_all add: split_on.simps [of d s])

lemma compare_expected_eq:
  "idx \<le> length ts \<Longrightarrow> compare_expected content idx ts =
    (let es = filter (\<lambda>l. l \<noteq> []) (split_on csv_newline content); k = length (longest_common_prefix es (drop idx ts)) in
      if k = length es then Inr (idx + k)
      else if idx + k = length ts then Inl (Missing_trade (idx + k) (length ts))
      else Inl (Different_trade (idx + k) (es ! k) (ts ! (idx + k))))"
proof (induction content idx ts rule: compare_expected.induct)
  case (1 content idx ts)
  show ?case
  proof (cases "getline csv_newline content")
    case None
    then show ?thesis using 1 by (simp add: compare_expected.simps [of content] split_on_getline)
  next
    case (Some p)
    obtain line rest where p: "p = (line, rest)" by fastforce
    note gl = Some [unfolded p]
    note sp = split_on_getline(2) [OF gl]
    show ?thesis
    proof (cases "line = []")
      case True
      then show ?thesis using "1.IH"(1) [OF gl refl True "1.prems"] by (simp add: compare_expected.simps [of content] gl sp)
    next
      case False
      show ?thesis
      proof (cases "length ts \<le> idx")
        case True
        then show ?thesis using False "1.prems" by (simp add: compare_expected.simps [of content] gl sp)
      next
        case idx: False
        then have dr: "drop idx ts = ts ! idx # drop (Suc idx) ts" by (simp add: Cons_nth_drop_Suc)
        show ?thesis
          using "1.IH"(2) [OF gl refl False idx] False idx
          by (auto simp: compare_expected.simps [of content] gl sp dr Let_def)
      qed
    qed
  qed
qed

text \<open>How a list of trade lines compares with the expected lines.\<close>

definition verdict :: "string list \<Rightarrow> string list \<Rightarrow> nat \<times> diagnostic" where
  "verdict es ts = (let k = length (longest_common_prefix es ts) in
     if es = ts then (0, Output_matches k)
     else (1, if k = length es then Extra_trades k (length ts)
       else if k = length ts then Missing_trade k k
       else Different_trade k (es ! k) (ts ! k)))"

lemma common_prefix_length:
  "length (longest_common_prefix xs ys) = length xs \<and> length (longest_common_prefix xs ys) = length ys \<longleftrightarrow> xs = ys"
  by (induction xs ys rule: longest_common_prefix.induct) auto

lemma check_expected_verdict:
  "check_expected content ts = verdict (filter (\<lambda>l. l \<noteq> []) (tl (split_on csv_newline content))) ts"
proof -
  let ?rest = "case getline csv_newline content of None \<Rightarrow> [] | Some (header, rest) \<Rightarrow> rest"
  have "tl (split_on csv_newline content) = split_on csv_newline ?rest"
    by (cases "getline csv_newline content") (auto simp: split_on_getline split: prod.splits)
  then show ?thesis
    using compare_expected_eq [of 0 ts ?rest] common_prefix_length [of "filter (\<lambda>l. l \<noteq> []) (split_on csv_newline ?rest)" ts]
    by (auto simp: check_expected_def verdict_def Let_def)
qed

lemma replay_events_eq:
  "case run_events (fst (csv_read_all r)) s of
     Inl f \<Rightarrow> fst (replay_events r s n ls) = Inl f
   | Inr (rs, s1) \<Rightarrow> replay_events r s n ls = (Inr (ls @ map trade_to_csv (concat (map trades rs)), n + of_nat (length (fst (csv_read_all r))), s1),
       snd (csv_read_all r))"
proof (induction r s n ls rule: replay_events.induct)
  case (1 r s n ls)
  obtain oe r1 where nx: "csv_next r = (oe, r1)" by fastforce
  show ?case
  proof (cases oe)
    case None
    then show ?thesis by (simp add: replay_events.simps [of r] csv_read_all.simps [of r] nx)
  next
    case (Some ev)
    then have rd: "fst (csv_read_all r) = ev # fst (csv_read_all r1)" "snd (csv_read_all r) = snd (csv_read_all r1)"
      by (simp_all add: csv_read_all.simps [of r] nx split: prod.split)
    moreover note step = replay_events.simps [of r s n ls]
    ultimately show ?thesis
    proof (cases "submit ev s")
      case (Inr p)
      obtain res s1 where p: "p = (res, s1)" by fastforce
      note Inr [unfolded p]
      moreover from this have "replay_events r s n ls = replay_events r1 s1 (n + 1) (ls @ map trade_to_csv (trades res))"
        using step nx Some by simp
      moreover note rd "1.IH" [OF nx [symmetric] Some \<open>submit ev s = Inr (res, s1)\<close> refl]
      ultimately show ?thesis by (cases "run_events (fst (csv_read_all r1)) s1") (auto simp: add_ac)
    qed (simp add: step nx Some)
  qed
qed

text \<open>
  C33. The replay tool decides conformance: given a readable event file and a readable expected file, its output is one
  line per trade that the engine makes on the events that the reader finds in the file, in order, and it exits with
  0 exactly when those lines are the non-empty lines of the expected file after its first line. Otherwise it names
  the first trade that differs, or how many are missing. Standard error also lists every line of the event file that
  cannot be read.
\<close>
theorem replay_verdict:
  assumes "texts ep = Some csv" and "ep \<noteq> []" and "texts xp = Some expd" and "xp \<noteq> []" and "csv_open ep (Some csv) = Inr r"
    and "csv_read_all r = (evs, r1)"
  shows "case run_events evs (new_engine default_config) of
      Inl f \<Rightarrow> (\<exists>ds. replay_main n img val texts snaps [''--events'', ep, ''--expected'', xp] = (Engine_fault f, [], ds))
    | Inr (rs, s) \<Rightarrow> (let ls = map trade_to_csv (concat (map trades rs));
          es = filter (\<lambda>l. l \<noteq> []) (tl (split_on csv_newline expd)) in
        replay_main n img val texts snaps [''--events'', ep, ''--expected'', xp] =
          (Exit (if es = ls then 0 else 1), ls,
           map Skipped (csv_reported r1) @ [Replayed (of_nat (length evs)) (length ls), snd (verdict es ls)]))"
proof -
  have "fst (verdict es ls) = (if es = ls then 0 else 1)" for es ls by (simp add: verdict_def Let_def)
  moreover have "replay_engine n img val snaps [] = Inr (new_engine default_config, [])" by (simp add: replay_engine_def Let_def)
  ultimately show ?thesis
    using assms replay_events_eq [of r "new_engine default_config" 0 "[]"]
    by (cases "run_events evs (new_engine default_config)")
      (auto simp: replay_main_def check_expected_verdict Let_def split_beta)
qed

definition ex_replayed :: "order_event list" where
  "ex_replayed = [NewOrderEvent (ex_limit 1 Sell 101 10), NewOrderEvent (ex_limit 2 Buy 101 4)]"

definition ex_expected :: string where
  "ex_expected = ''aggressor,passive,price,qty'' @ [csv_newline] @ ''2,1,101,4'' @ [csv_newline]"

definition ex_texts :: "string \<rightharpoonup> string" where
  "ex_texts = [''events.csv'' \<mapsto> ''type'' @ csv_newline # event_file ex_replayed, ''expected.csv'' \<mapsto> ex_expected]"

theorem replay_verdict_witness:
  "replay_main 80 order_bytes order_value ex_texts (\<lambda>p. None) [''--events'', ''events.csv'', ''--expected'', ''expected.csv''] =
    (Exit 0, [''2,1,101,4''], [Replayed 2 1, Output_matches 1])"
proof -
  let ?r = "\<lparr> csv_file = event_file ex_replayed, csv_line_number = 1, csv_error_count = 0, csv_reported = [] \<rparr>"
  have "list_all csv_event ex_replayed" by (simp add: ex_replayed_def ex_limit_def default_order_def int64_ok_def)
  moreover have "csv_newline \<notin> set ''type''" by code_simp
  ultimately have rd: "csv_open ''events.csv'' (Some (''type'' @ csv_newline # event_file ex_replayed)) = Inr ?r"
      "csv_read_all ?r = (ex_replayed, ?r\<lparr> csv_file := [], csv_line_number := 3 \<rparr>)"
    using event_file_read [of ex_replayed "''type''"] by (simp_all add: ex_replayed_def)
  have run: "map_sum id (\<lambda>(rs, s). map trade_to_csv (concat (map trades rs))) (run_events ex_replayed (new_engine default_config)) =
      Inr [''2,1,101,4'']" by code_simp
  have es: "filter (\<lambda>l. l \<noteq> []) (tl (split_on csv_newline ex_expected)) = [''2,1,101,4'']" by code_simp
  have "ex_texts ''events.csv'' = Some (''type'' @ csv_newline # event_file ex_replayed)"
    "ex_texts ''expected.csv'' = Some ex_expected" by (simp_all add: ex_texts_def)
  from replay_verdict [OF this(1) _ this(2) _ rd] run show ?thesis
    by (cases "run_events ex_replayed (new_engine default_config)")
      (auto simp: es Let_def verdict_def ex_replayed_def)
qed

end
