(* ===== verification/Recovery.thy ===== *)
theory Recovery
  imports Engine_View Replay_Tool
begin

text \<open>
  Recovery from a snapshot, across the snapshot manager, the engine and the replay tool. A snapshot keeps
  only the resting orders in queue order, the pending stops, the last trade price and the sequence number:
  not the lazily deleted entries nor the stored volumes. Since the engine reads no more than that
  (\<^verbatim>\<open>Engine_View\<close>), an engine that starts from a loaded snapshot continues as the saved one would have.
\<close>

section \<open>Prices stay in range\<close>

text \<open>
  The file keeps prices as 64-bit integers. Prices are never computed, so when those of the events are in
  range every price of the engine is, its last trade price included.
\<close>

definition fitting :: "order list \<Rightarrow> engine \<Rightarrow> bool" where
  "fitting X s \<longleftrightarrow> config_ok X s \<and> list_all fits64 (X @ pending_stops s) \<and> int64_ok (last_trade_price (book s))
     \<and> (\<forall>i o1. fmlookup (id_map (book s)) i = Some o1 \<longrightarrow> fits64 o1)"

lemma fits64_simps [simp]:
  "fits64 (prepare_order o1) = fits64 o1"
  "fits64 (o1\<lparr> ord_quantity := q \<rparr>) = fits64 o1" "fits64 (o1\<lparr> ord_status := z \<rparr>) = fits64 o1"
  "fits64 o1 \<Longrightarrow> fits64 (convert_stop o1)"
  by (auto simp: fits64_def prepare_order_def split_iceberg_def convert_stop_def Let_def int64_ok_def)

lemma passive_after_fits: "passive_after p q = Some p1 \<Longrightarrow> fits64 p1 = fits64 p"
  by (auto simp: passive_after_def replenished_def fits64_def split: if_splits)

lemma mstep_fitting:
  assumes "mstep (X, s, r) (X1, s1, r1)" and inv: "fitting X s"
  shows "fitting X1 s1"
proof -
  have ok: "config_ok X s" using inv by (simp add: fitting_def)
  have ok1: "config_ok X1 s1" by (rule mstep_config_ok [OF assms(1) ok])
  show ?thesis
    using assms(1)
  proof (cases "(X, s, r)" "(X1, s1, r1)" rule: mstep.cases)
    case (fill a e j p s2 a1 t X)
    have ok': "config_ok (a # X) s" using ok fill(1) by simp
    note f = fill_effect [OF ok' fill(5,7,8)]
    have p: "fits64 p" using inv f(3) by (simp add: fitting_def)
    have "last_trade_price (book s1) = ord_price p"
      using fill_facts [OF config_okD(1) [OF ok'] fill(5,7,8)] by auto
    moreover have "fits64 o1" if "fmlookup (id_map (book s1)) i = Some o1" for i o1
      using that inv p passive_after_fits [of p _ o1]
      by (cases "i = j") (auto simp: f(7) fill_map_same fill_map_other fitting_def)
    ultimately show ?thesis using inv ok1 fill(1,2) f(1,8) p by (auto simp: fitting_def fits64_def [of p])
  qed (use inv ok1 in \<open>auto simp: fitting_def rest_order_def\<close>)
qed

interpretation fitting: step_invariant "\<lambda>X s r. fitting X s"
  by unfold_locales (rule mstep_fitting)

fun event_fits :: "order_event \<Rightarrow> bool" where
  "event_fits (NewOrderEvent o1) = fits64 o1"
| "event_fits (CancelOrderEvent e) = True"
| "event_fits (ModifyOrderEvent e) = int64_ok (mod_new_price e)"
| "event_fits (ReplaceOrderEvent e) = fits64 (new_order e)"

lemma fitting_counted [simp]: "fitting X (s\<lparr> sequence := k \<rparr>) = fitting X s"
  by (simp add: fitting_def)

lemma fitting_new:
  assumes "fitting [] s" and "fits64 o1" and "fresh_id (ord_id o1) s" and run: "process_new_order n o1 s = Inr (r, s1)"
  shows "fitting [] s1"
proof -
  have e: "engine_ok s" using assms(1) by (simp add: fitting_def engine_ok_def)
  have "config_ok [prepare_order o1] s"
    using config_ok_ids [OF fresh_config [OF e assms(3)], of "prepare_order o1"] by simp
  then have "fitting [prepare_order o1] s" using assms(1,2) by (auto simp: fitting_def)
  from fitting.new_order [OF run engine_okD(3) [OF e] this] show ?thesis .
qed

lemma fitting_cancel_book:
  assumes "fitting [] s" and "engine_ok (s\<lparr> book := snd (cancel_order i (book s)) \<rparr>)"
  shows "fitting [] (s\<lparr> book := snd (cancel_order i (book s)) \<rparr>)"
  using assms cancel_order_fields(1) [of "book s" i]
  by (cases "fmlookup (id_map (book s)) i")
     (auto simp: fitting_def engine_ok_def cancel_order_fields(2) cancel_order_None)

lemma fitting_cancel:
  assumes "fitting [] s" and c: "cancellable (cancel_order_id e) (book s)"
  shows "fitting [] (snd (process_cancel e s))"
proof -
  have ok: "engine_ok s" using assms(1) by (simp add: fitting_def engine_ok_def)
  show ?thesis
  proof (cases "take_stop (cancel_order_id e) (pending_stops s)")
    case None
    then show ?thesis using assms(1) fitting_cancel_book [OF assms(1) engine_ok_cancel_book [OF ok c]]
      by (simp add: process_cancel_def split: option.split)
  next
    case (Some p)
    obtain st ps where p: "p = (st, ps)" by fastforce
    from take_stop_Some [OF Some [unfolded p]] obtain xs ys where "pending_stops s = xs @ st # ys" "ps = xs @ ys" by blast
    then show ?thesis using Some p assms(1) process_cancel_ok [OF ok c] by (auto simp: process_cancel_def fitting_def engine_ok_def)
  qed
qed

lemma disciplined_state:
  "history_ok used [] s \<Longrightarrow> fitting [] s \<Longrightarrow> disciplined used (evs @ evs2) \<Longrightarrow> list_all event_fits evs \<Longrightarrow>
   run_events evs s = Inr (rs, s1) \<Longrightarrow>
   \<exists>used1. history_ok used1 [] s1 \<and> fitting [] s1 \<and> disciplined used1 evs2"
proof (induction evs arbitrary: used s rs)
  case Nil
  then show ?case by auto
next
  case (Cons ev evs)
  from Cons.prems(5) obtain r s2 rs2 where run: "submit ev s = Inr (r, s2)" "run_events evs s2 = Inr (rs2, s1)"
    by (auto simp: bind_res_Inr_iff)
  note h = Cons.prems(1) and ft = Cons.prems(2)
  have e: "engine_ok s" using h by (simp add: history_ok_def engine_ok_def)
  show ?case
  proof (cases ev)
    case (NewOrderEvent o1)
    then have d: "ord_id o1 \<notin> used" "disciplined (insert (ord_id o1) used) (evs @ evs2)" "fits64 o1"
      using Cons.prems(3,4) by simp_all
    note sub = run(1) [unfolded NewOrderEvent submit_new_run]
    have hc: "history_ok used [] (counted s)" using h by (simp add: history_counted)
    from Cons.IH [OF history_new [OF hc d(1) sub] fitting_new [OF _ d(3) history_event_ok(2) [OF hc d(1)] sub] d(2) _ run(2)]
    show ?thesis using ft Cons.prems(4) by simp
  next
    case (CancelOrderEvent e)
    have s2: "s2 = snd (process_cancel e (counted s))"
      using run(1) by (simp add: CancelOrderEvent submit_def submit_fuel_def)
    have hc: "history_ok used [] (counted s)" using h by (simp add: history_counted)
    have "fitting [] s2" unfolding s2 by (rule fitting_cancel [OF _ history_event_ok(1) [OF hc]]) (simp add: ft)
    from Cons.IH [OF _ this _ _ run(2), of used] show ?thesis
      using Cons.prems(3,4) history_cancel [OF hc, of e] by (simp add: CancelOrderEvent s2)
  next
    case (ModifyOrderEvent e)
    then show ?thesis using Cons.prems(3) by simp
  next
    case (ReplaceOrderEvent e)
    then have d: "ord_id (new_order e) \<notin> used" "disciplined (insert (ord_id (new_order e)) used) (evs @ evs2)" "fits64 (new_order e)"
      using Cons.prems(3,4) by simp_all
    show ?thesis
    proof (cases "has_order (old_order_id e) (book s)")
      case True
      let ?s = "(counted s)\<lparr> book := snd (cancel_order (old_order_id e) (book s)) \<rparr>"
      note sub = run(1) [unfolded ReplaceOrderEvent submit_replace_run [OF True]]
      have hc: "history_ok used [] ?s" using history_cancel_book [of used "counted s"] h by (simp add: history_counted)
      then have "engine_ok ((counted s)\<lparr> book := snd (cancel_order (old_order_id e) (book (counted s))) \<rparr>)"
        by (simp add: history_ok_def engine_ok_def)
      then have "fitting [] ?s" using fitting_cancel_book [of "counted s" "old_order_id e"] ft by simp
      from Cons.IH [OF history_new [OF hc d(1) sub] fitting_new [OF this d(3) history_event_ok(2) [OF hc d(1)] sub] d(2) _ run(2)]
      show ?thesis using Cons.prems(4) by simp
    next
      case False
      then have "s2 = counted s" using run(1) by (simp add: ReplaceOrderEvent submit_def submit_fuel_def process_replace_def)
      moreover have "history_ok (insert (ord_id (new_order e)) used) [] s" using h by (auto simp: history_ok_def)
      ultimately show ?thesis using Cons.IH [OF _ _ d(2) _ run(2)] Cons.prems(4) ft by (simp add: history_counted)
    qed
  qed
qed

section \<open>Resuming\<close>

definition resumed :: "order_book \<Rightarrow> order list \<Rightarrow> engine" where
  "resumed b stops = (new_engine default_config)\<lparr> book := b, pending_stops := stops \<rparr>"

lemma resumed_history:
  assumes h: "history_ok used [] s" and b: "same_book (book s) b" "\<forall>sd p. stale_of b sd p = {}"
  shows "same_view s (resumed b (pending_stops s))" and "history_ok used [] (resumed b (pending_stops s))"
proof -
  show v: "same_view s (resumed b (pending_stops s))" using b by (simp add: same_view_def resumed_def)
  have "config_ok [] s" using h by (simp add: history_ok_def)
  from same_view_config [OF v this] show "history_ok used [] (resumed b (pending_stops s))"
    using h b same_viewD(3) [OF v] by (auto simp: history_ok_def resumed_def)
qed

lemma resume_run:
  assumes img: "image_ok n img val" and d: "disciplined {} (evs @ evs2)" and f: "list_all event_fits evs"
    and run: "run_events evs (new_engine cfg) = Inr (rs, s)"
    and small: "order_count (book s) < 2 ^ 32" "length (pending_stops s) < 2 ^ 32"
  shows "\<exists>bytes b rs2 s2 s2'. snapshot_save img True (book s) (pending_stops s) (sequence s) = (True, Some bytes) \<and>
    snapshot_load n img val (Some bytes) (empty_book, [], 0) = (True, b, pending_stops s, sequence s) \<and>
    run_events evs2 s = Inr (rs2, s2) \<and> run_events evs2 (resumed b (pending_stops s)) = Inr (rs2, s2') \<and> same_view s2 s2'"
proof -
  have "fitting [] (new_engine cfg)"
    using history_start [of cfg] by (simp add: fitting_def history_ok_def new_engine_def empty_book_def int64_ok_def)
  from disciplined_state [OF history_start this d f run] obtain used
    where h: "history_ok used [] s" and ft: "fitting [] s" and d2: "disciplined used evs2" by blast
  have bk: "book_ok (book s)" and un: "unstale (book s)"
    using h by (auto simp: history_ok_def config_ok_def unstale_def)
  have fit: "\<forall>i o1. fmlookup (id_map (book s)) i = Some o1 \<longrightarrow> fits64 o1" "list_all fits64 (pending_stops s)"
    "int64_ok (last_trade_price (book s))" using ft by (simp_all add: fitting_def)
  from snapshot_reloads [OF img bk un fit small, of "sequence s"] obtain bytes b where sn:
    "snapshot_save img True (book s) (pending_stops s) (sequence s) = (True, Some bytes)"
    "snapshot_load n img val (Some bytes) (empty_book, [], 0) = (True, b, pending_stops s, sequence s)"
    "same_book (book s) b" "\<forall>sd p. stale_of b sd p = {}" by blast
  note res = resumed_history [OF h sn(3,4)]
  have ok: "engine_ok s" using h by (simp add: history_ok_def engine_ok_def)
  note ev = disciplined_events_ok [OF h d2] disciplined_events_ok [OF res(2) d2]
  from run_events_returns [OF ok ev(1)] obtain rs2 s2 where run2: "run_events evs2 s = Inr (rs2, s2)" by blast
  from same_answerD [OF run_events_view [OF ok res(1) ev] run2] sn(1,2) run2 show ?thesis by blast
qed


definition ex_more_events :: "order_event list" where
  "ex_more_events = [CancelOrderEvent \<lparr> cancel_order_id = 1, cancel_timestamp = 8 \<rparr>, NewOrderEvent (ex_limit 6 Buy 102 60)]"

lemma ex_resume:
  "disciplined {} (ex_events @ ex_more_events)" "list_all event_fits ex_events"
  "run_events ex_events (new_engine default_config) = Inr (replicate 5 empty_result, ex_engine)"
  "order_count (book ex_engine) < 2 ^ 32" "length (pending_stops ex_engine) < 2 ^ 32"
proof -
  show "disciplined {} (ex_events @ ex_more_events)" by code_simp
  show "list_all event_fits ex_events"
    by (simp add: ex_events_def ex_limit_def ex_iceberg_def ex_stop_def default_order_def fits64_def int64_ok_def)
  have "map_sum id fst (run_events ex_events (new_engine default_config)) = Inr (replicate 5 empty_result)" by code_simp
  then show "run_events ex_events (new_engine default_config) = Inr (replicate 5 empty_result, ex_engine)"
    by (cases "run_events ex_events (new_engine default_config)") (auto simp: ex_engine_def)
  have "order_count (book ex_engine) = 4" "length (pending_stops ex_engine) = 1" by code_simp+
  then show "order_count (book ex_engine) < 2 ^ 32" "length (pending_stops ex_engine) < 2 ^ 32" by simp_all
qed

lemma ex_more_trades:
  "map_sum id (\<lambda>(rs, s). map trade_to_csv (concat (map trades rs))) (run_events ex_more_events ex_engine) =
    Inr [''6,2,101,10'', ''6,2,101,10'', ''6,2,101,10'', ''6,3,102,30'', ''5,3,102,5'']"
  by code_simp



definition ex_resume_texts :: "string \<rightharpoonup> string" where
  "ex_resume_texts = [''more.csv'' \<mapsto> ''type'' @ csv_newline # event_file ex_more_events]"

definition ex_resume_snaps :: "string \<rightharpoonup> byte list" where
  "ex_resume_snaps = [''book.bin'' \<mapsto> snapshot_bytes order_bytes (book ex_engine) (pending_stops ex_engine) (sequence ex_engine)]"


end
