(* ===== verification/Synthetic_Feed.thy ===== *)
theory Synthetic_Feed
  imports Engine_Properties
begin

text \<open>
  The synthetic order feed (\<^verbatim>\<open>src/feed/synthetic_gen.hpp\<close>, \<^verbatim>\<open>synthetic_gen.cpp\<close>). The random numbers
  are an argument: C++ leaves the algorithms of the distributions to the implementation. A \<open>random_lib\<close> draws a
  number from a generator state, which holds \<open>rng_\<close> and what the distributions remember; \<open>random_ok\<close> is the
  documented range of an integer distribution.
\<close>

section \<open>Generator\<close>

record 'r random_lib =
  seeded :: "64 word \<Rightarrow> 'r"
  draw_uniform :: "'r \<Rightarrow> rat \<times> 'r"
  draw_normal :: "rat \<Rightarrow> 'r \<Rightarrow> rat \<times> 'r"
  draw_int :: "int \<Rightarrow> int \<Rightarrow> 'r \<Rightarrow> int \<times> 'r"

definition random_ok :: "'r random_lib \<Rightarrow> bool" where
  "random_ok lib \<longleftrightarrow> (\<forall>lo hi r. lo \<le> hi \<longrightarrow> lo \<le> fst (draw_int lib lo hi r) \<and> fst (draw_int lib lo hi r) \<le> hi)"

lemma random_okD: "random_ok lib \<Longrightarrow> draw_int lib lo hi r = (v, r') \<Longrightarrow> lo \<le> hi \<Longrightarrow> lo \<le> v \<and> v \<le> hi"
  unfolding random_ok_def by (metis fst_conv)

record 'r synthetic_generator =
  gen_config :: engine_config
  gen_mid_price :: price
  next_order_id :: "64 word"
  event_count :: "64 word"
  max_events :: "64 word"
  current_ts :: timestamp
  live_orders :: "order_id list"
  gen_rng :: 'r

definition new_generator :: "'r random_lib \<Rightarrow> engine_config \<Rightarrow> 64 word \<Rightarrow> 64 word \<Rightarrow> 'r synthetic_generator" where
  "new_generator lib cfg seed mx = \<lparr> gen_config = cfg, gen_mid_price = cfg_mid_price cfg, next_order_id = 1,
     event_count = 0, max_events = mx, current_ts = 1700000000000000000, live_orders = [], gen_rng = seeded lib seed \<rparr>"

text \<open>\<open>std::round\<close>: to the nearest integer, halves away from zero.\<close>

definition round_away :: "rat \<Rightarrow> int" where
  "round_away x = (if 0 \<le> x then \<lfloor>x + 1 / 2\<rfloor> else \<lceil>x - 1 / 2\<rceil>)"

definition sample_price :: "'r random_lib \<Rightarrow> 'r synthetic_generator \<Rightarrow> price \<times> 'r synthetic_generator" where
  "sample_price lib g = (let (offset, r) = draw_normal lib (price_std_dev (gen_config g)) (gen_rng g);
     p = gen_mid_price g + round_away offset in (max p 1, g\<lparr> gen_rng := r \<rparr>))"

definition generate_new_order :: "'r random_lib \<Rightarrow> 'r synthetic_generator \<Rightarrow> order_event \<times> 'r synthetic_generator" where
  "generate_new_order lib g = (let
     i = next_order_id g;
     (u, r1) = draw_uniform lib (gen_rng g);
     sd = (if u < 1 / 2 then Buy else Sell);
     (q, r2) = draw_int lib 1 500 r1;
     g2 = g\<lparr> next_order_id := next_order_id g + 1, gen_rng := r2 \<rparr>;
     o1 = default_order\<lparr> ord_id := i, ord_side := sd, ord_type := Limit, ord_quantity := word_of_int q,
       ord_orig_qty := word_of_int q, ord_timestamp := current_ts g, ord_status := New \<rparr>;
     (p, g3) = (if market_maker_mode (gen_config g)
       then let (d, r3) = draw_int lib 1 3 (gen_rng g2) in
         (if is_buy o1 then gen_mid_price g - d else gen_mid_price g + d, g2\<lparr> gen_rng := r3 \<rparr>)
       else sample_price lib g2)
   in (NewOrderEvent (o1\<lparr> ord_price := p \<rparr>), g3\<lparr> live_orders := live_orders g3 @ [i] \<rparr>))"

definition swap_and_pop :: "nat \<Rightarrow> 'a list \<Rightarrow> 'a list" where
  "swap_and_pop k xs = butlast (xs[k := last xs])"

definition generate_cancel :: "'r random_lib \<Rightarrow> 'r synthetic_generator \<Rightarrow> order_event \<times> 'r synthetic_generator" where
  "generate_cancel lib g = (let
     (k, r) = draw_int lib 0 (int (length (live_orders g)) - 1) (gen_rng g);
     i = live_orders g ! nat k
   in (CancelOrderEvent \<lparr> cancel_order_id = i, cancel_timestamp = current_ts g \<rparr>,
       g\<lparr> live_orders := swap_and_pop (nat k) (live_orders g), gen_rng := r \<rparr>))"

definition gen_next :: "'r random_lib \<Rightarrow> 'r synthetic_generator \<Rightarrow> (order_event \<times> 'r synthetic_generator) option" where
  "gen_next lib g = (if max_events g \<le> event_count g then None else
     let g1 = g\<lparr> event_count := event_count g + 1, current_ts := current_ts g + 1000000 \<rparr>;
       (do_cancel, g2) = (if live_orders g1 = [] then (False, g1)
         else let (u, r) = draw_uniform lib (gen_rng g1) in (u < cancel_probability (gen_config g1), g1\<lparr> gen_rng := r \<rparr>))
     in Some (if do_cancel then generate_cancel lib g2 else generate_new_order lib g2))"

text \<open>Every call uses up one of the events the generator may produce.\<close>

definition gen_left :: "'r synthetic_generator \<Rightarrow> nat" where
  "gen_left g = unat (max_events g) - unat (event_count g)"

lemma word_inc: "w < (v :: 64 word) \<Longrightarrow> unat (w + 1) = Suc (unat w)"
  using unsigned_less [of v, where ?'a = nat] by (simp add: unat_word_ariths word_less_nat_alt)

lemma generate_counts:
  "generate_new_order lib g = (ev, g1) \<Longrightarrow> event_count g1 = event_count g \<and> max_events g1 = max_events g \<and>
     gen_config g1 = gen_config g \<and> gen_mid_price g1 = gen_mid_price g"
  "generate_cancel lib g = (ev, g1) \<Longrightarrow> event_count g1 = event_count g \<and> max_events g1 = max_events g \<and>
     gen_config g1 = gen_config g \<and> gen_mid_price g1 = gen_mid_price g \<and> next_order_id g1 = next_order_id g"
  by (auto simp: generate_new_order_def generate_cancel_def sample_price_def Let_def split: prod.splits if_splits)

lemma gen_next_counts:
  assumes "gen_next lib g = Some (ev, g1)"
  shows "event_count g < max_events g" "event_count g1 = event_count g + 1" "max_events g1 = max_events g"
    and "gen_config g1 = gen_config g" "gen_mid_price g1 = gen_mid_price g"
  using assms
  by (auto simp: gen_next_def Let_def not_le dest!: generate_counts split: if_splits prod.splits)

lemma gen_left_next: "gen_next lib g = Some (ev, g1) \<Longrightarrow> gen_left g = Suc (gen_left g1)"
  using gen_next_counts [of lib g ev g1] word_inc [of "event_count g" "max_events g"]
  by (simp add: gen_left_def word_less_nat_alt)

text \<open>The events of the loop \<open>while (gen.next(event))\<close>.\<close>

function gen_all :: "'r random_lib \<Rightarrow> 'r synthetic_generator \<Rightarrow> order_event list" where
  "gen_all lib g = (case gen_next lib g of None \<Rightarrow> [] | Some (ev, g1) \<Rightarrow> ev # gen_all lib g1)"
  by auto
termination
  by (relation "measure (\<lambda>(lib, g). gen_left g)") (auto dest: gen_left_next)

declare gen_all.simps [simp del]

lemma gen_all_length: "length (gen_all lib g) = gen_left g"
proof (induction lib g rule: gen_all.induct)
  case (1 lib g)
  show ?case
  proof (cases "gen_next lib g")
    case None
    then show ?thesis
      by (auto simp: gen_all.simps [of lib g] gen_next_def gen_left_def word_le_nat_alt Let_def split: if_splits prod.splits)
  next
    case (Some p)
    then show ?thesis using 1 gen_left_next [of lib g "fst p" "snd p"] by (cases p) (simp add: gen_all.simps [of lib g])
  qed
qed

section \<open>The feed\<close>

lemma swap_and_pop:
  assumes "k < length xs" and "distinct xs"
  shows "set (swap_and_pop k xs) = set xs - {xs ! k}" and "distinct (swap_and_pop k xs)"
proof -
  obtain ys z where xs: "xs = ys @ [z]" using assms(1) by (cases xs rule: rev_cases) auto
  then have "swap_and_pop k xs = (if k < length ys then ys[k := z] else ys)"
    using assms(1) by (auto simp: swap_and_pop_def list_update_append)
  then show "set (swap_and_pop k xs) = set xs - {xs ! k}" "distinct (swap_and_pop k xs)"
    using assms xs by (auto simp: set_update_distinct distinct_list_update nth_append)
qed

definition feed_price :: "engine_config \<Rightarrow> order \<Rightarrow> bool" where
  "feed_price cfg o1 \<longleftrightarrow> (if \<not> market_maker_mode cfg then 1 \<le> ord_price o1
     else if is_buy o1 then cfg_mid_price cfg - 3 \<le> ord_price o1 \<and> ord_price o1 < cfg_mid_price cfg
     else cfg_mid_price cfg < ord_price o1 \<and> ord_price o1 \<le> cfg_mid_price cfg + 3)"

definition feed_order :: "engine_config \<Rightarrow> order \<Rightarrow> bool" where
  "feed_order cfg o1 \<longleftrightarrow> ord_type o1 = Limit \<and> ord_status o1 = New \<and> ord_peak_qty o1 = 0 \<and> ord_reserve_qty o1 = 0
     \<and> 1 \<le> ord_quantity o1 \<and> ord_quantity o1 \<le> 500 \<and> ord_orig_qty o1 = ord_quantity o1 \<and> feed_price cfg o1"

text \<open>
  A feed of limit orders with new ids and cancels of orders sent before, each cancelled at most once. \<open>lv\<close> are the
  ids that may be cancelled, \<open>used\<close> those that may not be used again.
\<close>

fun feed_ok :: "engine_config \<Rightarrow> order_id set \<Rightarrow> order_id set \<Rightarrow> order_event list \<Rightarrow> bool" where
  "feed_ok cfg lv used [] = True"
| "feed_ok cfg lv used (NewOrderEvent o1 # evs) = (feed_order cfg o1 \<and> ord_id o1 \<notin> used \<and>
     feed_ok cfg (insert (ord_id o1) lv) (insert (ord_id o1) used) evs)"
| "feed_ok cfg lv used (CancelOrderEvent e # evs) =
     (cancel_order_id e \<in> lv \<and> feed_ok cfg (lv - {cancel_order_id e}) used evs)"
| "feed_ok cfg lv used (ModifyOrderEvent e # evs) = False"
| "feed_ok cfg lv used (ReplaceOrderEvent e # evs) = False"

lemma feed_disciplined: "feed_ok cfg lv used evs \<Longrightarrow> disciplined used evs"
  by (induction cfg lv used evs rule: feed_ok.induct) auto

lemma disciplined_take: "disciplined used evs \<Longrightarrow> disciplined used (take m evs)"
proof (induction used evs arbitrary: m rule: disciplined.induct)
  case 1
  then show ?case by simp
next
  case (2 used o1 evs)
  then show ?case by (cases m) auto
next
  case (3 used e evs)
  then show ?case by (cases m) auto
next
  case (4 used e evs)
  then show ?case by simp
next
  case (5 used e evs)
  then show ?case by (cases m) auto
qed

definition gen_inv :: "'r synthetic_generator \<Rightarrow> bool" where
  "gen_inv g \<longleftrightarrow> 1 \<le> unat (next_order_id g) \<and> unat (next_order_id g) \<le> Suc (unat (event_count g)) \<and>
     unat (max_events g) < 2 ^ 64 - 1 \<and> distinct (live_orders g) \<and> (\<forall>i\<in>set (live_orders g). i < next_order_id g) \<and>
     gen_mid_price g = cfg_mid_price (gen_config g)"

lemma quantity_drawn: "1 \<le> q \<Longrightarrow> q \<le> 500 \<Longrightarrow> 1 \<le> (word_of_int q :: 64 word) \<and> (word_of_int q :: 64 word) \<le> 500"
  by (simp add: word_le_def uint_word_of_int_eq take_bit_int_eq_self)

lemma generate_new_order_ok:
  assumes "random_ok lib" and "gen_mid_price g = cfg_mid_price (gen_config g)" and "generate_new_order lib g = (ev, g1)"
  shows "\<exists>o1. ev = NewOrderEvent o1 \<and> ord_id o1 = next_order_id g \<and> feed_order (gen_config g) o1 \<and>
    next_order_id g1 = next_order_id g + 1 \<and> live_orders g1 = live_orders g @ [next_order_id g]"
proof -
  obtain u r1 where u: "draw_uniform lib (gen_rng g) = (u, r1)" by fastforce
  obtain q r2 where q: "draw_int lib 1 500 r1 = (q, r2)" by fastforce
  obtain d r3 where d: "draw_int lib 1 3 r2 = (d, r3)" by fastforce
  have "1 \<le> q \<and> q \<le> 500" "1 \<le> d \<and> d \<le> 3"
    using random_okD [OF assms(1) q] random_okD [OF assms(1) d] by simp_all
  then show ?thesis
    using assms(2,3) quantity_drawn [of q]
    by (auto simp: generate_new_order_def sample_price_def Let_def u q d feed_order_def feed_price_def is_buy_def
        default_order_def split: prod.splits if_splits)
qed

lemma generate_cancel_ok:
  assumes "random_ok lib" and "distinct (live_orders g)" and "live_orders g \<noteq> []" and "generate_cancel lib g = (ev, g1)"
  shows "\<exists>e. ev = CancelOrderEvent e \<and> cancel_order_id e \<in> set (live_orders g) \<and> distinct (live_orders g1) \<and>
    set (live_orders g1) = set (live_orders g) - {cancel_order_id e}"
proof -
  obtain k r where k: "draw_int lib 0 (int (length (live_orders g)) - 1) (gen_rng g) = (k, r)" by fastforce
  have "nat k < length (live_orders g)" using random_okD [OF assms(1) k] assms(3) by (cases "live_orders g") auto
  then show ?thesis using assms(2,4) swap_and_pop [of "nat k" "live_orders g"] k by (auto simp: generate_cancel_def)
qed

lemma gen_next_calls:
  assumes "gen_next lib g = Some (ev, g1)"
  shows "\<exists>g2. next_order_id g2 = next_order_id g \<and> live_orders g2 = live_orders g \<and> gen_config g2 = gen_config g \<and>
    gen_mid_price g2 = gen_mid_price g \<and>
    (generate_new_order lib g2 = (ev, g1) \<or> live_orders g \<noteq> [] \<and> generate_cancel lib g2 = (ev, g1))"
proof -
  let ?g = "g\<lparr> event_count := event_count g + 1, current_ts := current_ts g + 1000000 \<rparr>"
  obtain u r where u: "draw_uniform lib (gen_rng g) = (u, r)" by fastforce
  show ?thesis
  proof (cases "live_orders g = []")
    case True
    then show ?thesis using assms by (intro exI [of _ ?g]) (auto simp: gen_next_def Let_def split: if_splits)
  next
    case False
    then show ?thesis
      using assms u by (intro exI [of _ "?g\<lparr> gen_rng := r \<rparr>"]) (auto simp: gen_next_def Let_def split: if_splits)
  qed
qed

text \<open>One call of \<open>next\<close>: a fresh limit order or a cancel of a live order.\<close>

lemma gen_next_ok:
  assumes lib: "random_ok lib" and inv: "gen_inv g" and nx: "gen_next lib g = Some (ev, g1)"
  shows "gen_inv g1 \<and>
    ((\<exists>o1. ev = NewOrderEvent o1 \<and> ord_id o1 = next_order_id g \<and> feed_order (gen_config g) o1 \<and>
        next_order_id g < next_order_id g1 \<and> set (live_orders g1) = insert (next_order_id g) (set (live_orders g))) \<or>
     (\<exists>e. ev = CancelOrderEvent e \<and> cancel_order_id e \<in> set (live_orders g) \<and> next_order_id g1 = next_order_id g \<and>
        set (live_orders g1) = set (live_orders g) - {cancel_order_id e}))"
proof -
  note cnt = gen_next_counts [OF nx]
  have ec: "unat (event_count g1) = Suc (unat (event_count g))" using word_inc [OF cnt(1)] cnt(2) by simp
  then have "unat (next_order_id g) < 2 ^ 64 - 1"
    using inv cnt(1) by (simp add: gen_inv_def word_less_nat_alt)
  then have id: "unat (next_order_id g + 1) = Suc (unat (next_order_id g))" by (simp add: unat_word_ariths)
  then have less: "next_order_id g < next_order_id g + 1" by (simp add: word_less_nat_alt)
  obtain g2 where g2: "next_order_id g2 = next_order_id g" "live_orders g2 = live_orders g" "gen_config g2 = gen_config g"
      "gen_mid_price g2 = gen_mid_price g"
    and gen: "generate_new_order lib g2 = (ev, g1) \<or> live_orders g \<noteq> [] \<and> generate_cancel lib g2 = (ev, g1)"
    using gen_next_calls [OF nx] by blast
  show ?thesis
    using gen
  proof (elim disjE conjE)
    assume "generate_new_order lib g2 = (ev, g1)"
    from generate_new_order_ok [OF lib _ this] obtain o1
      where "ev = NewOrderEvent o1" "ord_id o1 = next_order_id g" "feed_order (gen_config g) o1"
        "next_order_id g1 = next_order_id g + 1" "live_orders g1 = live_orders g @ [next_order_id g]"
      using inv g2 by (auto simp: gen_inv_def)
    then show ?thesis using inv cnt(3-5) ec id less by (auto simp: gen_inv_def intro: less_trans)
  next
    assume "live_orders g \<noteq> []" and c: "generate_cancel lib g2 = (ev, g1)"
    then obtain e where "ev = CancelOrderEvent e" "cancel_order_id e \<in> set (live_orders g)" "distinct (live_orders g1)"
        "set (live_orders g1) = set (live_orders g) - {cancel_order_id e}"
      using generate_cancel_ok [OF lib _ _ c] inv g2 by (auto simp: gen_inv_def)
    then show ?thesis using inv cnt(3-5) ec generate_counts(2) [OF c] g2 by (auto simp: gen_inv_def)
  qed
qed

lemma gen_all_feed:
  "random_ok lib \<Longrightarrow> gen_inv g \<Longrightarrow> used \<subseteq> {i. i < next_order_id g} \<Longrightarrow>
    feed_ok (gen_config g) (set (live_orders g)) used (gen_all lib g)"
proof (induction lib g arbitrary: used rule: gen_all.induct)
  case (1 lib g)
  show ?case
  proof (cases "gen_next lib g")
    case None
    then show ?thesis by (simp add: gen_all.simps [of lib g])
  next
    case (Some p)
    obtain ev g1 where p: "p = (ev, g1)" by fastforce
    note nx = Some [unfolded p]
    note ih = "1.IH" [OF nx refl "1.prems"(1)]
    have all: "gen_all lib g = ev # gen_all lib g1" by (simp add: gen_all.simps [of lib g] nx)
    have inv: "gen_inv g1" and step: "(\<exists>o1. ev = NewOrderEvent o1 \<and> ord_id o1 = next_order_id g \<and>
        feed_order (gen_config g) o1 \<and> next_order_id g < next_order_id g1 \<and>
        set (live_orders g1) = insert (next_order_id g) (set (live_orders g))) \<or>
      (\<exists>e. ev = CancelOrderEvent e \<and> cancel_order_id e \<in> set (live_orders g) \<and> next_order_id g1 = next_order_id g \<and>
        set (live_orders g1) = set (live_orders g) - {cancel_order_id e})"
      using gen_next_ok [OF "1.prems"(1,2) nx] by blast+
    from step show ?thesis
    proof (elim disjE exE conjE)
      fix o1 assume o1: "ev = NewOrderEvent o1" "ord_id o1 = next_order_id g" "feed_order (gen_config g) o1"
        "next_order_id g < next_order_id g1" "set (live_orders g1) = insert (next_order_id g) (set (live_orders g))"
      have "insert (next_order_id g) used \<subseteq> {i. i < next_order_id g1}" using o1(4) "1.prems"(3) by auto
      from ih [OF inv this] show ?thesis using o1 "1.prems"(3) gen_next_counts(4) [OF nx] by (auto simp: all)
    next
      fix e assume e: "ev = CancelOrderEvent e" "cancel_order_id e \<in> set (live_orders g)" "next_order_id g1 = next_order_id g"
        "set (live_orders g1) = set (live_orders g) - {cancel_order_id e}"
      show ?thesis using ih [OF inv, of used] e "1.prems"(3) gen_next_counts(4) [OF nx] by (simp add: all)
    qed
  qed
qed

lemma gen_inv_new: "mx \<noteq> - 1 \<Longrightarrow> gen_inv (new_generator lib cfg seed mx)"
proof -
  assume "mx \<noteq> - 1"
  moreover have "unat (- 1 :: 64 word) = 2 ^ 64 - 1" by (simp add: unsigned_minus_1_eq_mask mask_eq_exp_minus_1)
  ultimately have "unat mx \<noteq> 2 ^ 64 - 1" by (metis word_unat_eq_iff)
  then show ?thesis using unsigned_less [of mx, where ?'a = nat] by (simp add: gen_inv_def new_generator_def)
qed

lemma new_feed:
  assumes "random_ok lib" and "mx \<noteq> - 1"
  shows "feed_ok cfg {} {} (gen_all lib (new_generator lib cfg seed mx))"
  using gen_all_feed [OF assms(1) gen_inv_new [OF assms(2)], of "{}"] by (simp add: new_generator_def)


definition ex_random :: "nat random_lib" where
  "ex_random = \<lparr> seeded = unat, draw_uniform = (\<lambda>r. (of_nat (r mod 10) / 10, r + 3)),
     draw_normal = (\<lambda>sd r. (sd * (of_nat (r mod 7) - 3) / 3, r + 1)), draw_int = (\<lambda>lo hi r. (lo + int r mod (hi - lo + 1), r + 1)) \<rparr>"

lemma ex_random_ok: "random_ok ex_random"
proof -
  have "0 \<le> int r mod (hi - lo + 1) \<and> int r mod (hi - lo + 1) < hi - lo + 1" if "lo \<le> hi" for lo hi r
    using that pos_mod_bound [of "hi - lo + 1" "int r"] by simp
  then show ?thesis by (simp add: random_ok_def ex_random_def) (metis add.commute le_diff_eq zle_add1_eq_le)
qed


end
