(* ===== verification/Metrics.thy ===== *)
theory Metrics
  imports Text_Format
begin

text \<open>
  The latency histogram and the counters (\<^verbatim>\<open>src/metrics/histogram.hpp\<close>, \<^verbatim>\<open>metrics.hpp\<close>). Latencies and counters
  are the values of \<open>uint64_t\<close> variables, so additions are modulo \<open>2 ^ 64\<close>. A percentile is given as a whole
  number: the code computes \<open>count * p / 100.0\<close> in double precision, which for the 50, 95 and 99 that it uses is
  exact, after truncation, for less than \<open>2 ^ 45\<close> samples. How a stream prints a double is a parameter of
  \<open>print_summary\<close>.
\<close>

section \<open>Histogram\<close>

definition kBuckets :: nat where "kBuckets = 1000 + 1000 + 90"

record latency_histogram =
  buckets :: "nat list"
  hist_count :: nat
  hist_max :: nat

definition new_histogram :: latency_histogram where
  "new_histogram = \<lparr> buckets = replicate kBuckets 0, hist_count = 0, hist_max = 0 \<rparr>"

definition bucket_index :: "nat \<Rightarrow> nat" where
  "bucket_index ns = (if ns < 1000 then ns else if ns < 1000000 then 1000 + ns div 1000
     else if ns < 10000000 then 2000 + ns div 100000 else kBuckets)"

definition bucket_to_ns :: "nat \<Rightarrow> nat" where
  "bucket_to_ns i = (if i < 1000 then i else if i < 2000 then (i - 1000) * 1000 else (i - 2000) * 100000)"

definition increment :: "nat \<Rightarrow> nat" where
  "increment n = (n + 1) mod 2 ^ 64"

definition hist_record :: "nat \<Rightarrow> latency_histogram \<Rightarrow> latency_histogram" where
  "hist_record ns h = (let
     h1 = h\<lparr> hist_count := increment (hist_count h) \<rparr>;
     h2 = (if hist_max h1 < ns then h1\<lparr> hist_max := ns \<rparr> else h1);
     i = bucket_index ns
   in if i < kBuckets then h2\<lparr> buckets := (buckets h2)[i := increment (buckets h2 ! i)] \<rparr> else h2)"

fun percentile_loop :: "nat list \<Rightarrow> nat \<Rightarrow> nat \<Rightarrow> nat \<Rightarrow> nat option" where
  "percentile_loop [] i cumulative target = None"
| "percentile_loop (b # bs) i cumulative target = (let c = (cumulative + b) mod 2 ^ 64 in
     if target \<le> c then Some (bucket_to_ns i) else percentile_loop bs (Suc i) c target)"

definition percentile :: "nat \<Rightarrow> latency_histogram \<Rightarrow> nat" where
  "percentile p h = (if hist_count h = 0 then 0
     else case percentile_loop (buckets h) 0 0 (hist_count h * p div 100) of Some v \<Rightarrow> v | None \<Rightarrow> hist_max h)"

definition p50 :: "latency_histogram \<Rightarrow> nat" where "p50 h = percentile 50 h"
definition p95 :: "latency_histogram \<Rightarrow> nat" where "p95 h = percentile 95 h"
definition p99 :: "latency_histogram \<Rightarrow> nat" where "p99 h = percentile 99 h"

definition hist_reset :: "latency_histogram \<Rightarrow> latency_histogram" where
  "hist_reset h = h\<lparr> buckets := replicate (length (buckets h)) 0, hist_count := 0, hist_max := 0 \<rparr>"

section \<open>Metrics\<close>

record metrics =
  latency :: latency_histogram
  trade_count :: nat
  rejection_count :: nat
  cancel_count :: nat
  last_spread :: price
  last_imbalance :: rat
  last_bid_depth :: nat
  last_ask_depth :: nat

definition new_metrics :: metrics where
  "new_metrics = \<lparr> latency = new_histogram, trade_count = 0, rejection_count = 0, cancel_count = 0, last_spread = 0,
     last_imbalance = 0, last_bid_depth = 0, last_ask_depth = 0 \<rparr>"

definition record_event_latency :: "nat \<Rightarrow> metrics \<Rightarrow> metrics" where
  "record_event_latency ns m = m\<lparr> latency := hist_record ns (latency m) \<rparr>"

definition record_trade :: "metrics \<Rightarrow> metrics" where
  "record_trade m = m\<lparr> trade_count := increment (trade_count m) \<rparr>"

definition record_rejection :: "metrics \<Rightarrow> metrics" where
  "record_rejection m = m\<lparr> rejection_count := increment (rejection_count m) \<rparr>"

definition record_cancel :: "metrics \<Rightarrow> metrics" where
  "record_cancel m = m\<lparr> cancel_count := increment (cancel_count m) \<rparr>"

definition update_spread :: "price \<Rightarrow> metrics \<Rightarrow> metrics" where
  "update_spread s m = m\<lparr> last_spread := s \<rparr>"

definition update_imbalance :: "rat \<Rightarrow> metrics \<Rightarrow> metrics" where
  "update_imbalance x m = m\<lparr> last_imbalance := x \<rparr>"

definition update_depth :: "nat \<Rightarrow> nat \<Rightarrow> metrics \<Rightarrow> metrics" where
  "update_depth bl al m = m\<lparr> last_bid_depth := bl, last_ask_depth := al \<rparr>"

text \<open>The lines on standard output.\<close>

definition print_summary :: "(rat \<Rightarrow> string) \<Rightarrow> metrics \<Rightarrow> string list" where
  "print_summary show_double m = [''=== Engine Metrics ==='',
     ''Events:     '' @ show_nat (hist_count (latency m)),
     ''Trades:     '' @ show_nat (trade_count m),
     ''Rejections: '' @ show_nat (rejection_count m),
     ''Cancels:    '' @ show_nat (cancel_count m),
     ''Latency p50:  '' @ show_nat (p50 (latency m)) @ '' ns'',
     ''Latency p95:  '' @ show_nat (p95 (latency m)) @ '' ns'',
     ''Latency p99:  '' @ show_nat (p99 (latency m)) @ '' ns'',
     ''Latency max:  '' @ show_nat (hist_max (latency m)) @ '' ns'',
     ''Spread:     '' @ show_int (last_spread m),
     ''Imbalance:  '' @ show_double (last_imbalance m),
     ''Depth:      '' @ show_nat (last_bid_depth m) @ '' bid / '' @ show_nat (last_ask_depth m) @ '' ask'']"

section \<open>What the histogram holds\<close>

definition bucketed :: "nat list \<Rightarrow> nat \<Rightarrow> nat" where
  "bucketed xs i = length (filter (\<lambda>x. bucket_index x = i) xs)"

lemma hist_record_all:
  assumes "length xs < 2 ^ 64"
  shows "fold hist_record xs new_histogram =
    \<lparr> buckets = map (bucketed xs) [0..<kBuckets], hist_count = length xs, hist_max = foldl max 0 xs \<rparr>"
  using assms
proof (induction xs rule: rev_induct)
  case Nil
  show ?case by (simp add: new_histogram_def bucketed_def map_replicate_const)
next
  case (snoc x xs)
  have less: "bucketed xs i < 2 ^ 64 - 1" for i
    using snoc.prems le_less_trans [OF length_filter_le, of xs "2 ^ 64 - 1"] by (simp add: bucketed_def)
  have "(map (bucketed xs) [0..<kBuckets])[bucket_index x := Suc (bucketed xs (bucket_index x))] =
      map (bucketed (xs @ [x])) [0..<kBuckets]" if "bucket_index x < kBuckets"
    using that by (intro nth_equalityI) (auto simp: nth_list_update bucketed_def)
  moreover have "map (bucketed (xs @ [x])) [0..<kBuckets] = map (bucketed xs) [0..<kBuckets]" if "\<not> bucket_index x < kBuckets"
    using that by (auto simp: bucketed_def)
  ultimately show ?case
    using snoc less [of "bucket_index x"] by (simp add: hist_record_def Let_def increment_def max_def)
qed

lemma percentile_loop_find:
  assumes "\<And>k. (\<Sum>j<k. f j) < 2 ^ 64"
  shows "percentile_loop (map f [i..<n]) i (\<Sum>j<i. f j) t =
    map_option bucket_to_ns (find (\<lambda>k. t \<le> (\<Sum>j<Suc k. f j)) [i..<n])"
proof (induction "n - i" arbitrary: i)
  case (Suc m)
  then have "[i..<n] = i # [Suc i..<n]" "m = n - Suc i" by (simp_all add: upt_conv_Cons)
  then show ?case using Suc.hyps(1) [of "Suc i"] assms [of "Suc i"] by simp
qed simp

lemma bucketed_sum: "(\<Sum>j<k. bucketed xs j) = length (filter (\<lambda>x. bucket_index x < k) xs)"
proof (induction k)
  case (Suc k)
  have "length (filter (\<lambda>x. bucket_index x < Suc k) xs) =
      length (filter (\<lambda>x. bucket_index x < k) xs) + length (filter (\<lambda>x. bucket_index x = k) xs)"
    by (induction xs) auto
  then show ?case using Suc by (simp add: bucketed_def)
qed simp

lemma bucket_index_mono: "x \<le> y \<Longrightarrow> y < 9000000 \<Longrightarrow> bucket_index x \<le> bucket_index y"
  using div_le_mono [of x y 1000] div_le_mono [of x y 100000] by (auto simp: bucket_index_def)

lemma bucket_index_lost: "kBuckets \<le> bucket_index x \<longleftrightarrow> 9000000 \<le> x"
  by (auto simp: bucket_index_def kBuckets_def)

text \<open>In a sorted list the elements of a downward closed set come first.\<close>

lemma sorted_filter_prefix:
  assumes "sorted ys" and "\<And>x y. x \<le> y \<Longrightarrow> P y \<Longrightarrow> P x" and "t < length ys"
  shows "t < length (filter P ys) \<longleftrightarrow> P (ys ! t)"
  using assms
proof (induction ys arbitrary: t)
  case (Cons y ys)
  show ?case
  proof (cases "P y")
    case True
    then show ?thesis using Cons by (cases t) auto
  next
    case False
    then have "\<not> P z" if "z \<in> set (y # ys)" for z using Cons.prems(1,2) that by auto
    then have "filter P (y # ys) = []" "\<not> P ((y # ys) ! t)" using Cons.prems(3) nth_mem [of t "y # ys"] by (auto simp: filter_empty_conv simp del: nth_mem)
    then show ?thesis by simp
  qed
qed simp

lemma find_upt: "find (\<lambda>k. (b::nat) \<le> k) [i..<n] = (if max b i < n then Some (max b i) else None)"
proof (induction "n - i" arbitrary: i)
  case (Suc m)
  then have "[i..<n] = i # [Suc i..<n]" "m = n - Suc i" by (simp_all add: upt_conv_Cons)
  then show ?case using Suc.hyps(1) [of "Suc i"] Suc.hyps(2) by auto
qed auto

text \<open>The value that stands for a latency: rounded down to 1 ns, 1 us or 100 us.\<close>

definition resolution :: "nat \<Rightarrow> nat" where
  "resolution ns = (if ns < 1000 then 1 else if ns < 1000000 then 1000 else 100000)"

lemma bucket_floor: "x < 9000000 \<Longrightarrow> bucket_to_ns (bucket_index x) = x - x mod resolution x"
  by (auto simp: bucket_to_ns_def bucket_index_def resolution_def minus_mod_eq_div_mult)

lemma percentile_statistics:
  assumes "length xs < 2 ^ 64" and "p \<le> 100" and "t = length xs * p div 100" and "0 < t"
  shows "percentile p (fold hist_record xs new_histogram) =
    (let x = sort xs ! (t - 1) in if x < 9000000 then x - x mod resolution x else foldl max 0 xs)"
proof -
  let ?x = "sort xs ! (t - 1)"
  have t: "0 < t" "t \<le> length xs" using assms(2,3,4) div_le_mono [of "length xs * p" "length xs * 100" 100] by simp_all
  have less: "(\<Sum>j<k. bucketed xs j) < 2 ^ 64" for k
    unfolding bucketed_sum by (rule le_less_trans [OF length_filter_le assms(1)])
  have same: "length (filter P xs) = length (filter P (sort xs))" for P
    by (metis filter_sort length_sort)
  have key: "t \<le> (\<Sum>j<Suc k. bucketed xs j) \<longleftrightarrow> bucket_index ?x \<le> k" if "k < kBuckets" for k
  proof -
    have "bucket_index x < Suc k" if "x \<le> y" "bucket_index y < Suc k" for x y
      using that bucket_index_mono [of x y] bucket_index_lost [of y] \<open>k < kBuckets\<close> by linarith
    then have "t - 1 < length (filter (\<lambda>x. bucket_index x < Suc k) (sort xs)) \<longleftrightarrow> bucket_index ?x < Suc k"
      using t by (intro sorted_filter_prefix) auto
    then show ?thesis unfolding bucketed_sum same using t by linarith
  qed
  have "find (\<lambda>k. t \<le> (\<Sum>j<Suc k. bucketed xs j)) [0..<kBuckets] = find (\<lambda>k. bucket_index ?x \<le> k) [0..<kBuckets]"
    using key by (intro find_cong) auto
  then have "percentile_loop (map (bucketed xs) [0..<kBuckets]) 0 0 t =
      (if bucket_index ?x < kBuckets then Some (bucket_to_ns (bucket_index ?x)) else None)"
    using percentile_loop_find [of "bucketed xs" 0 kBuckets t, OF less] by (simp add: find_upt)
  then show ?thesis
    using t assms(3) bucket_index_lost [of ?x] bucket_floor [of ?x]
    by (auto simp: percentile_def hist_record_all [OF assms(1)] Let_def not_less)
qed



text \<open>
  The statistic of \<open>p\<close> percent is the \<open>t\<close>-th smallest latency at its resolution, where \<open>t\<close> is \<open>p\<close> percent of the number of
  latencies, rounded down; it is 0 when \<open>t\<close> is.
\<close>

definition order_statistic :: "nat \<Rightarrow> nat list \<Rightarrow> nat" where
  "order_statistic p xs = (let t = length xs * p div 100; x = sort xs ! (t - 1) in
     if t = 0 then 0 else if x < 9000000 then x - x mod resolution x else foldl max 0 xs)"

lemma percentile_statistic:
  assumes "length xs < 2 ^ 64" and "p \<le> 100"
  shows "percentile p (fold hist_record xs new_histogram) = order_statistic p xs"
proof (cases "length xs * p div 100 = 0")
  case True
  have "[0..<kBuckets] = 0 # [1..<kBuckets]" by (subst upt_conv_Cons) (simp_all add: kBuckets_def del: upt_Suc)
  then have "percentile_loop (map (bucketed xs) [0..<kBuckets]) 0 0 0 = Some 0" by (simp add: bucket_to_ns_def Let_def)
  then show ?thesis using True by (simp add: percentile_def hist_record_all [OF assms(1)] order_statistic_def)
next
  case False
  then show ?thesis using percentile_statistics [OF assms refl] by (simp add: order_statistic_def Let_def)
qed

section \<open>What the summary shows\<close>

datatype metric_call = Latency nat | Trade_made | Order_rejected | Order_cancelled | Spread_is price | Imbalance_is rat
  | Depth_is nat nat

fun metric_apply :: "metric_call \<Rightarrow> metrics \<Rightarrow> metrics" where
  "metric_apply (Latency ns) m = record_event_latency ns m"
| "metric_apply Trade_made m = record_trade m"
| "metric_apply Order_rejected m = record_rejection m"
| "metric_apply Order_cancelled m = record_cancel m"
| "metric_apply (Spread_is s) m = update_spread s m"
| "metric_apply (Imbalance_is x) m = update_imbalance x m"
| "metric_apply (Depth_is bl al) m = update_depth bl al m"

definition recorded :: "metric_call list \<Rightarrow> nat list" where
  "recorded cs = concat (map (\<lambda>c. case c of Latency ns \<Rightarrow> [ns] | _ \<Rightarrow> []) cs)"

lemmas metric_defs = record_event_latency_def record_trade_def record_rejection_def record_cancel_def update_spread_def
  update_imbalance_def update_depth_def increment_def

lemma metric_calls:
  "latency (fold metric_apply cs m) = fold hist_record (recorded cs) (latency m)"
  "trade_count m + length cs < 2 ^ 64 \<Longrightarrow>
     trade_count (fold metric_apply cs m) = trade_count m + length (filter (\<lambda>c. c = Trade_made) cs)"
  "rejection_count m + length cs < 2 ^ 64 \<Longrightarrow>
     rejection_count (fold metric_apply cs m) = rejection_count m + length (filter (\<lambda>c. c = Order_rejected) cs)"
  "cancel_count m + length cs < 2 ^ 64 \<Longrightarrow>
     cancel_count (fold metric_apply cs m) = cancel_count m + length (filter (\<lambda>c. c = Order_cancelled) cs)"
proof (induction cs arbitrary: m)
  case (Cons c cs)
  {
    case 1
    show ?case using Cons.IH(1) by (cases c) (simp_all add: metric_defs recorded_def)
  next
    case 2
    then show ?case using Cons.IH(2) by (cases c) (simp_all add: metric_defs)
  next
    case 3
    then show ?case using Cons.IH(3) by (cases c) (simp_all add: metric_defs)
  next
    case 4
    then show ?case using Cons.IH(4) by (cases c) (simp_all add: metric_defs)
  }
qed (simp_all add: recorded_def)

text \<open>
  The summary after a list of calls shows how many of each kind there were, the statistics of the recorded
  latencies and the largest one.
\<close>
theorem summary_shows_calls:
  assumes "length cs < 2 ^ 45"
  shows "take 9 (print_summary show_double (fold metric_apply cs new_metrics)) = [''=== Engine Metrics ==='',
     ''Events:     '' @ show_nat (length (recorded cs)),
     ''Trades:     '' @ show_nat (length (filter (\<lambda>c. c = Trade_made) cs)),
     ''Rejections: '' @ show_nat (length (filter (\<lambda>c. c = Order_rejected) cs)),
     ''Cancels:    '' @ show_nat (length (filter (\<lambda>c. c = Order_cancelled) cs)),
     ''Latency p50:  '' @ show_nat (order_statistic 50 (recorded cs)) @ '' ns'',
     ''Latency p95:  '' @ show_nat (order_statistic 95 (recorded cs)) @ '' ns'',
     ''Latency p99:  '' @ show_nat (order_statistic 99 (recorded cs)) @ '' ns'',
     ''Latency max:  '' @ show_nat (foldl max 0 (recorded cs)) @ '' ns'']"
proof -
  have "length (recorded cs) \<le> length cs"
    unfolding recorded_def by (induction cs) (simp_all split: metric_call.split)
  then have n: "length (recorded cs) < 2 ^ 64" using assms by simp
  have h: "latency (fold metric_apply cs new_metrics) = fold hist_record (recorded cs) new_histogram"
    using metric_calls(1) [of cs new_metrics] by (simp add: new_metrics_def)
  note percentile_statistic [OF n]
  moreover have "hist_count (fold hist_record (recorded cs) new_histogram) = length (recorded cs)"
    "hist_max (fold hist_record (recorded cs) new_histogram) = foldl max 0 (recorded cs)" by (simp_all add: hist_record_all [OF n])
  ultimately show ?thesis
    using metric_calls(2-4) [where cs = cs and m = new_metrics] assms
    by (simp add: print_summary_def h p50_def p95_def p99_def) (simp add: new_metrics_def)
qed

end
