(* ===== verification/Benchmarks.thy ===== *)
theory Benchmarks
  imports Synthetic_Feed Metrics Text_Input
begin

text \<open>
  The benchmark program (\<^verbatim>\<open>benchmarks/scenarios.hpp\<close>, \<^verbatim>\<open>benchmark_runner.*\<close>, \<^verbatim>\<open>bench_main.cpp\<close>): scenarios, runner,
  driver and printed report. Random numbers and clock readings are arguments, the program's arguments come without
  its name. The main theorem compares the printed reports with \<open>expected_report\<close>, which computes them from the list
  of the measured latencies.
\<close>

section \<open>Scenarios and runner\<close>

definition get_scenario_config :: "string \<Rightarrow> engine_config" where
  "get_scenario_config name =
     (if name = ''small'' then default_config\<lparr> arrival_rate := 100, cancel_probability := 1 / 10, price_std_dev := 5 \<rparr>
      else if name = ''medium'' then default_config\<lparr> arrival_rate := 1000, cancel_probability := 3 / 10, price_std_dev := 20 \<rparr>
      else if name = ''large'' then default_config\<lparr> arrival_rate := 10000, cancel_probability := 3 / 10, price_std_dev := 20 \<rparr>
      else if name = ''high_cancel'' then default_config\<lparr> arrival_rate := 5000, cancel_probability := 7 / 10, price_std_dev := 20 \<rparr>
      else if name = ''market_heavy'' then default_config\<lparr> arrival_rate := 2000, cancel_probability := 1 / 10, price_std_dev := 20 \<rparr>
      else if name = ''iceberg_stop'' then default_config\<lparr> arrival_rate := 1000, cancel_probability := 2 / 10, price_std_dev := 20 \<rparr>
      else default_config\<lparr> arrival_rate := 1000, cancel_probability := 3 / 10, price_std_dev := 20 \<rparr>)"

definition kScenarioNames :: "string list" where
  "kScenarioNames = [''small'', ''medium'', ''large'', ''high_cancel'', ''market_heavy'', ''iceberg_stop'']"

record benchmark_runner =
  events_processed :: "64 word"
  bench_latency :: latency_histogram
  scenario :: string
  bench_seed :: "64 word"
  duration_sec :: "32 word"
  bench_config :: engine_config

definition new_runner :: "string \<Rightarrow> 64 word \<Rightarrow> 32 word \<Rightarrow> benchmark_runner" where
  "new_runner name seed secs = \<lparr> events_processed = 0, bench_latency = new_histogram, scenario = name, bench_seed = seed,
     duration_sec = secs, bench_config = get_scenario_config name \<rparr>"

text \<open>
  The loop of \<open>run_scenario\<close>; \<open>clk k\<close> is the \<open>k\<close>-th clock reading, \<open>beg\<close> the reading before the loop. Differences of
  readings are of unsigned numbers and wrap around.
\<close>

function scenario_loop :: "'r random_lib \<Rightarrow> (nat \<Rightarrow> 64 word) \<Rightarrow> 64 word \<Rightarrow> 64 word \<Rightarrow> nat \<Rightarrow> 'r synthetic_generator \<Rightarrow>
    engine \<Rightarrow> benchmark_runner \<Rightarrow> fault + benchmark_runner" where
  "scenario_loop lib clk beg duration k g s b = (case gen_next lib g of
     None \<Rightarrow> Inr b
   | Some (ev, g1) \<Rightarrow> bind_res (submit ev s) (\<lambda>(r, s1).
       let t0 = clk k; t1 = clk (k + 1);
         b1 = b\<lparr> bench_latency := hist_record (unat (t1 - t0)) (bench_latency b), events_processed := events_processed b + 1 \<rparr>
       in if duration < t1 - beg then Inr b1 else scenario_loop lib clk beg duration (k + 2) g1 s1 b1))"
  by auto
termination
  by (relation "measure (\<lambda>(lib, clk, beg, duration, k, g, s, b). gen_left g)") (auto dest: gen_left_next)

declare scenario_loop.simps [simp del]

definition run_scenario :: "'r random_lib \<Rightarrow> (nat \<Rightarrow> 64 word) \<Rightarrow> benchmark_runner \<Rightarrow> fault + benchmark_runner" where
  "run_scenario lib clk b = scenario_loop lib clk (clk 0) (ucast (duration_sec b) * 1000000000) 1
     (new_generator lib (bench_config b) (bench_seed b) 100000000) (new_engine (bench_config b)) b"

definition bench_run :: "'r random_lib \<Rightarrow> (nat \<Rightarrow> 64 word) \<Rightarrow> benchmark_runner \<Rightarrow> fault + benchmark_runner" where
  "bench_run lib clk b = run_scenario lib clk (b\<lparr> bench_latency := hist_reset (bench_latency b), events_processed := 0 \<rparr>)"

text \<open>
  The report, one string per line. The throughput is a quotient of doubles printed without decimals. Counts below
  \<open>2 ^ 52\<close> are exact as doubles and their quotient is too close to the exact one to round differently, so it is the
  exact quotient rounded to the nearest integer, ties to the even one; division by 0 gives \<open>inf\<close>, or \<open>-nan\<close> on x86-64.
\<close>

definition round_even :: "nat \<Rightarrow> nat \<Rightarrow> nat" where
  "round_even n d = (if 2 * (n mod d) < d \<or> 2 * (n mod d) = d \<and> even (n div d) then n div d else n div d + 1)"

definition show_quotient :: "nat \<Rightarrow> nat \<Rightarrow> string" where
  "show_quotient n d = (if d = 0 then (if n = 0 then ''-nan'' else ''inf'') else show_nat (round_even n d))"

definition report :: "benchmark_runner \<Rightarrow> string list" where
  "report b = [''=== Benchmark: '' @ scenario b @ '' ==='',
     ''  Duration:    '' @ show_nat (unat (duration_sec b)) @ '' s'',
     ''  Events:      '' @ show_nat (unat (events_processed b)),
     ''  Throughput:  '' @ show_quotient (unat (events_processed b)) (unat (duration_sec b)) @ '' ev/s'',
     ''  p50:         '' @ show_nat (p50 (bench_latency b)) @ '' ns'',
     ''  p95:         '' @ show_nat (p95 (bench_latency b)) @ '' ns'',
     ''  p99:         '' @ show_nat (p99 (bench_latency b)) @ '' ns'',
     ''  max:         '' @ show_nat (hist_max (bench_latency b)) @ '' ns'', []]"

section \<open>The benchmark driver\<close>

datatype bench_cmd = Run_benches "string list" "64 word" "32 word" | Bench_quit | Bench_throws number_error

fun bench_args :: "string list \<Rightarrow> string \<Rightarrow> 64 word \<Rightarrow> 32 word \<Rightarrow> bench_cmd" where
  "bench_args [] name seed secs = Run_benches [name] seed secs"
| "bench_args [a] name seed secs = (if a = ''--all'' then Run_benches kScenarioNames seed secs else Bench_quit)"
| "bench_args (a # v # args) name seed secs =
     (if a = ''--scenario'' then bench_args args v seed secs
      else if a = ''--seed'' then (case stoull v of Inl e \<Rightarrow> Bench_throws e | Inr w \<Rightarrow> bench_args args name w secs)
      else if a = ''--duration'' then (case stoull v of Inl e \<Rightarrow> Bench_throws e | Inr w \<Rightarrow> bench_args args name seed (ucast w))
      else if a = ''--all'' then Run_benches kScenarioNames seed secs
      else Bench_quit)"

text \<open>The runners one after the other, each with its report; \<open>clks k\<close> are the clock readings of the \<open>k\<close>-th.\<close>

fun run_benches :: "'r random_lib \<Rightarrow> (nat \<Rightarrow> nat \<Rightarrow> 64 word) \<Rightarrow> nat \<Rightarrow> string list \<Rightarrow> 64 word \<Rightarrow> 32 word \<Rightarrow>
    fault + string list" where
  "run_benches lib clks k [] seed secs = Inr []"
| "run_benches lib clks k (nm # nms) seed secs = bind_res (bench_run lib (clks k) (new_runner nm seed secs)) (\<lambda>b.
     bind_res (run_benches lib clks (k + 1) nms seed secs) (\<lambda>out. Inr (report b @ out)))"

definition bench_usage :: "string \<Rightarrow> string list" where
  "bench_usage prog = [''Usage: '' @ prog @ '' [--scenario <name>] [--seed <n>] [--duration <sec>] [--all]'',
     ''Scenarios: small, medium, large, high_cancel, market_heavy, iceberg_stop'']"

text \<open>
  How the program ends: with the exit code 1 and lines on standard error, with an exception, or after its runs, with
  what it has written to standard output. \<open>prog\<close> is its name.
\<close>

datatype bench_end = Bench_usage "string list" | Bench_escapes number_error | Bench_output "fault + string list"

definition bench_main :: "'r random_lib \<Rightarrow> (nat \<Rightarrow> nat \<Rightarrow> 64 word) \<Rightarrow> string \<Rightarrow> string list \<Rightarrow> bench_end" where
  "bench_main lib clks prog args = (case bench_args args ''medium'' 42 10 of
     Run_benches nms seed secs \<Rightarrow> Bench_output (run_benches lib clks 0 nms seed secs)
   | Bench_quit \<Rightarrow> Bench_usage (bench_usage prog)
   | Bench_throws e \<Rightarrow> Bench_escapes e)"

section \<open>What is measured\<close>

text \<open>The latencies of \<open>m\<close> submissions, and whether the time is up after the one that reads the clock at \<open>k\<close>.\<close>

definition latencies :: "(nat \<Rightarrow> 64 word) \<Rightarrow> nat \<Rightarrow> nat \<Rightarrow> nat list" where
  "latencies clk k m = map (\<lambda>j. unat (clk (k + 2 * j + 1) - clk (k + 2 * j))) [0..<m]"

definition time_up :: "(nat \<Rightarrow> 64 word) \<Rightarrow> 64 word \<Rightarrow> 64 word \<Rightarrow> nat \<Rightarrow> bool" where
  "time_up clk beg duration k \<longleftrightarrow> duration < clk (k + 1) - beg"

text \<open>The number of submissions when at most \<open>n\<close> events can be had.\<close>

fun submissions :: "(nat \<Rightarrow> 64 word) \<Rightarrow> 64 word \<Rightarrow> 64 word \<Rightarrow> nat \<Rightarrow> nat \<Rightarrow> nat" where
  "submissions clk beg duration k 0 = 0"
| "submissions clk beg duration k (Suc n) =
     (if time_up clk beg duration k then 1 else Suc (submissions clk beg duration (k + 2) n))"

lemma submissions_le: "submissions clk beg duration k n \<le> n"
  by (induction clk beg duration k n rule: submissions.induct) auto

lemma submissions_pos: "0 < n \<Longrightarrow> 0 < submissions clk beg duration k n"
  by (cases n) simp_all

lemma submissions_until:
  "j < submissions clk beg duration k n \<Longrightarrow> time_up clk beg duration (k + 2 * j) \<Longrightarrow> submissions clk beg duration k n = Suc j"
proof (induction clk beg duration k n arbitrary: j rule: submissions.induct)
  case (2 clk beg duration k n)
  show ?case
  proof (cases j)
    case 0
    then show ?thesis using "2.prems"(2) by simp
  next
    case (Suc i)
    then have less: "\<not> time_up clk beg duration k" "i < submissions clk beg duration (k + 2) n"
      using "2.prems"(1) by (simp_all split: if_splits)
    have "k + 2 * j = k + 2 + 2 * i" by (simp add: Suc)
    from "2.IH" [OF less] "2.prems"(2) [unfolded this] less(1) show ?thesis by (simp only: Suc submissions.simps if_False)
  qed
qed simp

lemma latencies_Suc: "latencies clk k (Suc m) = unat (clk (k + 1) - clk k) # latencies clk (k + 2) m"
  by (simp add: latencies_def upt_conv_Cons map_Suc_upt [symmetric] comp_def del: upt_Suc)

definition measured :: "nat list \<Rightarrow> benchmark_runner \<Rightarrow> benchmark_runner" where
  "measured xs b = b\<lparr> bench_latency := fold hist_record xs (bench_latency b), events_processed := events_processed b + of_nat (length xs) \<rparr>"

text \<open>The loop submits a prefix of the feed and records its latencies.\<close>

lemma scenario_loop_prefix:
  "run_events (take (submissions clk beg duration k (length (gen_all lib g))) (gen_all lib g)) s = Inr (rs, s1) \<Longrightarrow>
   scenario_loop lib clk beg duration k g s b =
     Inr (measured (latencies clk k (submissions clk beg duration k (length (gen_all lib g)))) b)"
proof (induction lib g arbitrary: k s b rs rule: gen_all.induct)
  case (1 lib g)
  show ?case
  proof (cases "gen_next lib g")
    case None
    then show ?thesis
      by (simp add: scenario_loop.simps [of lib clk beg duration k g s b] gen_all.simps [of lib g] measured_def latencies_def)
  next
    case (Some p)
    obtain ev g1 where p: "p = (ev, g1)" by fastforce
    note nx = Some [unfolded p]
    have all: "gen_all lib g = ev # gen_all lib g1" by (simp add: gen_all.simps [of lib g] nx)
    let ?m = "submissions clk beg duration (k + 2) (length (gen_all lib g1))"
    let ?b1 = "b\<lparr> bench_latency := hist_record (unat (clk (k + 1) - clk k)) (bench_latency b),
      events_processed := events_processed b + 1 \<rparr>"
    from "1.prems" obtain r s2 where sub: "submit ev s = Inr (r, s2)"
      by (cases "time_up clk beg duration k") (auto simp: all bind_res_Inr_iff)
    then have loop: "scenario_loop lib clk beg duration k g s b = (if time_up clk beg duration k then Inr ?b1
        else scenario_loop lib clk beg duration (k + 2) g1 s2 ?b1)"
      by (simp add: scenario_loop.simps [of lib clk beg duration k g s b] nx time_up_def)
    show ?thesis
    proof (cases "time_up clk beg duration k")
      case True
      then show ?thesis by (simp add: loop all measured_def latencies_def)
    next
      case False
      obtain rs1 where "run_events (take ?m (gen_all lib g1)) s2 = Inr (rs1, s1)"
        using "1.prems" False sub by (auto simp: all bind_res_Inr_iff)
      from "1.IH" [OF nx refl this, of ?b1] False show ?thesis
        by (simp add: loop all latencies_Suc measured_def)
    qed
  qed
qed

text \<open>How many events a benchmark of \<open>secs\<close> seconds submits: until the time is up, at most 100000000.\<close>

definition bench_events :: "(nat \<Rightarrow> 64 word) \<Rightarrow> 32 word \<Rightarrow> nat" where
  "bench_events clk secs = submissions clk (clk 0) (ucast secs * 1000000000) 1 100000000"

definition bench_latencies :: "(nat \<Rightarrow> 64 word) \<Rightarrow> 32 word \<Rightarrow> nat list" where
  "bench_latencies clk secs = latencies clk 1 (bench_events clk secs)"

lemma bench_latencies_length: "length (bench_latencies clk secs) = bench_events clk secs"
  by (simp add: bench_latencies_def latencies_def)

lemma bench_events_bound: "bench_events clk secs \<le> 100000000"
  by (simp add: bench_events_def submissions_le)

lemma bench_run_returns:
  assumes "random_ok lib"
  shows "bench_run lib clk (new_runner nm seed secs) = Inr (measured (bench_latencies clk secs) (new_runner nm seed secs))"
proof -
  let ?b = "(new_runner nm seed secs)\<lparr> bench_latency := hist_reset new_histogram, events_processed := 0 \<rparr>"
  let ?g = "new_generator lib (get_scenario_config nm) seed 100000000"
  let ?s = "new_engine (get_scenario_config nm)"
  have len: "length (gen_all lib ?g) = 100000000" by (simp add: gen_all_length gen_left_def new_generator_def)
  have "disciplined {} (take (bench_events clk secs) (gen_all lib ?g))"
    by (rule disciplined_take [OF feed_disciplined [OF new_feed [OF assms]]]) simp
  from run_events_returns [OF engine_ok_new disciplined_events_ok [OF history_start this]] obtain rs s1
    where "run_events (take (bench_events clk secs) (gen_all lib ?g)) ?s = Inr (rs, s1)" by blast
  then have "scenario_loop lib clk (clk 0) (ucast secs * 1000000000) 1 ?g ?s ?b = Inr (measured (bench_latencies clk secs) ?b)"
    using scenario_loop_prefix [where g = ?g and lib = lib] by (simp add: len bench_latencies_def bench_events_def)
  moreover have "?b = new_runner nm seed secs"
    by (simp add: new_runner_def hist_reset_def new_histogram_def)
  ultimately show ?thesis by (simp add: bench_run_def run_scenario_def new_runner_def)
qed

section \<open>What is reported\<close>

text \<open>The report computed from the latencies alone.\<close>

definition expected_report :: "string \<Rightarrow> nat \<Rightarrow> nat list \<Rightarrow> string list" where
  "expected_report name secs xs = [''=== Benchmark: '' @ name @ '' ==='',
     ''  Duration:    '' @ show_nat secs @ '' s'',
     ''  Events:      '' @ show_nat (length xs),
     ''  Throughput:  '' @ show_quotient (length xs) secs @ '' ev/s'',
     ''  p50:         '' @ show_nat (order_statistic 50 xs) @ '' ns'',
     ''  p95:         '' @ show_nat (order_statistic 95 xs) @ '' ns'',
     ''  p99:         '' @ show_nat (order_statistic 99 xs) @ '' ns'',
     ''  max:         '' @ show_nat (foldl max 0 xs) @ '' ns'', []]"

lemma report_measured:
  assumes "length xs \<le> 100000000"
  shows "report (measured xs (new_runner nm seed secs)) = expected_report nm (unat secs) xs"
proof -
  have "unat (of_nat (length xs) :: 64 word) = length xs" using assms by (simp add: unat_of_nat take_bit_nat_eq_self)
  moreover have "length xs < 2 ^ 64" using assms by simp
  ultimately show ?thesis
    by (simp add: report_def expected_report_def measured_def new_runner_def p50_def p95_def p99_def percentile_statistic)
      (simp add: hist_record_all)
qed

lemma run_benches_reports:
  assumes "random_ok lib"
  shows "run_benches lib clks k nms seed secs =
    Inr (concat (map (\<lambda>(j, nm). expected_report nm (unat secs) (bench_latencies (clks j) secs)) (enumerate k nms)))"
proof (induction nms arbitrary: k)
  case (Cons nm nms)
  have "length (bench_latencies (clks k) secs) \<le> 100000000" by (simp add: bench_latencies_length bench_events_bound)
  from report_measured [OF this] Cons show ?case by (simp add: bench_run_returns [OF assms])
qed simp

text \<open>
  C37. The benchmark program: with any random numbers, any clock and any arguments that it accepts, every benchmark it
  starts ends without a fault of the engine, after at least one event and at most 100000000, as soon as a reading
  after a submission is past the duration; with \<open>--all\<close> the six scenarios run in order, else the one asked for. What is
  printed are the reports computed from the measured latencies: their number, the throughput, their median, 95 and 99
  percent statistics at the resolution of the histogram, and their maximum.
\<close>
theorem benchmark_program:
  assumes "random_ok lib" and "bench_args args ''medium'' 42 10 = Run_benches nms seed secs"
  shows "bench_main lib clks prog args =
      Bench_output (Inr (concat (map (\<lambda>(j, nm). expected_report nm (unat secs) (bench_latencies (clks j) secs)) (enumerate 0 nms)))) \<and>
    (length nms = 1 \<or> nms = kScenarioNames) \<and>
    (\<forall>k. let m = length (bench_latencies (clks k) secs) in 0 < m \<and> m \<le> 100000000 \<and>
       (\<forall>j<m. time_up (clks k) (clks k 0) (ucast secs * 1000000000) (1 + 2 * j) \<longrightarrow> m = Suc j))"
proof (intro conjI)
  show "bench_main lib clks prog args =
      Bench_output (Inr (concat (map (\<lambda>(j, nm). expected_report nm (unat secs) (bench_latencies (clks j) secs)) (enumerate 0 nms))))"
    by (simp add: bench_main_def assms(2) run_benches_reports [OF assms(1)])
  have "bench_args as nm sd sc = Run_benches nms seed secs \<Longrightarrow> length nms = 1 \<or> nms = kScenarioNames" for as nm sd sc
    by (induction as nm sd sc rule: bench_args.induct) (auto split: if_splits sum.splits)
  from this [OF assms(2)] show "length nms = 1 \<or> nms = kScenarioNames" .
  show "\<forall>k. let m = length (bench_latencies (clks k) secs) in 0 < m \<and> m \<le> 100000000 \<and>
      (\<forall>j<m. time_up (clks k) (clks k 0) (ucast secs * 1000000000) (1 + 2 * j) \<longrightarrow> m = Suc j)"
    using submissions_until submissions_pos [of 100000000]
    by (simp add: Let_def bench_latencies_length bench_events_bound) (simp add: bench_events_def)
qed

theorem benchmark_program_witness:
  "bench_main ex_random (\<lambda>j k. of_nat k) ''bench'' [''--scenario'', ''small'', ''--duration'', ''0''] =
    Bench_output (Inr [''=== Benchmark: small ==='', ''  Duration:    0 s'', ''  Events:      1'', ''  Throughput:  inf ev/s'',
      ''  p50:         0 ns'', ''  p95:         0 ns'', ''  p99:         0 ns'', ''  max:         1 ns'', []])"
proof -
  have "scan_number ''0'' = Some (False, 0)" by code_simp
  then have "stoull ''0'' = Inr 0" by (simp add: stoull_def)
  then have args: "bench_args [''--scenario'', ''small'', ''--duration'', ''0''] ''medium'' 42 10 = Run_benches [''small''] 42 0"
    by simp
  have "submissions (\<lambda>k. of_nat k) 0 0 1 (Suc n) = 1" for n by (simp add: time_up_def)
  from this [of 99999999] have "bench_events (\<lambda>k. of_nat k) 0 = 1" by (simp add: bench_events_def)
  then have "bench_latencies (\<lambda>k. of_nat k) 0 = [1]" by (simp add: bench_latencies_def latencies_def)
  moreover have "show_nat 0 = ''0''" "show_nat 1 = ''1''" by code_simp+
  ultimately show ?thesis
    using benchmark_program [OF ex_random_ok args, of "\<lambda>j k. of_nat k" "''bench''"]
    by (simp add: expected_report_def order_statistic_def show_quotient_def)
qed

end
