(* ===== verification/Spec2Isabelle.thy ===== *)
theory Spec2Isabelle
  imports Engine_Findings Spsc_Protocol Exchange_Program Event_Log Logger Recovery Benchmarks
begin

text \<open>
  \<^bold>\<open>A limit order book exchange.\<close> The program (C++20) is a matching engine per instrument, an exchange of 25 instruments
  around it, a gateway of four threads that connects the exchange to ZeroMQ sockets and a replay log, and tools: a
  CSV replayer, binary snapshots, a synthetic feed, benchmarks, a logger and a latency histogram. This
  development models all of it except the libraries it calls, and proves the theorems listed below. Paths are relative to the repository.

  \<^bold>\<open>How the parts interact.\<close> Order messages arrive as JSON on a socket; the receiver thread decodes them and pushes
  them into a single-producer single-consumer ring; the exchange thread pops them, routes each to the engine of its
  symbol, turns the result into events and pushes these into two more rings; the publisher and the replay
  writer empty those. The engine keeps one order book and a list of pending stop orders. The tools drive a
  single engine directly.

  \<^bold>\<open>Foundations.\<close>
  \<^item> \<^verbatim>\<open>LOB_Prelude\<close>: results with faults (\<open>bind_res\<close>; a fault is undefined behaviour or an exception of the C++ code), the
    named collections, lemmas on lists, finite maps and words. Ids, quantities and time stamps are 64-bit words with
    wrap-around; prices are integers, with \<open>int64_ok\<close> where the code could overflow.
  \<^item> \<^verbatim>\<open>Core_Types\<close>: the structs, enums and configuration of \<^verbatim>\<open>src/core\<close>.
  \<^item> \<^verbatim>\<open>Text_Format\<close>, \<^verbatim>\<open>Text_Input\<close>: decimal output and the reading functions of the standard library
    (\<open>getline\<close>, \<open>stoull\<close>, \<open>stoll\<close>), with their inverse laws.

  \<^bold>\<open>Book.\<close>
  \<^item> \<^verbatim>\<open>Price_Level\<close> (\<^verbatim>\<open>src/book/price_level.*\<close>): a FIFO queue with lazy deletion. \<open>live_ids\<close> is its abstract content; the
    locale \<open>lazy_fifo\<close> states the contract of the queue and is interpreted on the level.
  \<^item> \<^verbatim>\<open>Book_Side\<close>, \<^verbatim>\<open>Order_Book\<close> (\<^verbatim>\<open>src/book/order_book.*\<close>): each side as a sorted association list (locale over the price
    order, interpreted for bids and asks) and the id map; \<open>book_ok\<close> is the invariant, and every operation keeps it.

  \<^bold>\<open>Engine\<close> (\<^verbatim>\<open>src/engine/matching_engine.*\<close>).
  \<^item> \<^verbatim>\<open>Matching_Engine\<close>: \<open>submit\<close> and every handler. The matching loops and the stop loop call each other, so they
    are one mutual recursion on fuel; \<open>event_fuel\<close> (open quantities plus a constant per order) is enough, because every
    fill lowers the sum, and \<^verbatim>\<open>Engine_Fuel\<close>, \<^verbatim>\<open>Engine_Safety\<close> prove that a run with at least that much fuel returns,
    always with the same result.
  \<^item> \<^verbatim>\<open>Fill_Effect\<close>, \<^verbatim>\<open>Engine_Steps\<close>: one fill as a state change, and the run of a submission as a step relation
    \<open>mstep\<close>; the locale \<open>step_invariant\<close> carries a property of states along all steps and is interpreted for each
    invariant (\<^verbatim>\<open>Engine_Invariants\<close>, \<^verbatim>\<open>Engine_Events\<close>, \<^verbatim>\<open>Engine_Prices\<close>, \<^verbatim>\<open>Engine_Parties\<close>).
  \<^item> \<^verbatim>\<open>Engine_Outcomes\<close>, \<^verbatim>\<open>Engine_Properties\<close>, \<^verbatim>\<open>Engine_Stops\<close>, \<^verbatim>\<open>Engine_Handlers\<close>, \<^verbatim>\<open>Engine_History\<close>: safety of single
    submissions and of whole runs, conservation of quantity, what happens to limit, market and stop orders, trades
    within limits, the uncrossed book, and cancel, modify and replace on every branch.
  \<^item> \<^verbatim>\<open>Price_Time\<close>, \<^verbatim>\<open>Reference_Engine\<close>, \<^verbatim>\<open>Stop_Cascade\<close>: the abstract specification, in three layers. \<open>sweep\<close> matches an
    order against a list of queues by price and time alone. \<open>reference\<close> is an executable engine on a ladder of
    lists, which the engine refines on runs without stop orders. \<open>reacts\<close> is a deterministic big-step semantics with
    stop orders; the engine computes its unique outcome for every event of a run: trades, reports, rejections, book.
  \<^item> \<^verbatim>\<open>Engine_View\<close>: a simulation which shows that the engine reads only the resting orders, the live queues, the last
    trade price and the pending stops of its state, not its lazily deleted entries or stored volumes.
  \<^item> \<^verbatim>\<open>Engine_Findings\<close>: concrete runs outside the hypotheses (icebergs as aggressors, modifications, reused ids).

  \<^bold>\<open>Rings\<close> (\<^verbatim>\<open>src/core/spsc_queue.hpp\<close> and its copies in the gateway and loggers).
  \<^item> \<^verbatim>\<open>Ring_Buffer\<close>: the calls one at a time, against the locale \<open>bounded_queue\<close>. \<^verbatim>\<open>Spsc_Protocol\<close>: both threads,
    one memory access per step, acquire loads that may return stale indices; first in first out and freedom from
    races for every interleaving. It justifies that the gateway and the loggers take each call as one step.
  \<^item> \<^verbatim>\<open>Queue_Flow\<close>: what leaves a ring compared with what was offered (\<open>flows\<close>), and the locale \<open>drain_loop\<close> for
    the loops that empty a ring, interpreted for the publisher, the replay writer and the logger. The fuel of such a
    loop is the capacity of its ring, which exceeds the number of elements.

  \<^bold>\<open>Exchange and gateway.\<close>
  \<^item> \<^verbatim>\<open>Exchange_Events\<close> (\<^verbatim>\<open>src/events\<close>), \<^verbatim>\<open>Exchange_Manager\<close>, \<^verbatim>\<open>Exchange_Properties\<close> (\<^verbatim>\<open>src/gateway/exchange_manager.*\<close>):
    routing, translation of results and snapshots; runs of messages are safe, published values fit their types.
    \<^verbatim>\<open>Exchange_Isolation\<close>: a run, seen by one instrument, is the run of its own messages. \<^verbatim>\<open>Exchange_Market\<close>: the exchange
    computes the venue \<open>handles\<close>, which has one market per symbol and no engine, book or index.
  \<^item> \<^verbatim>\<open>Serializer\<close> (\<^verbatim>\<open>src/serialization\<close>): the JSON library is the parameter \<open>json_lib\<close>; \<open>reads_object\<close> and
    \<open>json_writes\<close> state what is documented of its parsing and its printing.
  \<^item> \<^verbatim>\<open>Event_Dispatcher\<close>, \<^verbatim>\<open>Replay_Logger\<close>, \<^verbatim>\<open>Gateway\<close>, \<^verbatim>\<open>Gateway_Properties\<close> (\<^verbatim>\<open>src/gateway\<close>): the four threads as the step
    relation \<open>gw_step\<close>; the pipeline keeps the order and accounts for every message under every interleaving; shutdown
    terminates; the one message that shutdown can lose, with a run that loses it; snapshot intervals that overflow.
  \<^item> \<^verbatim>\<open>Event_Log\<close>: the serializer loses nothing, and the file of the replay log tells which events the exchange made.
  \<^item> \<^verbatim>\<open>Exchange_Startup\<close>, \<^verbatim>\<open>Exchange_Program\<close> (\<^verbatim>\<open>src/exchange_main.cpp\<close>): arguments, start, the wait for the signal,
    shutdown and output of the exchange program as the step relation \<open>main_step\<close> around \<open>gw_step\<close>; its
    events are those of the venue, and what it has published and logged when it returns.

  \<^bold>\<open>Tools.\<close>
  \<^item> \<^verbatim>\<open>Csv_Replay\<close> (\<^verbatim>\<open>src/feed/csv_replay.*\<close>), \<^verbatim>\<open>Snapshot_Manager\<close> (\<^verbatim>\<open>src/snapshot\<close>), \<^verbatim>\<open>Replay_Tool\<close> (\<^verbatim>\<open>tools/replay.cpp\<close>):
    round trips of both file formats, the reported errors, and the verdict of the replay tool. The memory layout of an order is a
    parameter; the layout of x86-64 is an instance.
  \<^item> \<^verbatim>\<open>Recovery\<close>: an engine that starts from a loaded snapshot, and a replay resumed from one, continue exactly as the
    original would have.
  \<^item> \<^verbatim>\<open>Metrics\<close> (\<^verbatim>\<open>src/metrics\<close>): percentiles are order statistics up to the resolution of the buckets; what the
    printed summary shows.
  \<^item> \<^verbatim>\<open>Synthetic_Feed\<close> (\<^verbatim>\<open>src/feed/synthetic_gen.*\<close>), \<^verbatim>\<open>Benchmarks\<close> (\<^verbatim>\<open>benchmarks\<close>): the feed is well-formed and safe for the
    engine; the benchmark program ends and prints the reports computed from the measured latencies. Random numbers
    and clocks are parameters.
  \<^item> \<^verbatim>\<open>Logger\<close> (\<^verbatim>\<open>src/logging\<close>): the rounding loop of the constructor is a partial function, since it does not end for sizes
    above \<open>2 ^ 31\<close>; what the log file holds after a stop.

  \<^bold>\<open>Hypotheses.\<close> The engine theorems assume what the code relies on and does not check: new orders with unused ids
  (\<open>fresh_id\<close>, \<open>disciplined\<close>, \<open>orderly\<close>), no second removal of an order whose id already waits for deletion in its
  queue after a modification (\<open>cancellable\<close>, \<open>event_ok\<close>), and, for the exchange, non-negative prices. Memory is not exhausted.

  \<^bold>\<open>Not modelled.\<close> ZeroMQ (what it delivers is an argument, what it is given is a list), the JSON library and the random
  distributions (parameters), the system clock (\<open>now_ns\<close>: readings are arguments), the text of the exceptions of the
  standard library and its printing of doubles in \<open>print_summary\<close> (parameters), the registration of the signal
  handler, the creation of the log directory with its warning, thread scheduling beyond interleaving, disk errors
  after a file is open, getters that return a member, the unused enumeration \<open>EventType\<close>, the tests, the build files
  and the documentation.
\<close>

end
